(* ===== verification/Prelude.thy ===== *)
theory Prelude
  imports Main "HOL-Library.Word" "HOL-Library.Multiset"
begin

text \<open>
  What every component of the development shares: the C++ integer types of an LP64 platform,
  time, the characters and the decimal conversions of the C++ standard library the sources call
  (\<open>std::to_string\<close>, \<open>std::stoi\<close>, \<open>std::stoul\<close>), and generic lemmas on lists and multisets.
\<close>

section \<open>Integer types\<close>

text \<open>
  \<open>size_t\<close> and \<open>unsigned long\<close> are 64 bits wide, \<open>unsigned int\<close> and \<open>int\<close> 32, \<open>unsigned short\<close> 16.
  A C++ \<open>int\<close> is the word of its two's complement representation and is read by \<^const>\<open>sint\<close>.
  A point of time or a duration of \<open>std::chrono\<close> is an integer count of its ticks.
\<close>

type_synonym size_t = "64 word"
type_synonym uint = "32 word"
type_synonym cint = "32 word"
type_synonym ushort = "16 word"
type_synonym ticks = int

definition INT_MAX :: cint where
  "INT_MAX = 0x7FFFFFFF"

lemma sint_INT_MAX [simp]: "sint INT_MAX = 2147483647"
  by (simp add: INT_MAX_def)

lemma sint_le_INT_MAX: "sint (x :: cint) \<le> 2147483647"
  using sint_lt [of x] by simp

lemma sint_ge_INT_MIN: "-2147483648 \<le> sint (x :: cint)"
  using sint_ge [of x] by simp

lemma sint_eq_iff: "sint (x :: cint) = sint y \<longleftrightarrow> x = y"
  using signed_word_eqI by blast

lemma sint_max_iff: "sint (x :: cint) = 2147483647 \<longleftrightarrow> x = INT_MAX"
  using sint_INT_MAX signed_word_eqI by metis

lemma word_less_succ: "(x :: 'w::len word) + 1 \<noteq> 0 \<Longrightarrow> x < x + 1"
  using unatSuc [of x] by (simp add: word_less_nat_alt add.commute)

lemma size_t_overflow: "(x :: size_t) + 1 = 0 \<Longrightarrow> unat x = 2 ^ 64 - 1"
proof -
  assume "x + 1 = 0"
  then have "x = - 1" by (simp add: eq_neg_iff_add_eq_0)
  then show ?thesis by (simp add: unsigned_minus_1_eq_mask mask_eq_exp_minus_1)
qed

section \<open>Characters and decimal numbers\<close>

text \<open>\<open>std::isspace\<close> in the classic locale: space, tab, line feed, vertical tab, form feed, return.\<close>

definition is_space :: "char \<Rightarrow> bool" where
  "is_space c \<longleftrightarrow> (of_char c :: nat) \<in> {32, 9, 10, 11, 12, 13}"

definition is_digit :: "char \<Rightarrow> bool" where
  "is_digit c \<longleftrightarrow> 48 \<le> (of_char c :: nat) \<and> (of_char c :: nat) \<le> 57"

definition digit_val :: "char \<Rightarrow> nat" where
  "digit_val c = of_char c - 48"

definition digit_char :: "nat \<Rightarrow> char" where
  "digit_char d = char_of (48 + d)"

lemma is_digit_digit_char [simp]: "d < 10 \<Longrightarrow> is_digit (digit_char d)"
  by (simp add: is_digit_def digit_char_def of_char_of)

lemma digit_val_digit_char [simp]: "d < 10 \<Longrightarrow> digit_val (digit_char d) = d"
  by (simp add: digit_val_def digit_char_def of_char_of)

text \<open>\<open>std::toupper\<close> and \<open>std::tolower\<close> in the classic locale.\<close>

definition ascii_upper :: "char \<Rightarrow> char" where
  "ascii_upper c = (let n = of_char c :: nat in if 97 \<le> n \<and> n \<le> 122 then char_of (n - 32) else c)"

definition ascii_lower :: "char \<Rightarrow> char" where
  "ascii_lower c = (let n = of_char c :: nat in if 65 \<le> n \<and> n \<le> 90 then char_of (n + 32) else c)"

text \<open>The decimal digits of a number, as \<open>std::to_string\<close> writes them.\<close>

fun nat_to_string :: "nat \<Rightarrow> string" where
  "nat_to_string n =
     (if n < 10 then [digit_char n] else nat_to_string (n div 10) @ [digit_char (n mod 10)])"

declare nat_to_string.simps [simp del]

definition int_to_string :: "int \<Rightarrow> string" where
  "int_to_string i = (if i < 0 then CHR ''-'' # nat_to_string (nat (- i)) else nat_to_string (nat i))"

definition digits_val :: "string \<Rightarrow> nat" where
  "digits_val ds = foldl (\<lambda>n c. 10 * n + digit_val c) 0 ds"

lemma digits_val_snoc: "digits_val (ds @ [c]) = 10 * digits_val ds + digit_val c"
  by (simp add: digits_val_def)

lemma nat_to_string_nonempty [simp]: "nat_to_string n \<noteq> []"
  by (subst nat_to_string.simps) simp

lemma nat_to_string_digits: "c \<in> set (nat_to_string n) \<Longrightarrow> is_digit c"
proof (induction n rule: nat_to_string.induct)
  case (1 n)
  then show ?case
    by (cases "n < 10") (auto simp: nat_to_string.simps [of n])
qed

lemma digits_val_nat_to_string [simp]: "digits_val (nat_to_string n) = n"
proof (induction n rule: nat_to_string.induct)
  case (1 n)
  show ?case
  proof (cases "n < 10")
    case True
    then show ?thesis by (simp add: nat_to_string.simps [of n] digits_val_def)
  next
    case False
    with 1 show ?thesis by (simp add: nat_to_string.simps [of n] digits_val_snoc)
  qed
qed

lemma nat_to_string_inj: "nat_to_string m = nat_to_string n \<Longrightarrow> m = n"
  by (metis digits_val_nat_to_string)

section \<open>std::stoi and std::stoul\<close>

text \<open>The exceptions of the standard library that the sources can meet, by their class.\<close>

datatype std_exn = invalid_argument | out_of_range | runtime_error string | filesystem_error

type_synonym 'a result = "std_exn + 'a"

text \<open>
  The common scan of \<open>strtol\<close> and \<open>strtoul\<close> in base 10: skip white space, take an optional sign,
  read the longest run of digits and ignore what follows; no digit at all is the error that
  \<open>std::stoi\<close> and \<open>std::stoul\<close> report as \<open>std::invalid_argument\<close>.
\<close>

definition scan_sign :: "string \<Rightarrow> bool \<times> string" where
  "scan_sign s = (case s of [] \<Rightarrow> (False, s)
     | c # cs \<Rightarrow> if c = CHR ''-'' then (True, cs) else if c = CHR ''+'' then (False, cs) else (False, s))"

definition scan_number :: "string \<Rightarrow> (bool \<times> nat) option" where
  "scan_number s =
     (let (neg, rest) = scan_sign (dropWhile is_space s); ds = takeWhile is_digit rest
      in if ds = [] then None else Some (neg, digits_val ds))"

text \<open>\<open>std::stoi\<close>: the value must fit an \<open>int\<close>.\<close>

definition stoi :: "string \<Rightarrow> cint result" where
  "stoi s = (case scan_number s of None \<Rightarrow> Inl invalid_argument
     | Some (neg, m) \<Rightarrow>
         let v = (if neg then - int m else int m)
         in if v < -2147483648 \<or> 2147483647 < v then Inl out_of_range else Inr (of_int v))"

text \<open>
  \<open>std::stoul\<close>: the magnitude must fit an \<open>unsigned long\<close>; a minus sign negates the value in
  unsigned arithmetic, so that \<open>-1\<close> is \<open>ULONG_MAX\<close>.
\<close>

definition stoul :: "string \<Rightarrow> size_t result" where
  "stoul s = (case scan_number s of None \<Rightarrow> Inl invalid_argument
     | Some (neg, m) \<Rightarrow>
         if 18446744073709551615 < m then Inl out_of_range
         else Inr (if neg then - of_nat m else of_nat m))"

lemma is_digit_not_space: "is_digit c \<Longrightarrow> \<not> is_space c"
  by (auto simp: is_digit_def is_space_def)

lemma is_digit_not_sign: "is_digit c \<Longrightarrow> c \<noteq> CHR ''-'' \<and> c \<noteq> CHR ''+''"
  by (auto simp: is_digit_def)

lemma takeWhile_nat_to_string [simp]: "takeWhile is_digit (nat_to_string n) = nat_to_string n"
  by (simp add: takeWhile_eq_all_conv nat_to_string_digits)

lemma nat_to_string_Cons:
  obtains c cs where "nat_to_string n = c # cs" and "is_digit c"
proof (cases "nat_to_string n")
  case (Cons c cs)
  then show thesis using that nat_to_string_digits [of c n] by simp
qed simp

lemma scan_number_nat_to_string [simp]: "scan_number (nat_to_string n) = Some (False, n)"
proof -
  obtain c cs where ns: "nat_to_string n = c # cs" and c: "is_digit c"
    by (rule nat_to_string_Cons)
  have "dropWhile is_space (nat_to_string n) = nat_to_string n"
    using ns is_digit_not_space [OF c] by simp
  moreover have "scan_sign (nat_to_string n) = (False, nat_to_string n)"
    using ns is_digit_not_sign [OF c] by (simp add: scan_sign_def)
  ultimately show ?thesis by (simp add: scan_number_def Let_def)
qed

lemma scan_number_minus [simp]: "scan_number (CHR ''-'' # nat_to_string n) = Some (True, n)"
proof -
  have "\<not> is_space (CHR ''-'')"
    by (simp add: is_space_def)
  then show ?thesis by (simp add: scan_number_def scan_sign_def Let_def)
qed

lemma stoul_nat_to_string: "n < 2 ^ 64 \<Longrightarrow> stoul (nat_to_string n) = Inr (of_nat n)"
  by (simp add: stoul_def)

lemma stoi_int_to_string: "stoi (int_to_string (sint x)) = Inr x"
  using sint_le_INT_MAX [of x] sint_ge_INT_MIN [of x]
  by (auto simp: stoi_def int_to_string_def Let_def)

section \<open>Lists and multisets\<close>

lemma mset_butlast_last: "xs \<noteq> [] \<Longrightarrow> mset xs = add_mset (last xs) (mset (butlast xs))"
  by (metis append_butlast_last_id mset.simps(2) mset_rev rev.simps(2) rev_rev_ident)

lemma last_in_mset: "xs \<noteq> [] \<Longrightarrow> last xs \<in># mset xs"
  by simp

lemma length_eq_of_mset: "mset xs = mset ys \<Longrightarrow> length xs = length ys"
  by (metis size_mset)

lemma set_eq_of_mset: "mset xs = mset ys \<Longrightarrow> set xs = set ys"
  by (rule mset_eq_setD)

end
