(* ===== verification/Http.thy ===== *)
theory Http
  imports Prelude
begin

text \<open>
  Messages and JSON values as the program sees them, and the helpers of include/utils.hpp.
  Boost.Beast and nlohmann::json are not part of the program: what the code calls of them is a
  record of functions, an argument of every definition that uses it, and \<open>beast_laws\<close> and
  \<open>json_laws\<close> state the documented behaviour the properties rely on. The container of header
  fields is a type parameter.
\<close>

section \<open>Messages\<close>

text \<open>The verbs and the status codes the program names, and any other verb.\<close>

datatype verb = Verb_get | Verb_head | Verb_post | Verb_other nat

datatype http_status =
    Ok | Bad_request | Not_found | Payload_too_large | Internal_server_error | Service_unavailable

record 'f request =
  rq_method :: verb
  rq_target :: string
  rq_fields :: 'f
  rq_body :: string

record 'f response =
  rs_result :: http_status
  rs_fields :: 'f
  rs_body :: string

record 'f beast =
  bst_to_string :: "verb \<Rightarrow> string" \<comment> \<open>\<open>http::to_string\<close>\<close>
  bst_no_fields :: 'f \<comment> \<open>the fields of a default-constructed message\<close>
  bst_set :: "string \<Rightarrow> string \<Rightarrow> 'f \<Rightarrow> 'f" \<comment> \<open>\<open>fields::set\<close>\<close>
  bst_find :: "string \<Rightarrow> 'f \<Rightarrow> string option" \<comment> \<open>\<open>fields::find\<close>, and the value of the field\<close>
  bst_prepare_payload :: "http_status \<Rightarrow> string \<Rightarrow> 'f \<Rightarrow> 'f"
    \<comment> \<open>the effect of \<open>message::prepare_payload\<close> on the fields\<close>

text \<open>
  Field names are compared without regard to case; \<open>set\<close> replaces; \<open>prepare_payload\<close> sets
  Content-Length to the size of a string body and touches no field but that and
  Transfer-Encoding. The names of verbs are tokens, so they are not empty and have no space.
\<close>

definition same_name :: "string \<Rightarrow> string \<Rightarrow> bool" where
  "same_name a b \<longleftrightarrow> map ascii_lower a = map ascii_lower b"

definition beast_laws :: "'f beast \<Rightarrow> bool" where
  "beast_laws B \<longleftrightarrow>
     inj (bst_to_string B) \<and> (\<forall>v. bst_to_string B v \<noteq> [] \<and> CHR '' '' \<notin> set (bst_to_string B v)) \<and>
     (\<forall>n. bst_find B n (bst_no_fields B) = None) \<and>
     (\<forall>n m v f. bst_find B n (bst_set B m v f) = (if same_name n m then Some v else bst_find B n f)) \<and>
     (\<forall>st body f. bst_find B ''Content-Length'' (bst_prepare_payload B st body f) =
        Some (nat_to_string (length body))) \<and>
     (\<forall>n st body f. \<not> same_name n ''Content-Length'' \<longrightarrow> \<not> same_name n ''Transfer-Encoding'' \<longrightarrow>
        bst_find B n (bst_prepare_payload B st body f) = bst_find B n f)"

lemma beast_lawsD:
  assumes "beast_laws B"
  shows "bst_to_string B v = bst_to_string B w \<longleftrightarrow> v = w"
    and "bst_to_string B v \<noteq> []"
    and "CHR '' '' \<notin> set (bst_to_string B v)"
    and "bst_find B n (bst_no_fields B) = None"
    and "bst_find B n (bst_set B m x f) = (if same_name n m then Some x else bst_find B n f)"
    and "bst_find B ''Content-Length'' (bst_prepare_payload B st body f) = Some (nat_to_string (length body))"
    and "\<not> same_name n ''Content-Length'' \<Longrightarrow> \<not> same_name n ''Transfer-Encoding'' \<Longrightarrow>
      bst_find B n (bst_prepare_payload B st body f) = bst_find B n f"
  using assms by (auto simp: beast_laws_def inj_def)

definition Response_new :: "'f beast \<Rightarrow> 'f response" where
  "Response_new B = \<lparr>rs_result = Ok, rs_fields = bst_no_fields B, rs_body = []\<rparr>"

definition prepare_payload :: "'f beast \<Rightarrow> 'f response \<Rightarrow> 'f response" where
  "prepare_payload B res = res\<lparr>rs_fields := bst_prepare_payload B (rs_result res) (rs_body res) (rs_fields res)\<rparr>"

definition response_field :: "'f beast \<Rightarrow> string \<Rightarrow> 'f response \<Rightarrow> string option" where
  "response_field B n res = bst_find B n (rs_fields res)"

section \<open>JSON values\<close>

text \<open>
  The values of \<open>nlohmann::json\<close>; an object is looked up by key, a number that is not an integer
  is kept as its text.
\<close>

datatype json =
    Json_null | Json_bool bool | Json_int int | Json_float string | Json_string string
  | Json_array "json list" | Json_object "(string \<times> json) list"

fun is_array :: "json \<Rightarrow> bool" where
  "is_array (Json_array js) = True"
| "is_array _ = False"

fun is_string :: "json \<Rightarrow> bool" where
  "is_string (Json_string s) = True"
| "is_string _ = False"

fun is_number :: "json \<Rightarrow> bool" where
  "is_number (Json_int n) = True"
| "is_number (Json_float s) = True"
| "is_number _ = False"

text \<open>\<open>json.contains(key)\<close> and \<open>json[key]\<close> together.\<close>

fun json_lookup :: "string \<Rightarrow> json \<Rightarrow> json option" where
  "json_lookup key (Json_object kvs) = map_of kvs key"
| "json_lookup key _ = None"

text \<open>
  What \<open>stream >> json\<close> does: a value, a \<open>parse_error\<close>, or another exception of the library, as the
  \<open>out_of_range\<close> for a number that no \<open>double\<close> can hold.
\<close>

datatype json_read = Read_json json | Read_parse_error | Read_exception

text \<open>The functions of the library the code calls; \<^const>\<open>None\<close> is an exception.\<close>

record json_lib =
  jl_parse :: "string \<Rightarrow> json option"
  jl_dump :: "json \<Rightarrow> string option"
  jl_dump_what :: "json \<Rightarrow> string" \<comment> \<open>\<open>what()\<close> of the exception when \<open>dump\<close> throws\<close>
  jl_dump_pretty :: "json \<Rightarrow> string option" \<comment> \<open>\<open>dump(4)\<close>\<close>
  jl_read_stream :: "string \<Rightarrow> json_read" \<comment> \<open>what follows the value is ignored\<close>
  jl_get_ushort :: "json \<Rightarrow> ushort option"
  jl_get_uint :: "json \<Rightarrow> uint option"
  jl_get_size_t :: "json \<Rightarrow> size_t option"
  jl_get_long_long :: "json \<Rightarrow> 64 word option"
  jl_get_bool :: "json \<Rightarrow> bool option"
  jl_get_string :: "json \<Rightarrow> string option"
  jl_get_int_vector :: "json \<Rightarrow> cint list option"

text \<open>
  A value can be dumped when its strings are valid UTF-8, and then it is parsed back as the same
  value, up to the order of the keys of an object; the integers are those of 64 bits. An integer
  is converted to an integral type by \<open>static_cast\<close>; a value of another type is a
  \<open>type_error\<close>.
\<close>

definition ascii_string :: "string \<Rightarrow> bool" where
  "ascii_string s \<longleftrightarrow> (\<forall>c \<in> set s. of_char c < (128 :: nat))"

definition json_int_range :: "int \<Rightarrow> bool" where
  "json_int_range n \<longleftrightarrow> - (2 ^ 63) \<le> n \<and> n < 2 ^ 64"

fun ascii_scalar :: "json \<Rightarrow> bool" where
  "ascii_scalar (Json_string s) = ascii_string s"
| "ascii_scalar (Json_int n) = json_int_range n"
| "ascii_scalar (Json_bool b) = True"
| "ascii_scalar _ = False"

fun ascii_json :: "json \<Rightarrow> bool" where
  "ascii_json (Json_array js) = list_all ascii_json js"
| "ascii_json (Json_object kvs) = list_all (\<lambda>(k, j). ascii_string k \<and> ascii_json j) kvs"
| "ascii_json (Json_string s) = ascii_string s"
| "ascii_json (Json_int n) = json_int_range n"
| "ascii_json _ = True"

definition json_laws :: "json_lib \<Rightarrow> bool" where
  "json_laws J \<longleftrightarrow>
     (\<forall>j. ascii_json j \<longrightarrow> jl_dump J j \<noteq> None) \<and>
     (\<forall>kvs s. distinct (map fst kvs) \<longrightarrow> list_all (\<lambda>(k, j). ascii_string k \<and> ascii_scalar j) kvs \<longrightarrow>
        jl_dump J (Json_object kvs) = Some s \<longrightarrow>
        (\<exists>kvs'. jl_parse J s = Some (Json_object kvs') \<and> map_of kvs' = map_of kvs)) \<and>
     (\<forall>kvs. distinct (map fst kvs) \<longrightarrow> list_all (\<lambda>(k, j). ascii_string k \<and> ascii_scalar j) kvs \<longrightarrow>
        (\<exists>s kvs'. jl_dump_pretty J (Json_object kvs) = Some s \<and>
           jl_read_stream J (s @ [CHR 0x0A]) = Read_json (Json_object kvs') \<and> map_of kvs' = map_of kvs)) \<and>
     (\<forall>n. json_int_range n \<longrightarrow>
        jl_get_ushort J (Json_int n) = Some (of_int n) \<and> jl_get_uint J (Json_int n) = Some (of_int n) \<and>
        jl_get_size_t J (Json_int n) = Some (of_int n) \<and>
        jl_get_long_long J (Json_int n) = Some (of_int n)) \<and>
     (\<forall>b. jl_get_bool J (Json_bool b) = Some b) \<and> (\<forall>s. jl_get_string J (Json_string s) = Some s) \<and>
     (\<forall>s. jl_get_ushort J (Json_string s) = None \<and> jl_get_uint J (Json_string s) = None \<and>
        jl_get_size_t J (Json_string s) = None) \<and>
     (\<forall>ns. list_all json_int_range ns \<longrightarrow>
        jl_get_int_vector J (Json_array (map Json_int ns)) = Some (map of_int ns)) \<and>
     (\<forall>s js. Json_string s \<in> set js \<longrightarrow> jl_get_int_vector J (Json_array js) = None)"

section \<open>The helpers\<close>

definition makeResponse ::
  "'f beast \<Rightarrow> 'f response \<Rightarrow> http_status \<Rightarrow> string \<Rightarrow> string \<Rightarrow> 'f response" where
  "makeResponse B res status body content_type =
     prepare_payload B (res\<lparr>rs_result := status, rs_body := body,
       rs_fields := bst_set B ''Content-Type'' content_type (rs_fields res)\<rparr>)"

definition sendNotFound :: "'f beast \<Rightarrow> 'f response \<Rightarrow> 'f response" where
  "sendNotFound B res = makeResponse B res Not_found ''404 Not Found'' ''text/plain''"

text \<open>\<open>dump\<close> may throw, and then the helpers do.\<close>

definition makeJsonSuccess ::
  "'f beast \<Rightarrow> json_lib \<Rightarrow> 'f response \<Rightarrow> json \<Rightarrow> http_status \<Rightarrow> 'f response option" where
  "makeJsonSuccess B J res data status =
     (let response = Json_object [(''status'', Json_string ''ok''), (''data'', data)]
      in map_option (\<lambda>body. makeResponse B res status body ''application/json'') (jl_dump J response))"

definition makeJsonError ::
  "'f beast \<Rightarrow> json_lib \<Rightarrow> 'f response \<Rightarrow> string \<Rightarrow> http_status \<Rightarrow> 'f response option" where
  "makeJsonError B J res message status =
     (let response = Json_object [(''status'', Json_string ''error''), (''message'', Json_string message)]
      in map_option (\<lambda>body. makeResponse B res status body ''application/json'') (jl_dump J response))"

lemma makeResponse_simps [simp]:
  "rs_result (makeResponse B res st body ct) = st"
  "rs_body (makeResponse B res st body ct) = body"
  by (simp_all add: makeResponse_def prepare_payload_def)

lemma prepare_payload_simps [simp]:
  "rs_result (prepare_payload B res) = rs_result res" "rs_body (prepare_payload B res) = rs_body res"
  by (simp_all add: prepare_payload_def)

lemma makeResponse_fields:
  assumes "beast_laws B"
  shows "response_field B ''Content-Length'' (makeResponse B res st body ct) = Some (nat_to_string (length body))"
    and "response_field B ''Content-Type'' (makeResponse B res st body ct) = Some ct"
  using beast_lawsD [OF assms]
  by (simp_all add: response_field_def makeResponse_def prepare_payload_def same_name_def ascii_lower_def)

lemma prepare_payload_fields:
  assumes "beast_laws B"
  shows "response_field B ''Content-Length'' (prepare_payload B res) = Some (nat_to_string (length (rs_body res)))"
    and "response_field B ''Content-Type'' (prepare_payload B res) = response_field B ''Content-Type'' res"
  using beast_lawsD [OF assms]
  by (simp_all add: response_field_def prepare_payload_def same_name_def ascii_lower_def)

section \<open>A model of the two libraries\<close>

text \<open>
  Concrete functions that satisfy the laws, for the examples: fields as an association list,
  verbs by number, and JSON texts as the constructors written out.
\<close>

definition example_verb :: "verb \<Rightarrow> string" where
  "example_verb v = (case v of Verb_get \<Rightarrow> ''GET'' | Verb_head \<Rightarrow> ''HEAD'' | Verb_post \<Rightarrow> ''POST''
     | Verb_other n \<Rightarrow> ''X'' @ nat_to_string n)"

definition example_set :: "string \<Rightarrow> string \<Rightarrow> (string \<times> string) list \<Rightarrow> (string \<times> string) list" where
  "example_set n v f = (map ascii_lower n, v) # f"

definition example_beast :: "(string \<times> string) list beast" where
  "example_beast = \<lparr>bst_to_string = example_verb, bst_no_fields = [], bst_set = example_set,
     bst_find = (\<lambda>n f. map_of f (map ascii_lower n)),
     bst_prepare_payload = (\<lambda>st body. example_set ''Content-Length'' (nat_to_string (length body)))\<rparr>"

lemma digits_no_space: "CHR '' '' \<notin> set (nat_to_string n)"
proof
  assume "CHR '' '' \<in> set (nat_to_string n)"
  then have "is_digit (CHR '' '')" by (rule nat_to_string_digits)
  then show False by (simp add: is_digit_def)
qed

lemma example_beast_laws: "beast_laws example_beast"
proof -
  have "inj example_verb"
    by (auto simp: inj_def example_verb_def nat_to_string_inj split: verb.splits)
  moreover have "example_verb v \<noteq> [] \<and> CHR '' '' \<notin> set (example_verb v)" for v
    using digits_no_space by (auto simp: example_verb_def split: verb.splits)
  ultimately show ?thesis
    by (auto simp: beast_laws_def example_beast_def example_set_def same_name_def)
qed

end
