(* ===== verification/Router.thy ===== *)
theory Router
  imports Http "HOL-Library.Sublist" "HOL-Library.AList"
begin

text \<open>
  \<open>RouterTable\<close> and \<open>Router\<close> of src/router.cpp. The \<open>std::unordered_map\<close> is an association list
  with one entry per key, in the order in which the loop of \<open>findPrefixHandler\<close> meets the
  entries: the properties hold for every such order. Handlers are of any type, with the function
  that handles a request; \<^const>\<open>None\<close> is an exception of the handler.
\<close>

section \<open>The table\<close>

type_synonym 'h routes = "(string \<times> 'h) list"

definition makeKey :: "'f beast \<Rightarrow> verb \<Rightarrow> string \<Rightarrow> string" where
  "makeKey B m path = bst_to_string B m @ '' '' @ path"

definition RouterTable_addRoute :: "'f beast \<Rightarrow> verb \<Rightarrow> string \<Rightarrow> 'h \<Rightarrow> 'h routes \<Rightarrow> 'h routes" where
  "RouterTable_addRoute B m path handler routes = AList.update (makeKey B m path) handler routes"

definition RouterTable_findHandler :: "'f beast \<Rightarrow> verb \<Rightarrow> string \<Rightarrow> 'h routes \<Rightarrow> 'h option" where
  "RouterTable_findHandler B m path routes = map_of routes (makeKey B m path)"

text \<open>The loop of \<open>findPrefixHandler\<close>: the best handler so far and the length of its key.\<close>

fun find_prefix :: "string \<Rightarrow> 'h option \<times> nat \<Rightarrow> 'h routes \<Rightarrow> 'h option \<times> nat" where
  "find_prefix fullPath best [] = best"
| "find_prefix fullPath (best, bestLength) ((key, handler) # routes) =
     find_prefix fullPath
       (if prefix key fullPath \<and> length key > bestLength then (Some handler, length key)
        else (best, bestLength)) routes"

definition RouterTable_findPrefixHandler :: "'f beast \<Rightarrow> verb \<Rightarrow> string \<Rightarrow> 'h routes \<Rightarrow> 'h option" where
  "RouterTable_findPrefixHandler B m path routes = fst (find_prefix (makeKey B m path) (None, 0) routes)"

definition Router_find :: "'f beast \<Rightarrow> verb \<Rightarrow> string \<Rightarrow> 'h routes \<Rightarrow> 'h option" where
  "Router_find B m path routes =
     (case RouterTable_findHandler B m path routes of
        Some h \<Rightarrow> Some h
      | None \<Rightarrow> RouterTable_findPrefixHandler B m path routes)"

text \<open>The result of \<open>route\<close> is whether a handler was found; the response is passed through it.\<close>

definition Router_route :: "'f beast \<Rightarrow> ('h \<Rightarrow> 'f request \<Rightarrow> 'f response \<Rightarrow> 'f response option) \<Rightarrow>
    'h routes \<Rightarrow> 'f request \<Rightarrow> 'f response \<Rightarrow> (bool \<times> 'f response) option" where
  "Router_route B handle routes req res =
     (case Router_find B (rq_method req) (rq_target req) routes of
        None \<Rightarrow> Some (False, res)
      | Some h \<Rightarrow> map_option (Pair True) (handle h req res))"

section \<open>The longest matching key\<close>

lemma find_prefix_bound:
  "find_prefix full (best, n) routes = (h, k) \<Longrightarrow> n \<le> k"
  "find_prefix full (best, n) routes = (h, k) \<Longrightarrow> (key, g) \<in> set routes \<Longrightarrow> prefix key full \<Longrightarrow>
    length key \<le> k"
proof (induction routes arbitrary: best n)
  case (Cons r routes)
  obtain key' g' where r: "r = (key', g')" by force
  {
    case 1
    then show ?case using Cons.IH(1) r by (force split: if_splits)
  next
    case 2
    then show ?case using Cons.IH r by (force split: if_splits)
  }
qed simp_all

lemma find_prefix_kept:
  "find_prefix full (best, n) routes = (h, k) \<Longrightarrow> \<not> n < k \<Longrightarrow> h = best"
proof (induction routes arbitrary: best n)
  case (Cons r routes)
  obtain key' g' where r: "r = (key', g')" by force
  show ?case
  proof (cases "prefix key' full \<and> length key' > n")
    case True
    then have "find_prefix full (Some g', length key') routes = (h, k)" using Cons.prems r by simp
    then have "length key' \<le> k" by (rule find_prefix_bound(1))
    then show ?thesis using True Cons.prems(2) by simp
  next
    case False
    then show ?thesis using Cons.IH [of best n] Cons.prems r by auto
  qed
qed simp

lemma find_prefix_found:
  "find_prefix full (best, n) routes = (h, k) \<Longrightarrow> n < k \<Longrightarrow>
    \<exists>key g. (key, g) \<in> set routes \<and> prefix key full \<and> h = Some g \<and> k = length key"
proof (induction routes arbitrary: best n)
  case (Cons r routes)
  obtain key' g' where r: "r = (key', g')" by force
  show ?case
  proof (cases "prefix key' full \<and> length key' > n")
    case True
    then have run: "find_prefix full (Some g', length key') routes = (h, k)" using Cons.prems r by simp
    show ?thesis
    proof (cases "length key' < k")
      case True
      then show ?thesis using Cons.IH [OF run True] by auto
    next
      case same: False
      then have "k = length key'" using find_prefix_bound(1) [OF run] by simp
      moreover have "h = Some g'"
        using run same by (rule find_prefix_kept)
      ultimately show ?thesis using r True by auto
    qed
  next
    case False
    then have "find_prefix full (best, n) routes = (h, k)" using Cons.prems r by auto
    from Cons.IH [OF this Cons.prems(2)] obtain key g where
      "(key, g) \<in> set routes" "prefix key full" "h = Some g" "k = length key" by blast
    then show ?thesis by (intro exI [of _ key] exI [of _ g]) simp
  qed
qed simp

lemma makeKey_nonempty: "makeKey B m path \<noteq> []"
  by (simp add: makeKey_def)

lemma makeKey_prefix:
  assumes "beast_laws B"
  shows "prefix (makeKey B m p) (makeKey B m' p') \<longleftrightarrow> m = m' \<and> prefix p p'"
proof
  assume "prefix (makeKey B m p) (makeKey B m' p')"
  then obtain zs where "bst_to_string B m' @ '' '' @ p' = bst_to_string B m @ '' '' @ p @ zs"
    by (auto simp: makeKey_def prefix_def)
  then have eq: "bst_to_string B m' @ CHR '' '' # p' = bst_to_string B m @ CHR '' '' # p @ zs" by simp
  have "takeWhile (\<lambda>c. c \<noteq> CHR '' '') (bst_to_string B v @ CHR '' '' # q) = bst_to_string B v" for v q
    using beast_lawsD(3) [OF assms, of v] by (subst takeWhile_append2) auto
  then have "bst_to_string B m' = bst_to_string B m" using eq by metis
  then show "m = m' \<and> prefix p p'"
    using eq beast_lawsD(1) [OF assms] by (auto simp: prefix_def)
qed (auto simp: makeKey_def)

lemma makeKey_inject: "beast_laws B \<Longrightarrow> makeKey B m p = makeKey B m' p' \<longleftrightarrow> m = m' \<and> p = p'"
  by (metis makeKey_prefix prefix_order.eq_iff)

definition Router_addRoute :: "'f beast \<Rightarrow> verb \<Rightarrow> string \<Rightarrow> 'h \<Rightarrow> 'h routes \<Rightarrow> 'h routes" where
  "Router_addRoute B method path handler table = RouterTable_addRoute B method path handler table"

text \<open>A table as it is built: the registrations in the order they were made.\<close>

definition build_routes :: "'f beast \<Rightarrow> (verb \<times> string \<times> 'h) list \<Rightarrow> 'h routes" where
  "build_routes B regs = foldl (\<lambda>t (m, p, h). Router_addRoute B m p h t) [] regs"

definition registered :: "(verb \<times> string \<times> 'h) list \<Rightarrow> verb \<Rightarrow> string \<Rightarrow> 'h option" where
  "registered regs m p = map_of (map (\<lambda>(m, p, h). ((m, p), h)) (rev regs)) (m, p)"

lemma build_routes_snoc:
  "build_routes B (regs @ [(m, p, h)]) = RouterTable_addRoute B m p h (build_routes B regs)"
  by (simp add: build_routes_def Router_addRoute_def)

lemma registered_snoc:
  "registered (regs @ [(m, p, h)]) m' p' = (if m = m' \<and> p = p' then Some h else registered regs m' p')"
  by (simp add: registered_def)

lemma build_routes_distinct: "distinct (map fst (build_routes B regs))"
proof (induction regs rule: rev_induct)
  case (snoc r regs)
  then show ?case
    by (cases r) (simp add: build_routes_snoc RouterTable_addRoute_def distinct_update)
qed (simp add: build_routes_def)

lemma build_routes_lookup:
  assumes "beast_laws B"
  shows "map_of (build_routes B regs) (makeKey B m p) = registered regs m p"
proof (induction regs rule: rev_induct)
  case (snoc r regs)
  obtain m' p' h where "r = (m', p', h)" by (metis prod_cases3)
  then show ?case
    using snoc makeKey_inject [OF assms]
    by (auto simp: build_routes_snoc registered_snoc RouterTable_addRoute_def update_conv)
qed (simp add: build_routes_def registered_def)

lemma build_routes_keys: "key \<in> fst ` set (build_routes B regs) \<Longrightarrow> \<exists>m p. key = makeKey B m p"
proof (induction regs rule: rev_induct)
  case (snoc r regs)
  obtain m' p' h where "r = (m', p', h)" by (metis prod_cases3)
  then show ?case
    using snoc by (auto simp: build_routes_snoc RouterTable_addRoute_def dom_update)
qed (simp add: build_routes_def)

text \<open>The registration a request is routed to: the longest registered prefix for its method.\<close>

definition best_route :: "(verb \<times> string \<times> 'h) list \<Rightarrow> verb \<Rightarrow> string \<Rightarrow> string \<Rightarrow> bool" where
  "best_route regs m path p \<longleftrightarrow> registered regs m p \<noteq> None \<and> prefix p path \<and>
     (\<forall>p'. registered regs m p' \<noteq> None \<longrightarrow> prefix p' path \<longrightarrow> length p' \<le> length p)"

lemma best_route_unique: "best_route regs m path p \<Longrightarrow> best_route regs m path q \<Longrightarrow> p = q"
  unfolding best_route_def
  by (metis le_antisym prefix_length_prefix prefix_order.antisym order_refl)

lemma routes_entry:
  assumes "beast_laws B" and "mset routes = mset (build_routes B regs)"
  shows "(key, g) \<in> set routes \<longleftrightarrow> (\<exists>m p. key = makeKey B m p \<and> registered regs m p = Some g)"
proof -
  have "(key, g) \<in> set routes \<longleftrightarrow> map_of (build_routes B regs) key = Some g"
    using set_eq_of_mset [OF assms(2)] build_routes_distinct [of B regs] by simp
  also have "\<dots> \<longleftrightarrow> (\<exists>m p. key = makeKey B m p \<and> registered regs m p = Some g)"
    using build_routes_keys [of key B regs] build_routes_lookup [OF assms(1), of regs]
    by (metis image_eqI fst_conv map_of_SomeD)
  finally show ?thesis .
qed

lemma findPrefixHandler_best:
  assumes "beast_laws B" and "mset routes = mset (build_routes B regs)"
  shows "RouterTable_findPrefixHandler B m path routes = Some h \<longleftrightarrow>
    (\<exists>p. best_route regs m path p \<and> registered regs m p = Some h)"
proof -
  note entry = routes_entry [OF assms]
  obtain r k where run: "find_prefix (makeKey B m path) (None, 0) routes = (r, k)" by force
  have r: "RouterTable_findPrefixHandler B m path routes = r"
    using run by (simp add: RouterTable_findPrefixHandler_def)
  have longest: "length (makeKey B m p) \<le> k" if p: "registered regs m p \<noteq> None" "prefix p path" for p
  proof -
    obtain g where "(makeKey B m p, g) \<in> set routes" using p(1) entry by auto
    then show ?thesis
      using find_prefix_bound(2) [OF run] p(2) makeKey_prefix [OF assms(1)] by blast
  qed
  show ?thesis
  proof (cases "0 < k")
    case False
    then have "\<not> best_route regs m path p" for p
      using longest [of p] makeKey_nonempty [of B m p] by (auto simp: best_route_def)
    moreover have "r = None" using find_prefix_kept [OF run] False by simp
    ultimately show ?thesis using r by simp
  next
    case True
    then obtain key g where found: "(key, g) \<in> set routes" "prefix key (makeKey B m path)" "r = Some g"
        "k = length key"
      using find_prefix_found [OF run] by blast
    then obtain p where p: "key = makeKey B m p" "registered regs m p = Some g" "prefix p path"
      using entry makeKey_prefix [OF assms(1)] by metis
    have best: "best_route regs m path p"
      using p longest found(4) by (fastforce simp: best_route_def makeKey_def)
    show ?thesis
    proof
      assume "RouterTable_findPrefixHandler B m path routes = Some h"
      then show "\<exists>p. best_route regs m path p \<and> registered regs m p = Some h"
        using best p(2) r found(3) by auto
    next
      assume "\<exists>p. best_route regs m path p \<and> registered regs m p = Some h"
      then show "RouterTable_findPrefixHandler B m path routes = Some h"
        using best_route_unique [OF best] p(2) r found(3) by auto
    qed
  qed
qed

lemma best_route_exists:
  assumes "registered regs m p \<noteq> None" and "prefix p path"
  shows "\<exists>q. best_route regs m path q"
proof -
  let ?P = "\<lambda>q. registered regs m q \<noteq> None \<and> prefix q path"
  have "\<forall>q. ?P q \<longrightarrow> length q \<le> length path" by (simp add: prefix_length_le)
  then have "\<forall>q. ?P q \<longrightarrow> length q < Suc (length path)" by (simp add: less_Suc_eq_le)
  then obtain q where "?P q" "\<forall>q'. ?P q' \<longrightarrow> length q' \<le> length q"
    using ex_has_greatest_nat [of ?P p length "Suc (length path)"] assms by blast
  then show ?thesis by (auto simp: best_route_def)
qed

section \<open>Routing\<close>

lemma findHandler_registered:
  assumes "beast_laws B" and "mset routes = mset (build_routes B regs)"
  shows "RouterTable_findHandler B m path routes = registered regs m path"
proof -
  have "distinct (map fst routes)"
    using build_routes_distinct [of B regs] mset_eq_imp_distinct_iff [of "map fst routes" "map fst (build_routes B regs)"]
      assms(2) by (simp add: mset_map)
  then have "map_of routes = map_of (build_routes B regs)"
    using build_routes_distinct [of B regs] set_eq_of_mset [OF assms(2)] map_of_inject_set by blast
  then show ?thesis
    using build_routes_lookup [OF assms(1)] by (simp add: RouterTable_findHandler_def)
qed

text \<open>An exact registration is the longest prefix there can be.\<close>

lemma exact_is_best: "registered regs m path = Some h \<Longrightarrow> best_route regs m path path"
  by (auto simp: best_route_def prefix_length_le)

lemma Router_find_best:
  assumes "beast_laws B" and "mset routes = mset (build_routes B regs)"
  shows "Router_find B m path routes = Some h \<longleftrightarrow>
    (\<exists>p. best_route regs m path p \<and> registered regs m p = Some h)"
proof (cases "registered regs m path")
  case None
  then show ?thesis
    using findPrefixHandler_best [OF assms] by (simp add: Router_find_def findHandler_registered [OF assms])
next
  case (Some g)
  then show ?thesis
    using exact_is_best [OF Some] best_route_unique [OF exact_is_best [OF Some]]
    by (simp add: Router_find_def findHandler_registered [OF assms]) (metis Some option.inject)
qed

text \<open>
  C27. The router sends a request to the handler registered for its method under the longest prefix
  of its target, the last one registered if there are several for the same path, whatever order
  the hash map iterates in; and it finds none exactly if no path registered for that method is a
  prefix of the target.
\<close>

theorem Router_route_longest:
  assumes "beast_laws B" and "mset routes = mset (build_routes B regs)"
  shows "(\<forall>p h. best_route regs (rq_method req) (rq_target req) p \<longrightarrow>
        registered regs (rq_method req) p = Some h \<longrightarrow>
        Router_route B handle routes req res = map_option (Pair True) (handle h req res)) \<and>
    (Router_route B handle routes req res = Some (False, res) \<longleftrightarrow>
      (\<forall>p. prefix p (rq_target req) \<longrightarrow> registered regs (rq_method req) p = None))"
proof (intro conjI allI impI)
  fix p h
  assume "best_route regs (rq_method req) (rq_target req) p" "registered regs (rq_method req) p = Some h"
  then have "Router_find B (rq_method req) (rq_target req) routes = Some h"
    using Router_find_best [OF assms] by blast
  then show "Router_route B handle routes req res = map_option (Pair True) (handle h req res)"
    by (simp add: Router_route_def)
next
  let ?m = "rq_method req" and ?t = "rq_target req"
  have "Router_route B handle routes req res = Some (False, res) \<longleftrightarrow> Router_find B ?m ?t routes = None"
    by (auto simp: Router_route_def split: option.splits)
  also have "\<dots> \<longleftrightarrow> \<not> (\<exists>p. best_route regs ?m ?t p)"
    using Router_find_best [OF assms, of ?m ?t]
    by (metis best_route_def not_None_eq option.exhaust)
  also have "\<dots> \<longleftrightarrow> (\<forall>p. prefix p ?t \<longrightarrow> registered regs ?m p = None)"
    using best_route_exists [of regs ?m _ ?t] best_route_def [of regs ?m ?t] by blast
  finally show "Router_route B handle routes req res = Some (False, res) \<longleftrightarrow>
      (\<forall>p. prefix p ?t \<longrightarrow> registered regs ?m p = None)" .
qed

definition example_regs :: "(verb \<times> string \<times> nat) list" where
  "example_regs = [(Verb_get, ''/a'', 1), (Verb_get, ''/a/b'', 2), (Verb_head, ''/a/b/c'', 3), (Verb_get, ''/a'', 4)]"

lemma Router_route_longest_witness:
  "Router_route example_beast (\<lambda>h req res. Some (res\<lparr>rs_body := nat_to_string h\<rparr>))
     (build_routes example_beast example_regs)
     \<lparr>rq_method = Verb_get, rq_target = ''/a/b/c'', rq_fields = [], rq_body = []\<rparr>
     (Response_new example_beast) =
   Some (True, (Response_new example_beast)\<lparr>rs_body := ''2''\<rparr>)"
proof -
  have "best_route example_regs Verb_get ''/a/b/c'' ''/a/b''"
    by (auto simp: best_route_def example_regs_def registered_def prefix_def split: if_splits)
  moreover have "registered example_regs Verb_get ''/a/b'' = Some 2"
    by (simp add: example_regs_def registered_def)
  moreover have "nat_to_string 2 = ''2''" by code_simp
  ultimately show ?thesis
    using Router_route_longest [OF example_beast_laws refl, of example_regs
        "\<lparr>rq_method = Verb_get, rq_target = ''/a/b/c'', rq_fields = [], rq_body = []\<rparr>"] by simp
qed

text \<open>
  The exact lookup is only a short cut: a registration for the whole target is the longest
  prefix there can be, so \<open>route\<close> finds the same handler as the prefix search alone. In
  particular every path registered for exact use also serves all its extensions.
\<close>

theorem Router_exact_is_shortcut:
  assumes "beast_laws B" and "mset routes = mset (build_routes B regs)"
  shows "Router_find B m path routes = RouterTable_findPrefixHandler B m path routes"
proof -
  have "Router_find B m path routes = Some h \<longleftrightarrow> RouterTable_findPrefixHandler B m path routes = Some h" for h
    using Router_find_best [OF assms] findPrefixHandler_best [OF assms] by metis
  then show ?thesis by (metis not_None_eq)
qed

lemma Router_exact_is_shortcut_witness:
  "Router_find example_beast Verb_get ''/a/b'' (build_routes example_beast example_regs) =
   RouterTable_findPrefixHandler example_beast Verb_get ''/a/b'' (build_routes example_beast example_regs)"
  by (rule Router_exact_is_shortcut [OF example_beast_laws refl])

end
