(* ===== verification/Json_Text.thy ===== *)
theory Json_Text
  imports Http
begin

text \<open>
  A printer and a reader of compact JSON texts, and the conversions of values: concrete functions
  for the JSON library, shown to satisfy \<^const>\<open>json_laws\<close>. The examples of the development run
  on them; the properties hold for every library with those laws.
\<close>

section \<open>Printing\<close>

fun escape_char :: "char \<Rightarrow> string" where
  "escape_char c = (if c = CHR 0x22 \<or> c = CHR 0x5C then [CHR 0x5C, c] else [c])"

definition quote_string :: "string \<Rightarrow> string" where
  "quote_string s = [CHR 0x22] @ concat (map escape_char s) @ [CHR 0x22]"

fun comma_separated :: "string list \<Rightarrow> string" where
  "comma_separated [] = []"
| "comma_separated [x] = x"
| "comma_separated (x # xs) = x @ '','' @ comma_separated xs"

fun print_json :: "json \<Rightarrow> string" where
  "print_json Json_null = ''null''"
| "print_json (Json_bool b) = (if b then ''true'' else ''false'')"
| "print_json (Json_int n) = int_to_string n"
| "print_json (Json_float s) = s"
| "print_json (Json_string s) = quote_string s"
| "print_json (Json_array js) = ''['' @ comma_separated (map print_json js) @ '']''"
| "print_json (Json_object kvs) =
     ''{'' @ comma_separated (map (\<lambda>(k, j). quote_string k @ '':'' @ print_json j) kvs) @ ''}''"

section \<open>Reading\<close>

fun read_string :: "string \<Rightarrow> (string \<times> string) option" where
  "read_string [] = None"
| "read_string (c # cs) =
     (if c = CHR 0x22 then Some ([], cs)
      else if c = CHR 0x5C then (case cs of [] \<Rightarrow> None
        | d # ds \<Rightarrow> map_option (\<lambda>(s, r). (d # s, r)) (read_string ds))
      else map_option (\<lambda>(s, r). (c # s, r)) (read_string cs))"

fun strip_prefix :: "string \<Rightarrow> string \<Rightarrow> string option" where
  "strip_prefix [] s = Some s"
| "strip_prefix (c # cs) [] = None"
| "strip_prefix (c # cs) (d # ds) = (if c = d then strip_prefix cs ds else None)"

definition read_nat :: "string \<Rightarrow> (nat \<times> string) option" where
  "read_nat s = (let ds = takeWhile is_digit s
     in if ds = [] then None else Some (digits_val ds, dropWhile is_digit s))"

fun read_int :: "string \<Rightarrow> (int \<times> string) option" where
  "read_int [] = None"
| "read_int (c # cs) =
     (if c = CHR ''-'' then map_option (\<lambda>(n, r). (- int n, r)) (read_nat cs)
      else map_option (\<lambda>(n, r). (int n, r)) (read_nat (c # cs)))"

fun read_scalar :: "string \<Rightarrow> (json \<times> string) option" where
  "read_scalar s =
     (case strip_prefix [CHR 0x22] s of Some r \<Rightarrow> map_option (\<lambda>(t, r). (Json_string t, r)) (read_string r)
      | None \<Rightarrow> (case strip_prefix ''true'' s of Some r \<Rightarrow> Some (Json_bool True, r)
      | None \<Rightarrow> (case strip_prefix ''false'' s of Some r \<Rightarrow> Some (Json_bool False, r)
      | None \<Rightarrow> (case strip_prefix ''null'' s of Some r \<Rightarrow> Some (Json_null, r)
      | None \<Rightarrow> map_option (\<lambda>(n, r). (Json_int n, r)) (read_int s)))))"

text \<open>The first argument bounds the number of values; the length of the text is enough.\<close>

fun read_value :: "nat \<Rightarrow> string \<Rightarrow> (json \<times> string) option"
  and read_items :: "nat \<Rightarrow> string \<Rightarrow> (json list \<times> string) option"
  and read_members :: "nat \<Rightarrow> string \<Rightarrow> ((string \<times> json) list \<times> string) option" where
  "read_value 0 s = None"
| "read_value (Suc n) s =
     (case strip_prefix ''[]'' s of Some r \<Rightarrow> Some (Json_array [], r)
      | None \<Rightarrow> (case strip_prefix ''{}'' s of Some r \<Rightarrow> Some (Json_object [], r)
      | None \<Rightarrow> (case strip_prefix ''['' s of Some r \<Rightarrow> map_option (\<lambda>(js, r). (Json_array js, r)) (read_items n r)
      | None \<Rightarrow> (case strip_prefix ''{'' s of Some r \<Rightarrow> map_option (\<lambda>(kvs, r). (Json_object kvs, r)) (read_members n r)
      | None \<Rightarrow> read_scalar s))))"
| "read_items 0 s = None"
| "read_items (Suc n) s =
     (case read_value n s of None \<Rightarrow> None
      | Some (j, r) \<Rightarrow> (case strip_prefix '','' r of
           Some r' \<Rightarrow> map_option (\<lambda>(js, r). (j # js, r)) (read_items n r')
         | None \<Rightarrow> map_option (Pair [j]) (strip_prefix '']'' r)))"
| "read_members 0 s = None"
| "read_members (Suc n) s =
     (case strip_prefix [CHR 0x22] s of None \<Rightarrow> None
      | Some r0 \<Rightarrow> (case read_string r0 of None \<Rightarrow> None
      | Some (k, r1) \<Rightarrow> (case strip_prefix '':'' r1 of None \<Rightarrow> None
      | Some r2 \<Rightarrow> (case read_value n r2 of None \<Rightarrow> None
      | Some (j, r) \<Rightarrow> (case strip_prefix '','' r of
           Some r' \<Rightarrow> map_option (\<lambda>(kvs, r). ((k, j) # kvs, r)) (read_members n r')
         | None \<Rightarrow> map_option (Pair [(k, j)]) (strip_prefix ''}'' r))))))"

definition read_json :: "string \<Rightarrow> json option" where
  "read_json s = (case read_value (length s + 1) s of Some (j, []) \<Rightarrow> Some j | _ \<Rightarrow> None)"

section \<open>Conversions\<close>

fun arithmetic :: "json \<Rightarrow> int option" where
  "arithmetic (Json_int n) = Some n"
| "arithmetic (Json_bool b) = Some (of_bool b)"
| "arithmetic _ = None"

fun text_of :: "json \<Rightarrow> string option" where
  "text_of (Json_string s) = Some s"
| "text_of _ = None"

fun bool_of :: "json \<Rightarrow> bool option" where
  "bool_of (Json_bool b) = Some b"
| "bool_of _ = None"

fun elements :: "json \<Rightarrow> json list option" where
  "elements (Json_array js) = Some js"
| "elements _ = None"

text \<open>Reading a stream; one number stands for those that are too large for a \<open>double\<close>.\<close>

definition read_stream :: "string \<Rightarrow> json_read" where
  "read_stream s = (if take 5 s = ''1e999'' then Read_exception
     else case read_value (length s) s of None \<Rightarrow> Read_parse_error | Some (j, r) \<Rightarrow> Read_json j)"

definition example_json :: json_lib where
  "example_json = \<lparr>jl_parse = read_json, jl_dump = (\<lambda>j. Some (print_json j)), jl_dump_what = (\<lambda>j. []),
     jl_dump_pretty = (\<lambda>j. Some (print_json j)),
     jl_read_stream = read_stream,
     jl_get_ushort = (\<lambda>j. map_option of_int (arithmetic j)),
     jl_get_uint = (\<lambda>j. map_option of_int (arithmetic j)),
     jl_get_size_t = (\<lambda>j. map_option of_int (arithmetic j)),
     jl_get_long_long = (\<lambda>j. map_option of_int (arithmetic j)),
     jl_get_bool = bool_of, jl_get_string = text_of,
     jl_get_int_vector = (\<lambda>j. Option.bind (elements j)
        (\<lambda>js. map_option (map of_int) (those (map arithmetic js))))\<rparr>"

section \<open>The laws\<close>

lemma read_string_escaped: "read_string (concat (map escape_char s) @ CHR 0x22 # r) = Some (s, r)"
  by (induction s) simp_all

lemma strip_prefix_append [simp]: "strip_prefix p (p @ s) = Some s"
  by (induction p) simp_all

definition ends_number :: "string \<Rightarrow> bool" where
  "ends_number r \<longleftrightarrow> (case r of [] \<Rightarrow> True | c # _ \<Rightarrow> \<not> is_digit c)"

lemma read_nat_printed: "ends_number r \<Longrightarrow> read_nat (nat_to_string n @ r) = Some (n, r)"
  using nat_to_string_digits [of _ n]
  by (cases r) (auto simp: read_nat_def Let_def ends_number_def)

lemma read_int_printed: "ends_number r \<Longrightarrow> read_int (int_to_string i @ r) = Some (i, r)"
proof (cases "i < 0")
  case True
  assume "ends_number r"
  then show ?thesis
    using True read_nat_printed [of r "nat (- i)"] by (simp add: int_to_string_def)
next
  case False
  assume r: "ends_number r"
  obtain c cs where ns: "nat_to_string (nat i) = c # cs" and c: "is_digit c"
    by (rule nat_to_string_Cons)
  have "read_int (c # (cs @ r)) = map_option (\<lambda>(n, r). (int n, r)) (read_nat (c # (cs @ r)))"
    using is_digit_not_sign [OF c] by simp
  also have "read_nat (c # (cs @ r)) = Some (nat i, r)"
    using read_nat_printed [OF r, of "nat i"] ns by simp
  finally show ?thesis using False ns by (simp add: int_to_string_def)
qed

lemma int_to_string_Cons:
  obtains c cs where "int_to_string i = c # cs" and "is_digit c \<or> c = CHR ''-''"
proof (cases "i < 0")
  case True
  then show thesis using that by (simp add: int_to_string_def)
next
  case False
  then show thesis
    using that nat_to_string_Cons [of "nat i" thesis] by (simp add: int_to_string_def)
qed

lemma number_start:
  "is_digit c \<or> c = CHR ''-'' \<Longrightarrow> c \<notin> {CHR 0x22, CHR ''t'', CHR ''f'', CHR ''n'', CHR ''['', CHR ''{''} \<and>
    CHR 0x22 \<noteq> c \<and> CHR ''t'' \<noteq> c \<and> CHR ''f'' \<noteq> c \<and> CHR ''n'' \<noteq> c"
  by (auto simp: is_digit_def)

lemma read_scalar_printed:
  assumes "ascii_scalar j" and "ends_number r"
  shows "read_scalar (print_json j @ r) = Some (j, r)"
proof (cases j)
  case (Json_int n)
  obtain c cs where ns: "int_to_string n = c # cs" and c: "is_digit c \<or> c = CHR ''-''"
    by (rule int_to_string_Cons)
  have "read_scalar (int_to_string n @ r) = map_option (\<lambda>(n, r). (Json_int n, r)) (read_int (int_to_string n @ r))"
    using number_start [OF c] ns by (simp del: read_int.simps)
  then show ?thesis using Json_int read_int_printed [OF assms(2), of n] by simp
next
  case (Json_string s)
  then show ?thesis using read_string_escaped [of s r] by (simp add: quote_string_def)
qed (use assms in auto)

lemma read_value_scalar:
  assumes "ascii_scalar j" and "ends_number r"
  shows "read_value (Suc n) (print_json j @ r) = Some (j, r)"
proof -
  obtain c cs where "print_json j = c # cs" "CHR ''['' \<noteq> c" "CHR ''{'' \<noteq> c"
  proof (cases j)
    case (Json_int n)
    obtain c cs where "int_to_string n = c # cs" "is_digit c \<or> c = CHR ''-''"
      by (rule int_to_string_Cons)
    then show thesis by (intro that [of c cs]) (use Json_int in \<open>auto simp: is_digit_def\<close>)
  next
    case (Json_bool b)
    then show thesis using that by (cases b) auto
  qed (use assms(1) that in \<open>auto simp: quote_string_def\<close>)
  then have "read_value (Suc n) (print_json j @ r) = read_scalar (print_json j @ r)"
    by (simp del: read_scalar.simps)
  then show ?thesis using read_scalar_printed [OF assms] by simp
qed

definition print_member :: "string \<times> json \<Rightarrow> string" where
  "print_member kj = (case kj of (k, j) \<Rightarrow> quote_string k @ '':'' @ print_json j)"

lemma read_member:
  assumes "ascii_scalar j" and "ends_number r"
  shows "read_members (Suc (Suc m)) (print_member (k, j) @ r) =
    (case strip_prefix '','' r of
       Some r' \<Rightarrow> map_option (\<lambda>(kvs, r). ((k, j) # kvs, r)) (read_members (Suc m) r')
     | None \<Rightarrow> map_option (Pair [(k, j)]) (strip_prefix ''}'' r))"
proof -
  have "print_member (k, j) @ r = CHR 0x22 # concat (map escape_char k) @ CHR 0x22 # CHR '':'' # print_json j @ r"
    by (simp add: print_member_def quote_string_def)
  then show ?thesis
    using read_string_escaped [of k "CHR '':'' # print_json j @ r"] read_value_scalar [OF assms, of m]
    by (simp del: read_value.simps)
qed

lemma read_members_printed:
  assumes "kvs \<noteq> []" and "list_all (\<lambda>(k, j). ascii_scalar j) kvs" and "length kvs < n"
  shows "read_members n (comma_separated (map print_member kvs) @ ''}'' @ r) = Some (kvs, r)"
  using assms
proof (induction kvs arbitrary: n)
  case (Cons kj kvs)
  obtain k j where kj: "kj = (k, j)" by force
  obtain m where n: "n = Suc (Suc m)" using Cons.prems(3) by (metis Suc_less_eq2 length_Cons lessE)
  have j: "ascii_scalar j" using Cons.prems(2) kj by simp
  show ?case
  proof (cases kvs)
    case Nil
    then show ?thesis
      using read_member [OF j, of "''}'' @ r" m k] n kj by (simp add: ends_number_def is_digit_def)
  next
    case (Cons kj' kvs')
    define rest where "rest = comma_separated (map print_member kvs) @ ''}'' @ r"
    have "read_members (Suc m) rest = Some (kvs, r)"
      using Cons.IH [of "Suc m"] Cons.prems n Cons rest_def by simp
    moreover have "comma_separated (map print_member (kj # kvs)) @ ''}'' @ r = print_member (k, j) @ '','' @ rest"
      using Cons kj rest_def by simp
    ultimately show ?thesis
      using read_member [OF j, of "'','' @ rest" m k] n kj
      by (simp add: ends_number_def is_digit_def del: read_members.simps)
  qed
qed simp

lemma comma_separated_length:
  "kvs \<noteq> [] \<Longrightarrow> length kvs < length (comma_separated (map print_member kvs) @ ''}'')"
proof (induction kvs)
  case (Cons kj kvs)
  then show ?case
    by (cases kvs) (auto simp: print_member_def quote_string_def split: prod.splits)
qed simp

lemma comma_separated_start:
  "kvs \<noteq> [] \<Longrightarrow> \<exists>cs. comma_separated (map print_member kvs) = CHR 0x22 # cs"
proof (cases kvs)
  case (Cons kj kvs')
  then show ?thesis
    by (cases kvs') (auto simp: print_member_def quote_string_def split: prod.splits)
qed simp

lemma read_value_object:
  assumes "list_all (\<lambda>(k, j). ascii_scalar j) kvs" and "length kvs < n"
  shows "read_value (Suc n) (print_json (Json_object kvs) @ r) = Some (Json_object kvs, r)"
proof -
  have member: "(\<lambda>(k, j). quote_string k @ '':'' @ print_json j) = print_member"
    by (simp add: fun_eq_iff print_member_def)
  define body where "body = comma_separated (map print_member kvs) @ ''}'' @ r"
  have printed: "print_json (Json_object kvs) @ r = CHR ''{'' # body"
    using member by (simp add: body_def)
  show ?thesis
  proof (cases "kvs = []")
    case True
    then show ?thesis by simp
  next
    case False
    obtain c cs where "body = c # cs" "c = CHR 0x22"
      using that [of "CHR 0x22"] False comma_separated_start [of kvs] by (auto simp: body_def)
    then have "read_value (Suc n) (CHR ''{'' # body) =
        map_option (\<lambda>(kvs, r). (Json_object kvs, r)) (read_members n body)"
      by (simp del: read_members.simps)
    also have "read_members n body = Some (kvs, r)"
      using read_members_printed [OF False assms] by (simp add: body_def)
    finally show ?thesis unfolding printed by simp
  qed
qed

lemma print_json_object_length: "length kvs + 1 < length (print_json (Json_object kvs))"
proof (cases "kvs = []")
  case False
  have "(\<lambda>(k, j). quote_string k @ '':'' @ print_json j) = print_member"
    by (simp add: fun_eq_iff print_member_def)
  then show ?thesis using comma_separated_length [OF False] by simp
qed simp

lemma read_json_object:
  assumes "list_all (\<lambda>(k, j). ascii_scalar j) kvs"
  shows "read_json (print_json (Json_object kvs)) = Some (Json_object kvs)"
    and "map_option fst (read_value (length (print_json (Json_object kvs) @ r)) (print_json (Json_object kvs) @ r)) =
      Some (Json_object kvs)"
proof -
  let ?s = "print_json (Json_object kvs)"
  have long: "length kvs < length ?s" using print_json_object_length [of kvs] by simp
  then show "read_json ?s = Some (Json_object kvs)"
    using read_value_object [OF assms long, of "[]"] by (simp add: read_json_def del: print_json.simps)
  obtain n where "length (?s @ r) = Suc n" "length kvs < n"
    using print_json_object_length [of kvs] by (cases "length (?s @ r)") (simp_all del: print_json.simps)
  then show "map_option fst (read_value (length (?s @ r)) (?s @ r)) = Some (Json_object kvs)"
    using read_value_object [OF assms, of n r] by (simp del: print_json.simps)
qed

text \<open>The functions above are a JSON library in the sense of the properties.\<close>

lemma ascii_scalar_members:
  "list_all (\<lambda>(k, j). ascii_string k \<and> ascii_scalar j) kvs \<Longrightarrow> list_all (\<lambda>(k, j). ascii_scalar j) kvs"
  by (auto simp: list_all_iff)

lemma those_ints: "those (map arithmetic (map Json_int ns)) = Some ns"
  by (induction ns) simp_all

lemma those_string: "Json_string s \<in> set js \<Longrightarrow> those (map arithmetic js) = None"
  by (induction js) (auto split: option.splits)

lemma object_no_overflow: "take 5 (print_json (Json_object kvs) @ r) \<noteq> ''1e999''"
  by simp

lemma example_json_laws: "json_laws example_json"
  unfolding json_laws_def
proof (intro conjI allI impI)
  fix kvs s
  assume "list_all (\<lambda>(k, j). ascii_string k \<and> ascii_scalar j) kvs"
    and "jl_dump example_json (Json_object kvs) = Some s"
  then show "\<exists>kvs'. jl_parse example_json s = Some (Json_object kvs') \<and> map_of kvs' = map_of kvs"
    using read_json_object(1) [OF ascii_scalar_members] by (auto simp: example_json_def simp del: print_json.simps)
next
  fix kvs
  assume "list_all (\<lambda>(k, j). ascii_string k \<and> ascii_scalar j) kvs"
  then show "\<exists>s kvs'. jl_dump_pretty example_json (Json_object kvs) = Some s \<and>
      jl_read_stream example_json (s @ [CHR 0x0A]) = Read_json (Json_object kvs') \<and> map_of kvs' = map_of kvs"
    using read_json_object(2) [OF ascii_scalar_members, of kvs "[CHR 0x0A]"] object_no_overflow [of kvs "[CHR 0x0A]"]
    by (intro exI [of _ "print_json (Json_object kvs)"] exI [of _ kvs])
      (auto simp: example_json_def read_stream_def simp del: print_json.simps read_value.simps take_append)
next
  fix ns
  show "jl_get_int_vector example_json (Json_array (map Json_int ns)) = Some (map of_int ns)"
    using those_ints [of ns] by (simp add: example_json_def)
next
  fix s js
  assume "Json_string s \<in> set js"
  then show "jl_get_int_vector example_json (Json_array js) = None"
    using those_string by (simp add: example_json_def)
qed (simp_all add: example_json_def)

end
