(* ===== verification/Std_Heap.thy ===== *)
theory Std_Heap
  imports Prelude
begin

text \<open>
  The heap algorithms of the C++ standard library that \<open>TaskQueue\<close> (src/thread_pool.cpp) calls on
  its \<open>std::vector\<close>: \<open>std::push_heap\<close>, \<open>std::pop_heap\<close> and \<open>std::make_heap\<close>, by sift-up and
  sift-down on a list, for any comparison object. The locale \<open>heap_algorithms\<close> states their
  contract as the standard gives it; the queue's proofs use that contract only, and
  \<open>std_heap_algorithms\<close> shows that the algorithms below keep it.
\<close>

section \<open>The algorithms\<close>

definition heap_parent :: "nat \<Rightarrow> nat" where
  "heap_parent i = (i - 1) div 2"

definition heap_swap :: "'a list \<Rightarrow> nat \<Rightarrow> nat \<Rightarrow> 'a list" where
  "heap_swap xs i j = xs[i := xs ! j, j := xs ! i]"

function sift_up :: "('a \<Rightarrow> 'a \<Rightarrow> bool) \<Rightarrow> 'a list \<Rightarrow> nat \<Rightarrow> 'a list" where
  "sift_up lt xs i =
     (if 0 < i \<and> lt (xs ! heap_parent i) (xs ! i)
      then sift_up lt (heap_swap xs (heap_parent i) i) (heap_parent i) else xs)"
  by pat_completeness auto
termination
  by (relation "measure (\<lambda>(lt, xs, i). i)") (auto simp: heap_parent_def)

definition heap_child :: "('a \<Rightarrow> 'a \<Rightarrow> bool) \<Rightarrow> 'a list \<Rightarrow> nat \<Rightarrow> nat \<Rightarrow> nat" where
  "heap_child lt xs i n =
     (let l = 2 * i + 1; r = 2 * i + 2 in if r < n \<and> \<not> lt (xs ! r) (xs ! l) then r else l)"

function sift_down :: "('a \<Rightarrow> 'a \<Rightarrow> bool) \<Rightarrow> 'a list \<Rightarrow> nat \<Rightarrow> nat \<Rightarrow> 'a list" where
  "sift_down lt xs i n =
     (if 2 * i + 1 < n \<and> lt (xs ! i) (xs ! heap_child lt xs i n)
      then sift_down lt (heap_swap xs i (heap_child lt xs i n)) (heap_child lt xs i n) n else xs)"
  by pat_completeness auto
termination
  by (relation "measure (\<lambda>(lt, xs, i, n). n - i)") (auto simp: heap_child_def Let_def)

declare sift_up.simps [simp del] sift_down.simps [simp del]

definition std_push_heap :: "('a \<Rightarrow> 'a \<Rightarrow> bool) \<Rightarrow> 'a list \<Rightarrow> 'a list" where
  "std_push_heap lt xs = sift_up lt xs (length xs - 1)"

definition std_pop_heap :: "('a \<Rightarrow> 'a \<Rightarrow> bool) \<Rightarrow> 'a list \<Rightarrow> 'a list" where
  "std_pop_heap lt xs =
     (if length xs \<le> 1 then xs
      else sift_down lt (heap_swap xs 0 (length xs - 1)) 0 (length xs - 1))"

definition std_make_heap :: "('a \<Rightarrow> 'a \<Rightarrow> bool) \<Rightarrow> 'a list \<Rightarrow> 'a list" where
  "std_make_heap lt xs =
     foldr (\<lambda>i ys. sift_down lt ys i (length ys)) [0..<length xs div 2] xs"

section \<open>Lengths and elements\<close>

lemma length_heap_swap [simp]: "length (heap_swap xs i j) = length xs"
  by (simp add: heap_swap_def)

lemma mset_heap_swap:
  "i < length xs \<Longrightarrow> j < length xs \<Longrightarrow> mset (heap_swap xs i j) = mset xs"
  by (simp add: heap_swap_def mset_swap)

lemma nth_heap_swap:
  "i < length xs \<Longrightarrow> j < length xs \<Longrightarrow>
    heap_swap xs i j ! k = (if k = j then xs ! i else if k = i then xs ! j else xs ! k)"
  by (auto simp: heap_swap_def nth_list_update)

lemma heap_parent_less: "0 < i \<Longrightarrow> heap_parent i < i"
  by (auto simp: heap_parent_def)

lemma heap_parent_mono: "i \<le> j \<Longrightarrow> heap_parent i \<le> heap_parent j"
  by (auto simp: heap_parent_def intro: div_le_mono)

lemma heap_child_cases:
  "heap_child lt xs i n = 2 * i + 1 \<or> heap_child lt xs i n = 2 * i + 2 \<and> 2 * i + 2 < n"
  by (simp add: heap_child_def Let_def)

lemma heap_child_bounds:
  assumes "2 * i + 1 < n"
  shows "i < heap_child lt xs i n" and "heap_child lt xs i n < n"
    and "heap_parent (heap_child lt xs i n) = i"
  using assms heap_child_cases [of lt xs i n] by (auto simp: heap_parent_def)

lemma child_of_parent: "0 < j \<Longrightarrow> heap_parent j = i \<Longrightarrow> j = 2 * i + 1 \<or> j = 2 * i + 2"
  unfolding heap_parent_def by presburger

lemma length_sift_up [simp]: "length (sift_up lt xs i) = length xs"
  by (induction lt xs i rule: sift_up.induct) (subst sift_up.simps, simp)

lemma length_sift_down [simp]: "length (sift_down lt xs i n) = length xs"
  by (induction lt xs i n rule: sift_down.induct) (subst sift_down.simps, simp)

lemma mset_sift_up: "i < length xs \<Longrightarrow> mset (sift_up lt xs i) = mset xs"
proof (induction lt xs i rule: sift_up.induct)
  case (1 lt xs i)
  then show ?case
    using heap_parent_less [of i] by (subst sift_up.simps) (auto simp: mset_heap_swap)
qed

lemma mset_sift_down: "n \<le> length xs \<Longrightarrow> mset (sift_down lt xs i n) = mset xs"
proof (induction lt xs i n rule: sift_down.induct)
  case (1 lt xs i n)
  then show ?case
    using heap_child_bounds [of i n lt xs] by (subst sift_down.simps) (auto simp: mset_heap_swap)
qed

lemma nth_sift_down_beyond:
  "n \<le> length xs \<Longrightarrow> n \<le> k \<Longrightarrow> sift_down lt xs i n ! k = xs ! k"
proof (induction lt xs i n rule: sift_down.induct)
  case (1 lt xs i n)
  then show ?case
    using heap_child_bounds [of i n lt xs] by (subst sift_down.simps) (auto simp: nth_heap_swap)
qed

section \<open>Heaps\<close>

text \<open>
  The standard's heap: no element is greater than its parent. \<open>heap_from\<close> is the same for the
  elements whose parent is at \<open>k\<close> or later, within the first \<open>n\<close>; \<open>heap_hole_down\<close> and
  \<open>heap_hole_up\<close> allow the order to fail below, or above, one position.
\<close>

definition is_heap_upto :: "('a \<Rightarrow> 'a \<Rightarrow> bool) \<Rightarrow> 'a list \<Rightarrow> nat \<Rightarrow> bool" where
  "is_heap_upto lt xs n \<longleftrightarrow> (\<forall>j \<in> {1..<n}. \<not> lt (xs ! heap_parent j) (xs ! j))"

definition is_heap :: "('a \<Rightarrow> 'a \<Rightarrow> bool) \<Rightarrow> 'a list \<Rightarrow> bool" where
  "is_heap lt xs \<longleftrightarrow> is_heap_upto lt xs (length xs)"

definition heap_from :: "('a \<Rightarrow> 'a \<Rightarrow> bool) \<Rightarrow> 'a list \<Rightarrow> nat \<Rightarrow> nat \<Rightarrow> bool" where
  "heap_from lt xs k n \<longleftrightarrow>
     (\<forall>j \<in> {1..<n}. k \<le> heap_parent j \<longrightarrow> \<not> lt (xs ! heap_parent j) (xs ! j))"

definition heap_hole_down :: "('a \<Rightarrow> 'a \<Rightarrow> bool) \<Rightarrow> 'a list \<Rightarrow> nat \<Rightarrow> nat \<Rightarrow> nat \<Rightarrow> bool" where
  "heap_hole_down lt xs k i n \<longleftrightarrow>
     (\<forall>j \<in> {1..<n}. k \<le> heap_parent j \<longrightarrow>
        (heap_parent j \<noteq> i \<longrightarrow> \<not> lt (xs ! heap_parent j) (xs ! j)) \<and>
        (heap_parent j = i \<longrightarrow> 0 < i \<longrightarrow> k \<le> heap_parent i \<longrightarrow>
           \<not> lt (xs ! heap_parent i) (xs ! j)))"

definition heap_hole_up :: "('a \<Rightarrow> 'a \<Rightarrow> bool) \<Rightarrow> 'a list \<Rightarrow> nat \<Rightarrow> bool" where
  "heap_hole_up lt xs i \<longleftrightarrow>
     (\<forall>j \<in> {1..<length xs}.
        (j \<noteq> i \<longrightarrow> \<not> lt (xs ! heap_parent j) (xs ! j)) \<and>
        (heap_parent j = i \<longrightarrow> 0 < i \<longrightarrow> \<not> lt (xs ! heap_parent i) (xs ! j)))"

lemma is_heap_upto_from: "is_heap_upto lt xs n \<longleftrightarrow> heap_from lt xs 0 n"
  by (simp add: is_heap_upto_def heap_from_def)

lemma is_heap_Nil [simp]: "is_heap lt []"
  by (simp add: is_heap_def is_heap_upto_def)

lemma is_heap_upto_cong:
  assumes "\<And>j. j < n \<Longrightarrow> xs ! j = ys ! j"
  shows "is_heap_upto lt xs n = is_heap_upto lt ys n"
proof -
  have "heap_parent j < n" if "j \<in> {1..<n}" for j
    using that heap_parent_less [of j] by simp
  then show ?thesis using assms by (simp add: is_heap_upto_def)
qed

lemma is_heap_butlast: "is_heap lt (butlast xs) \<longleftrightarrow> is_heap_upto lt xs (length xs - 1)"
  unfolding is_heap_def by (simp add: is_heap_upto_cong [of _ "butlast xs" xs] nth_butlast)

section \<open>The contract\<close>

text \<open>
  A comparison object of the standard induces a strict weak ordering: asymmetric, and
  ``not less'' is transitive.
\<close>

locale strict_weak_order =
  fixes lt :: "'a \<Rightarrow> 'a \<Rightarrow> bool"
  assumes asym: "lt x y \<Longrightarrow> \<not> lt y x"
    and not_less_trans: "\<not> lt x y \<Longrightarrow> \<not> lt y z \<Longrightarrow> \<not> lt x z"
begin

lemma irrefl [simp]: "\<not> lt x x"
  using asym by blast

lemma heap_child_greatest:
  assumes "0 < j" and "j < n" and "heap_parent j = i"
  shows "\<not> lt (xs ! heap_child lt xs i n) (xs ! j)"
proof -
  from child_of_parent [OF assms(1,3)] show ?thesis
    using assms(2) asym by (auto simp: heap_child_def Let_def)
qed

lemma hole_up_step:
  assumes hole: "heap_hole_up lt xs i" and i: "i < length xs"
    and sw: "0 < i" "lt (xs ! heap_parent i) (xs ! i)"
  shows "heap_hole_up lt (heap_swap xs (heap_parent i) i) (heap_parent i)"
proof -
  define p where "p = heap_parent i"
  have p: "p < i" "p < length xs" using heap_parent_less [OF sw(1)] i by (simp_all add: p_def)
  have nle: "\<not> lt (xs ! i) (xs ! p)" using asym sw(2) by (simp add: p_def)
  have pp: "heap_parent i = p" by (simp add: p_def)
  note nth = nth_heap_swap [OF p(2) i]
  have "(j \<noteq> p \<longrightarrow> \<not> lt (heap_swap xs p i ! heap_parent j) (heap_swap xs p i ! j)) \<and>
        (heap_parent j = p \<longrightarrow> 0 < p \<longrightarrow> \<not> lt (heap_swap xs p i ! heap_parent p) (heap_swap xs p i ! j))"
    if j: "j \<in> {1..<length xs}" for j
  proof -
    have hj: "j \<noteq> i \<Longrightarrow> \<not> lt (xs ! heap_parent j) (xs ! j)"
      "heap_parent j = i \<Longrightarrow> \<not> lt (xs ! p) (xs ! j)"
      using hole j sw(1) unfolding heap_hole_up_def p_def by auto
    have hp: "0 < p \<Longrightarrow> \<not> lt (xs ! heap_parent p) (xs ! p)"
      using hole p unfolding heap_hole_up_def by auto
    have lj: "heap_parent j < j" using heap_parent_less j by simp
    have lp: "0 < p \<Longrightarrow> heap_parent p < p" by (rule heap_parent_less)
    show ?thesis
      using hj hp lj lp p nle not_less_trans [of "xs ! i" "xs ! p" "xs ! j"]
        not_less_trans [of "xs ! heap_parent p" "xs ! p" "xs ! j"] pp
      by (auto simp: nth)
  qed
  then show ?thesis by (simp add: heap_hole_up_def flip: p_def)
qed

lemma sift_up_heap: "heap_hole_up lt xs i \<Longrightarrow> i < length xs \<Longrightarrow> is_heap lt (sift_up lt xs i)"
proof (induction i arbitrary: xs rule: less_induct)
  case (less i)
  show ?case
  proof (cases "0 < i \<and> lt (xs ! heap_parent i) (xs ! i)")
    case True
    then show ?thesis
      using less.IH [OF heap_parent_less] hole_up_step less.prems heap_parent_less [of i]
      by (simp add: sift_up.simps [of lt xs i])
  next
    case False
    then have "sift_up lt xs i = xs" by (subst sift_up.simps) auto
    then show ?thesis
      using False less.prems by (auto simp: is_heap_def is_heap_upto_def heap_hole_up_def)
  qed
qed

lemma hole_down_step:
  assumes hole: "heap_hole_down lt xs k i n" and n: "n \<le> length xs" and k: "k \<le> i"
    and sw: "2 * i + 1 < n" "lt (xs ! i) (xs ! heap_child lt xs i n)"
  shows "heap_hole_down lt (heap_swap xs i (heap_child lt xs i n)) k (heap_child lt xs i n) n"
proof -
  define c where "c = heap_child lt xs i n"
  have c: "i < c" "c < n" "heap_parent c = i"
    using heap_child_bounds [OF sw(1)] by (simp_all add: c_def)
  have ci: "i < length xs" "c < length xs" using c n by auto
  have nle: "\<not> lt (xs ! c) (xs ! i)" using asym sw(2) by (simp add: c_def)
  note nth = nth_heap_swap [OF ci]
  have "(heap_parent j \<noteq> c \<longrightarrow> \<not> lt (heap_swap xs i c ! heap_parent j) (heap_swap xs i c ! j)) \<and>
        (heap_parent j = c \<longrightarrow> 0 < c \<longrightarrow> k \<le> heap_parent c \<longrightarrow>
           \<not> lt (heap_swap xs i c ! heap_parent c) (heap_swap xs i c ! j))"
    if j: "j \<in> {1..<n}" "k \<le> heap_parent j" for j
  proof -
    have hj: "heap_parent j \<noteq> i \<Longrightarrow> \<not> lt (xs ! heap_parent j) (xs ! j)"
      using hole j unfolding heap_hole_down_def by auto
    have hc: "0 < i \<Longrightarrow> k \<le> heap_parent i \<Longrightarrow> \<not> lt (xs ! heap_parent i) (xs ! c)"
      using hole c k unfolding heap_hole_down_def by auto
    have hg: "heap_parent j = i \<Longrightarrow> \<not> lt (xs ! c) (xs ! j)"
      using heap_child_greatest j by (auto simp: c_def)
    have lj: "heap_parent j < j" using heap_parent_less j by simp
    show ?thesis
      using hj hc hg lj nle c j(2) heap_parent_less [of i] by (auto simp: nth)
  qed
  then show ?thesis by (simp add: heap_hole_down_def flip: c_def)
qed

lemma sift_down_heap:
  "heap_hole_down lt xs k i n \<Longrightarrow> n \<le> length xs \<Longrightarrow> k \<le> i \<Longrightarrow> heap_from lt (sift_down lt xs i n) k n"
proof (induction "n - i" arbitrary: i xs rule: less_induct)
  case less
  let ?c = "heap_child lt xs i n"
  show ?case
  proof (cases "2 * i + 1 < n \<and> lt (xs ! i) (xs ! ?c)")
    case True
    then have c: "i < ?c" "?c < n" using heap_child_bounds by auto
    have "heap_from lt (sift_down lt (heap_swap xs i ?c) ?c n) k n"
      using less.hyps [of ?c "heap_swap xs i ?c"] hole_down_step less.prems c True by simp
    then show ?thesis using True by (simp add: sift_down.simps [of lt xs i n])
  next
    case False
    then have same: "sift_down lt xs i n = xs" by (subst sift_down.simps) auto
    have "\<not> lt (xs ! heap_parent j) (xs ! j)" if j: "j \<in> {1..<n}" "k \<le> heap_parent j" for j
    proof (cases "heap_parent j = i")
      case True
      then have "2 * i + 1 < n" using child_of_parent [of j i] j by auto
      then show ?thesis
        using False True heap_child_greatest [of j n i xs] j not_less_trans by auto
    next
      case False
      then show ?thesis using less.prems(1) j by (simp add: heap_hole_down_def)
    qed
    then show ?thesis by (simp add: same heap_from_def)
  qed
qed

end

text \<open>The contract of \<open>[alg.heap.operations]\<close>: the elements are kept, and the heap is made.\<close>

locale heap_algorithms = strict_weak_order +
  fixes push_heap pop_heap make_heap :: "'a list \<Rightarrow> 'a list"
  assumes mset_push: "mset (push_heap xs) = mset xs"
    and heap_push: "is_heap lt (butlast xs) \<Longrightarrow> is_heap lt (push_heap xs)"
    and mset_pop: "mset (pop_heap xs) = mset xs"
    and last_pop: "xs \<noteq> [] \<Longrightarrow> last (pop_heap xs) = hd xs"
    and heap_pop: "is_heap lt xs \<Longrightarrow> is_heap lt (butlast (pop_heap xs))"
    and mset_make: "mset (make_heap xs) = mset xs"
    and heap_make: "is_heap lt (make_heap xs)"
begin

lemma heap_front_greatest:
  assumes "is_heap lt xs" and "j < length xs"
  shows "\<not> lt (hd xs) (xs ! j)"
  using assms(2)
proof (induction j rule: less_induct)
  case (less j)
  show ?case
  proof (cases "j = 0")
    case True
    then show ?thesis using less.prems by (cases xs) auto
  next
    case False
    then have "\<not> lt (hd xs) (xs ! heap_parent j)"
      using less.IH [of "heap_parent j"] heap_parent_less [of j] less.prems by simp
    moreover have "\<not> lt (xs ! heap_parent j) (xs ! j)"
      using assms(1) False less.prems by (simp add: is_heap_def is_heap_upto_def)
    ultimately show ?thesis by (rule not_less_trans)
  qed
qed

lemma length_push [simp]: "length (push_heap xs) = length xs"
  by (rule length_eq_of_mset [OF mset_push])

lemma length_pop [simp]: "length (pop_heap xs) = length xs"
  by (rule length_eq_of_mset [OF mset_pop])

lemma pop_neq_Nil [simp]: "pop_heap xs = [] \<longleftrightarrow> xs = []"
  by (metis length_0_conv length_pop)

lemma pop_last_greatest:
  assumes "is_heap lt xs" and "xs \<noteq> []" and "y \<in># mset xs"
  shows "\<not> lt (last (pop_heap xs)) y"
proof -
  from assms(3) obtain j where "j < length xs" and "y = xs ! j"
    by (auto simp: in_set_conv_nth)
  then show ?thesis
    using heap_front_greatest [OF assms(1)] last_pop [OF assms(2)] by simp
qed

lemma mset_pop_split:
  "xs \<noteq> [] \<Longrightarrow> mset xs = add_mset (last (pop_heap xs)) (mset (butlast (pop_heap xs)))"
  by (metis mset_butlast_last mset_pop pop_neq_Nil)

end

section \<open>The algorithms keep the contract\<close>

context strict_weak_order
begin

lemma mset_std_push_heap: "mset (std_push_heap lt xs) = mset xs"
proof (cases "xs = []")
  case True
  then show ?thesis by (simp add: std_push_heap_def sift_up.simps [of lt "[]" 0])
next
  case False
  then show ?thesis by (simp add: std_push_heap_def mset_sift_up)
qed

lemma heap_std_push_heap:
  assumes "is_heap lt (butlast xs)"
  shows "is_heap lt (std_push_heap lt xs)"
proof (cases "xs = []")
  case True
  then show ?thesis by (simp add: std_push_heap_def sift_up.simps [of lt "[]" 0])
next
  case False
  then obtain n where n: "length xs = Suc n" by (cases xs) auto
  have "\<not> lt (xs ! heap_parent j) (xs ! j)" if "j \<in> {1..<Suc n}" "j \<noteq> n" for j
    using that assms n by (simp add: is_heap_butlast is_heap_upto_def)
  moreover have "heap_parent j \<noteq> n" if "j \<in> {1..<Suc n}" for j
    using that heap_parent_less [of j] by simp
  ultimately have "heap_hole_up lt xs n" by (simp add: heap_hole_up_def n)
  then show ?thesis using n by (simp add: std_push_heap_def sift_up_heap)
qed

lemma std_pop_heap_Suc:
  "length xs = Suc (Suc n) \<Longrightarrow>
    std_pop_heap lt xs = sift_down lt (heap_swap xs 0 (Suc n)) 0 (Suc n)"
  by (simp add: std_pop_heap_def)

lemma std_pop_heap_short: "length xs \<le> 1 \<Longrightarrow> std_pop_heap lt xs = xs"
  by (simp add: std_pop_heap_def)

lemma std_pop_heap_cases:
  obtains "length xs \<le> 1" | n where "length xs = Suc (Suc n)"
  by (cases xs rule: remdups_adj.cases) auto

lemma mset_std_pop_heap: "mset (std_pop_heap lt xs) = mset xs"
  by (cases xs rule: std_pop_heap_cases)
    (simp_all add: std_pop_heap_short std_pop_heap_Suc mset_sift_down mset_heap_swap)

lemma last_std_pop_heap:
  assumes "xs \<noteq> []"
  shows "last (std_pop_heap lt xs) = hd xs"
proof (cases xs rule: std_pop_heap_cases)
  case 1
  then show ?thesis using assms by (cases xs) (auto simp: std_pop_heap_short)
next
  case (2 n)
  let ?ys = "sift_down lt (heap_swap xs 0 (Suc n)) 0 (Suc n)"
  have "length ?ys = Suc (Suc n)" using 2 by simp
  then have "last ?ys = ?ys ! Suc n" by (cases ?ys rule: rev_cases) (auto simp: nth_append)
  also have "\<dots> = xs ! 0" using 2 by (simp add: nth_sift_down_beyond nth_heap_swap)
  finally show ?thesis using 2 assms by (simp add: std_pop_heap_Suc hd_conv_nth)
qed

lemma heap_std_pop_heap:
  assumes "is_heap lt xs"
  shows "is_heap lt (butlast (std_pop_heap lt xs))"
proof (cases xs rule: std_pop_heap_cases)
  case 1
  then show ?thesis by (cases xs) (auto simp: std_pop_heap_short)
next
  case (2 n)
  let ?zs = "heap_swap xs 0 (Suc n)"
  have "\<not> lt (?zs ! heap_parent j) (?zs ! j)" if "j \<in> {1..<Suc n}" "heap_parent j \<noteq> 0" for j
  proof -
    have "heap_parent j < Suc n" "j < Suc n" using that heap_parent_less [of j] by auto
    then show ?thesis
      using that assms 2 by (simp add: nth_heap_swap is_heap_def is_heap_upto_def)
  qed
  then have "heap_hole_down lt ?zs 0 0 (Suc n)" by (simp add: heap_hole_down_def)
  then have "heap_from lt (sift_down lt ?zs 0 (Suc n)) 0 (Suc n)" using 2 by (simp add: sift_down_heap)
  then show ?thesis
    using 2 by (simp add: std_pop_heap_Suc is_heap_butlast is_heap_upto_from)
qed

lemma make_heap_fold:
  "k \<le> length xs \<Longrightarrow>
    (let ys = foldr (\<lambda>i ys. sift_down lt ys i (length ys)) [m..<k] xs
     in length ys = length xs \<and> mset ys = mset xs \<and>
        (heap_from lt xs k (length xs) \<longrightarrow> m \<le> k \<longrightarrow> heap_from lt ys m (length xs)))"
proof (induction k arbitrary: xs)
  case 0
  then show ?case by simp
next
  case (Suc k)
  let ?xs = "sift_down lt xs k (length xs)"
  show ?case
  proof (cases "m \<le> k")
    case True
    have "heap_from lt ?xs k (length xs)" if "heap_from lt xs (Suc k) (length xs)"
    proof (rule sift_down_heap)
      have "heap_parent k < k" if "0 < k" using that by (rule heap_parent_less)
      then show "heap_hole_down lt xs k k (length xs)"
        using that by (auto simp: heap_hole_down_def heap_from_def)
    qed simp_all
    then show ?thesis
      using Suc.IH [of ?xs] Suc.prems True by (simp add: Let_def mset_sift_down)
  next
    case False
    then show ?thesis by (auto simp: le_Suc_eq)
  qed
qed

lemma mset_std_make_heap: "mset (std_make_heap lt xs) = mset xs"
  using make_heap_fold [of "length xs div 2" xs 0] by (simp add: std_make_heap_def Let_def)

lemma heap_std_make_heap: "is_heap lt (std_make_heap lt xs)"
proof -
  have "\<not> length xs div 2 \<le> heap_parent j" if "j \<in> {1..<length xs}" for j
    using that by (auto simp: heap_parent_def)
  then have "heap_from lt xs (length xs div 2) (length xs)"
    by (auto simp: heap_from_def)
  then show ?thesis
    using make_heap_fold [of "length xs div 2" xs 0]
    by (simp add: std_make_heap_def Let_def is_heap_def is_heap_upto_from)
qed

lemma std_heap_algorithms:
  "heap_algorithms lt (std_push_heap lt) (std_pop_heap lt) (std_make_heap lt)"
  by unfold_locales
    (simp_all add: mset_std_push_heap heap_std_push_heap mset_std_pop_heap last_std_pop_heap
      heap_std_pop_heap mset_std_make_heap heap_std_make_heap)

end

end
