(* ===== verification/Queue_Interface.thy ===== *)
theory Queue_Interface
  imports Prelude
begin

text \<open>
  The interface between a queue that can be closed and the thread that empties it. Both queues of
  the program have it: \<open>MessageQueue\<close> (src/logger.cpp) with \<open>LogConsumer\<close>, and \<open>TaskQueue\<close>
  (src/thread_pool.cpp) with \<open>WorkerThread\<close>. \<open>pop\<close> blocks on a condition variable: its result is
  \<^const>\<open>None\<close> while the wait predicate is false, and otherwise the item, or nothing to tell the
  thread to leave its loop, with the queue after the call.
\<close>

section \<open>The loop of a consuming thread\<close>

text \<open>
  The body of both threads is \<open>while (true) { item = pop(); if (!item) break; use(item); }\<close>. The loop
  runs one round per element of the list of times (the fuel); the result is the items used, the
  queue, and whether the thread has left its loop, waits in \<open>pop\<close>, or has rounds still to run.
\<close>

datatype loop_state = Rounds_Over | Waits_In_Pop | Loop_Left

fun consumer_loop ::
  "('t \<Rightarrow> 'q \<Rightarrow> ('a option \<times> 'q) option) \<Rightarrow> 't list \<Rightarrow> 'q \<Rightarrow> 'a list \<times> 'q \<times> loop_state" where
  "consumer_loop pop [] q = ([], q, Rounds_Over)"
| "consumer_loop pop (t # ts) q =
     (case pop t q of None \<Rightarrow> ([], q, Waits_In_Pop)
      | Some (None, q') \<Rightarrow> ([], q', Loop_Left)
      | Some (Some x, q') \<Rightarrow>
          (let (xs, q'', st) = consumer_loop pop ts q' in (x # xs, q'', st)))"

section \<open>The contract of the queue\<close>

locale closable_queue =
  fixes inv :: "'q \<Rightarrow> bool" \<comment> \<open>the queue's invariant\<close>
    and live :: "'q \<Rightarrow> bool" \<comment> \<open>the queue has not been aborted\<close>
    and closed :: "'q \<Rightarrow> bool" \<comment> \<open>\<open>shutdown()\<close> has been called\<close>
    and items :: "'q \<Rightarrow> 'a multiset"
    and pop :: "'t \<Rightarrow> 'q \<Rightarrow> ('a option \<times> 'q) option"
  assumes pop_item: "inv q \<Longrightarrow> live q \<Longrightarrow> items q \<noteq> {#} \<Longrightarrow>
      \<exists>x q'. pop t q = Some (Some x, q') \<and> items q = add_mset x (items q') \<and>
        inv q' \<and> live q' \<and> closed q' = closed q"
    and pop_wait: "live q \<Longrightarrow> items q = {#} \<Longrightarrow> \<not> closed q \<Longrightarrow> pop t q = None"
    and pop_leave: "live q \<Longrightarrow> items q = {#} \<Longrightarrow> closed q \<Longrightarrow> pop t q = Some (None, q)"
    and pop_aborted: "\<not> live q \<Longrightarrow> pop t q = Some (None, q)"
begin

text \<open>The loop uses each item once, and every item it has not used is still in the queue.\<close>

lemma loop_conserves:
  "inv q \<Longrightarrow> consumer_loop pop ts q = (xs, q', st) \<Longrightarrow>
    items q = mset xs + items q' \<and> inv q' \<and> live q' = live q \<and> closed q' = closed q"
proof (induction ts arbitrary: q xs q' st)
  case Nil
  then show ?case by simp
next
  case (Cons t ts)
  consider (aborted) "\<not> live q" | (empty) "live q" "items q = {#}"
    | (item) "live q" "items q \<noteq> {#}" by blast
  then show ?case
  proof cases
    case aborted
    then show ?thesis using Cons.prems pop_aborted by auto
  next
    case empty
    then show ?thesis using Cons.prems pop_wait [of q t] pop_leave [of q t] by (cases "closed q") auto
  next
    case item
    then obtain x p where p: "pop t q = Some (Some x, p)" "items q = add_mset x (items p)" "inv p"
      "live p" "closed p = closed q"
      using pop_item Cons.prems(1) by blast
    obtain ys p' st' where rest: "consumer_loop pop ts p = (ys, p', st')"
      by (cases "consumer_loop pop ts p")
    then show ?thesis
      using Cons.IH [OF p(3) rest] Cons.prems p item by auto
  qed
qed

text \<open>Once the queue is closed, one round per item and one more are enough to leave the loop.\<close>

lemma loop_drains:
  "inv q \<Longrightarrow> live q \<Longrightarrow> closed q \<Longrightarrow> size (items q) < length ts \<Longrightarrow>
    \<exists>xs q'. consumer_loop pop ts q = (xs, q', Loop_Left) \<and> mset xs = items q \<and> items q' = {#}"
proof (induction ts arbitrary: q)
  case Nil
  then show ?case by simp
next
  case (Cons t ts)
  show ?case
  proof (cases "items q = {#}")
    case True
    then show ?thesis using Cons.prems pop_leave by auto
  next
    case False
    then obtain x p where p: "pop t q = Some (Some x, p)" "items q = add_mset x (items p)" "inv p"
      "live p" "closed p = closed q"
      using pop_item Cons.prems by blast
    then obtain xs q' where "consumer_loop pop ts p = (xs, q', Loop_Left)"
      "mset xs = items p" "items q' = {#}"
      using Cons.IH [of p] Cons.prems by auto
    then show ?thesis using p by auto
  qed
qed

text \<open>As long as the queue is open the thread does not leave its loop.\<close>

lemma loop_stays:
  "inv q \<Longrightarrow> live q \<Longrightarrow> \<not> closed q \<Longrightarrow> consumer_loop pop ts q = (xs, q', st) \<Longrightarrow> st \<noteq> Loop_Left"
proof (induction ts arbitrary: q xs q' st)
  case Nil
  then show ?case by simp
next
  case (Cons t ts)
  show ?case
  proof (cases "items q = {#}")
    case True
    then show ?thesis using Cons.prems pop_wait [of q t] by auto
  next
    case False
    then obtain x p where p: "pop t q = Some (Some x, p)" "inv p" "live p" "closed p = closed q"
      using pop_item Cons.prems by blast
    then show ?thesis
      using Cons.IH [of p] Cons.prems by (auto split: prod.splits)
  qed
qed

lemma loop_aborted: "\<not> live q \<Longrightarrow> ts \<noteq> [] \<Longrightarrow> consumer_loop pop ts q = ([], q, Loop_Left)"
  by (cases ts) (auto simp: pop_aborted)

end

end
