(* ===== verification/Task_Queue.thy ===== *)
theory Task_Queue
  imports Std_Heap Queue_Interface
begin

text \<open>
  \<open>TaskQueue\<close> of src/thread_pool.cpp and include/thread_pool.hpp: a bounded priority queue on a
  \<open>std::vector\<close> kept as a heap, with FIFO order among equal priorities and ageing. The mutex makes
  each operation atomic, so an operation is a function on the queue; the clock it reads is an
  argument, in nanoseconds of \<open>std::chrono::steady_clock\<close>.
\<close>

section \<open>Data and operations\<close>

record 'a prioritized_task =
  pt_priority :: cint
  pt_order :: size_t
  pt_task :: 'a
  pt_added :: ticks
  pt_eff :: cint \<comment> \<open>\<open>effectivePriority\<close>\<close>

definition Compare :: "'a prioritized_task \<Rightarrow> 'a prioritized_task \<Rightarrow> bool" where
  "Compare lhs rhs =
     (if pt_eff lhs \<noteq> pt_eff rhs then sint (pt_eff lhs) < sint (pt_eff rhs)
      else pt_order rhs < pt_order lhs)"

record 'a task_queue =
  tq_queue :: "'a prioritized_task list"
  tq_done :: bool
  tq_order :: size_t
  tq_max :: size_t
  tq_abort :: bool

definition AGING_THRESHOLD :: ticks where
  "AGING_THRESHOLD = 1000000000"

definition TaskQueue_new :: "size_t \<Rightarrow> 'a task_queue" where
  "TaskQueue_new maxQueueSize =
     \<lparr>tq_queue = [], tq_done = False, tq_order = 0, tq_max = maxQueueSize, tq_abort = False\<rparr>"

definition TaskQueue_push :: "ticks \<Rightarrow> 'a \<Rightarrow> cint \<Rightarrow> 'a task_queue \<Rightarrow> bool \<times> 'a task_queue" where
  "TaskQueue_push now task priority q =
     (if tq_done q \<or> unat (tq_max q) \<le> length (tq_queue q) then (False, q)
      else (True, q\<lparr>tq_queue := std_push_heap Compare (tq_queue q @
                 [\<lparr>pt_priority = priority, pt_order = tq_order q, pt_task = task,
                   pt_added = now, pt_eff = priority\<rparr>]),
               tq_order := tq_order q + 1\<rparr>))"

definition is_aged :: "ticks \<Rightarrow> 'a prioritized_task \<Rightarrow> bool" where
  "is_aged now item \<longleftrightarrow> now - pt_added item > AGING_THRESHOLD"

definition age_item :: "ticks \<Rightarrow> 'a prioritized_task \<Rightarrow> 'a prioritized_task" where
  "age_item now item = (if is_aged now item then item\<lparr>pt_eff := INT_MAX\<rparr> else item)"

definition TaskQueue_applyAging :: "ticks \<Rightarrow> 'a task_queue \<Rightarrow> 'a task_queue" where
  "TaskQueue_applyAging now q =
     (let anyAged = list_ex (is_aged now) (tq_queue q);
          aged = map (age_item now) (tq_queue q)
      in q\<lparr>tq_queue := if anyAged then std_make_heap Compare aged else aged\<rparr>)"

definition TaskQueue_pop :: "ticks \<Rightarrow> 'a task_queue \<Rightarrow> ('a option \<times> 'a task_queue) option" where
  "TaskQueue_pop now q =
     (if \<not> (tq_queue q \<noteq> [] \<or> tq_done q \<or> tq_abort q) then None
      else if tq_abort q then Some (None, q)
      else if tq_queue q \<noteq> [] then
        (let aged = TaskQueue_applyAging now q;
             heap = std_pop_heap Compare (tq_queue aged)
         in Some (Some (pt_task (last heap)), aged\<lparr>tq_queue := butlast heap\<rparr>))
      else Some (None, q))"

definition TaskQueue_shutdown :: "'a task_queue \<Rightarrow> 'a task_queue" where
  "TaskQueue_shutdown q = q\<lparr>tq_done := True\<rparr>"

definition TaskQueue_size :: "'a task_queue \<Rightarrow> nat" where
  "TaskQueue_size q = length (tq_queue q)"

definition TaskQueue_abort :: "'a task_queue \<Rightarrow> 'a task_queue" where
  "TaskQueue_abort q = q\<lparr>tq_abort := True\<rparr>"

section \<open>The order of the heap\<close>

interpretation cmp: strict_weak_order Compare
proof unfold_locales
  fix x y z :: "'a prioritized_task"
  show "Compare x y \<Longrightarrow> \<not> Compare y x"
    by (auto simp: Compare_def split: if_splits)
  show "\<not> Compare x y \<Longrightarrow> \<not> Compare y z \<Longrightarrow> \<not> Compare x z"
    by (auto simp: Compare_def sint_eq_iff order.strict_iff_not split: if_splits)
qed

interpretation heap: heap_algorithms Compare "std_push_heap Compare" "std_pop_heap Compare"
    "std_make_heap Compare"
  by (rule cmp.std_heap_algorithms)

section \<open>The invariant\<close>

text \<open>
  \<open>tq_inv\<close>: the vector is a heap, its length keeps the limit, and an effective priority is either
  the submitted one or the maximum. \<open>tq_ordered\<close>: the sequence numbers are distinct and below
  the next one, which holds until the counter, a \<open>size_t\<close>, wraps around. \<open>tq_clocked T\<close>: a
  raised effective priority was raised because the task had waited too long at time \<open>T\<close>.
\<close>

definition tq_inv :: "'a task_queue \<Rightarrow> bool" where
  "tq_inv q \<longleftrightarrow> is_heap Compare (tq_queue q) \<and> length (tq_queue q) \<le> unat (tq_max q) \<and>
     (\<forall>e \<in> set (tq_queue q). pt_eff e = pt_priority e \<or> pt_eff e = INT_MAX)"

definition tq_ordered :: "'a task_queue \<Rightarrow> bool" where
  "tq_ordered q \<longleftrightarrow> distinct (map pt_order (tq_queue q)) \<and>
     (\<forall>e \<in> set (tq_queue q). pt_order e < tq_order q)"

definition tq_clocked :: "ticks \<Rightarrow> 'a task_queue \<Rightarrow> bool" where
  "tq_clocked T q \<longleftrightarrow>
     (\<forall>e \<in> set (tq_queue q). pt_eff e = pt_priority e \<or> pt_eff e = INT_MAX \<and> is_aged T e)"

definition tq_items :: "'a task_queue \<Rightarrow> 'a multiset" where
  "tq_items q = image_mset pt_task (mset (tq_queue q))"

lemma age_item_simps [simp]:
  "pt_priority (age_item now e) = pt_priority e" "pt_order (age_item now e) = pt_order e"
  "pt_task (age_item now e) = pt_task e" "pt_added (age_item now e) = pt_added e"
  by (simp_all add: age_item_def)

lemma pt_eff_age_item:
  "pt_eff (age_item now e) = (if is_aged now e then INT_MAX else pt_eff e)"
  by (simp add: age_item_def)

lemma is_aged_age_item [simp]: "is_aged now (age_item t e) = is_aged now e"
  by (simp add: is_aged_def)

lemma is_aged_mono: "is_aged t e \<Longrightarrow> t \<le> t' \<Longrightarrow> is_aged t' e"
  by (simp add: is_aged_def)

lemma mset_applyAging:
  "mset (tq_queue (TaskQueue_applyAging now q)) = image_mset (age_item now) (mset (tq_queue q))"
  by (simp add: TaskQueue_applyAging_def Let_def heap.mset_make)

lemma applyAging_fields [simp]:
  "tq_done (TaskQueue_applyAging now q) = tq_done q"
  "tq_order (TaskQueue_applyAging now q) = tq_order q"
  "tq_max (TaskQueue_applyAging now q) = tq_max q"
  "tq_abort (TaskQueue_applyAging now q) = tq_abort q"
  "length (tq_queue (TaskQueue_applyAging now q)) = length (tq_queue q)"
  by (simp_all add: TaskQueue_applyAging_def Let_def length_eq_of_mset [OF heap.mset_make])

lemma applyAging_neq_Nil [simp]: "tq_queue (TaskQueue_applyAging now q) = [] \<longleftrightarrow> tq_queue q = []"
  by (metis applyAging_fields(5) length_0_conv)

lemma applyAging_not_aged:
  "\<not> list_ex (is_aged now) (tq_queue q) \<Longrightarrow> TaskQueue_applyAging now q = q"
  by (simp add: TaskQueue_applyAging_def Let_def list_ex_iff age_item_def map_idI)

lemma applyAging_heap: "tq_inv q \<Longrightarrow> is_heap Compare (tq_queue (TaskQueue_applyAging now q))"
  by (cases "list_ex (is_aged now) (tq_queue q)")
    (simp_all add: applyAging_not_aged tq_inv_def, simp add: TaskQueue_applyAging_def heap.heap_make)

text \<open>What a successful \<open>pop\<close> takes out and leaves, as an entry and a queue.\<close>

definition tq_top :: "ticks \<Rightarrow> 'a task_queue \<Rightarrow> 'a prioritized_task" where
  "tq_top now q = last (std_pop_heap Compare (tq_queue (TaskQueue_applyAging now q)))"

definition tq_rest :: "ticks \<Rightarrow> 'a task_queue \<Rightarrow> 'a task_queue" where
  "tq_rest now q = (TaskQueue_applyAging now q)
     \<lparr>tq_queue := butlast (std_pop_heap Compare (tq_queue (TaskQueue_applyAging now q)))\<rparr>"

lemma tq_rest_fields [simp]:
  "tq_done (tq_rest now q) = tq_done q" "tq_order (tq_rest now q) = tq_order q"
  "tq_max (tq_rest now q) = tq_max q" "tq_abort (tq_rest now q) = tq_abort q"
  by (simp_all add: tq_rest_def)

lemma TaskQueue_pop_cases:
  "TaskQueue_pop now q =
     (if tq_abort q then Some (None, q)
      else if tq_queue q \<noteq> [] then Some (Some (pt_task (tq_top now q)), tq_rest now q)
      else if tq_done q then Some (None, q) else None)"
  by (simp add: TaskQueue_pop_def Let_def tq_top_def tq_rest_def)

lemma mset_tq_split:
  "tq_queue q \<noteq> [] \<Longrightarrow>
    image_mset (age_item now) (mset (tq_queue q)) =
      add_mset (tq_top now q) (mset (tq_queue (tq_rest now q)))"
  using heap.mset_pop_split [of "tq_queue (TaskQueue_applyAging now q)"]
  by (simp add: tq_top_def tq_rest_def mset_applyAging)

lemma tq_top_greatest:
  assumes "tq_inv q" and "e \<in> set (tq_queue q)"
  shows "\<not> Compare (tq_top now q) (age_item now e)"
proof -
  have "age_item now e \<in># mset (tq_queue (TaskQueue_applyAging now q))"
    using assms(2) by (simp add: mset_applyAging)
  then show ?thesis
    using heap.pop_last_greatest [OF applyAging_heap [OF assms(1)]] assms(2)
    unfolding tq_top_def by (metis applyAging_neq_Nil list.set_cases neq_Nil_conv)
qed

lemma tq_top_in: "tq_queue q \<noteq> [] \<Longrightarrow> \<exists>e \<in> set (tq_queue q). tq_top now q = age_item now e"
proof -
  assume "tq_queue q \<noteq> []"
  then have "tq_top now q \<in># image_mset (age_item now) (mset (tq_queue q))"
    by (simp add: mset_tq_split)
  then show ?thesis by auto
qed

lemma tq_rest_in: "e \<in> set (tq_queue (tq_rest now q)) \<Longrightarrow> \<exists>e' \<in> set (tq_queue q). e = age_item now e'"
proof -
  assume e: "e \<in> set (tq_queue (tq_rest now q))"
  have "tq_queue q \<noteq> []"
  proof
    assume "tq_queue q = []"
    then have "tq_queue (tq_rest now q) = []"
      by (simp add: tq_rest_def flip: length_0_conv)
    then show False using e by simp
  qed
  then have "e \<in># image_mset (age_item now) (mset (tq_queue q))"
    using e by (simp add: mset_tq_split)
  then show ?thesis by auto
qed

lemma length_tq_rest: "length (tq_queue (tq_rest now q)) = length (tq_queue q) - 1"
  by (simp add: tq_rest_def)

section \<open>The operations keep the invariant\<close>

lemma tq_inv_new: "tq_inv (TaskQueue_new m)" "tq_ordered (TaskQueue_new m)" "tq_clocked T (TaskQueue_new m)"
  by (simp_all add: tq_inv_def tq_ordered_def tq_clocked_def TaskQueue_new_def)

lemma TaskQueue_new_max [simp]: "tq_max (TaskQueue_new m) = m"
  by (simp add: TaskQueue_new_def)

lemma mset_push:
  "TaskQueue_push now x p q = (True, q') \<Longrightarrow>
    mset (tq_queue q') = add_mset \<lparr>pt_priority = p, pt_order = tq_order q, pt_task = x,
      pt_added = now, pt_eff = p\<rparr> (mset (tq_queue q))"
  by (auto simp: TaskQueue_push_def heap.mset_push split: if_splits)

lemma set_push:
  "TaskQueue_push now x p q = (True, q') \<Longrightarrow>
    set (tq_queue q') = insert \<lparr>pt_priority = p, pt_order = tq_order q, pt_task = x,
      pt_added = now, pt_eff = p\<rparr> (set (tq_queue q))"
  by (metis mset_push set_mset_add_mset_insert set_mset_mset)

lemma push_accepts_iff:
  "fst (TaskQueue_push now x p q) \<longleftrightarrow> \<not> tq_done q \<and> length (tq_queue q) < unat (tq_max q)"
  by (auto simp: TaskQueue_push_def)

lemma push_refused: "\<not> fst (TaskQueue_push now x p q) \<Longrightarrow> snd (TaskQueue_push now x p q) = q"
  by (auto simp: TaskQueue_push_def)

lemma push_cases:
  assumes "TaskQueue_push now x p q = (ok, q')"
  obtains (refused) "\<not> ok" "q' = q" | (accepted) "ok" "TaskQueue_push now x p q = (True, q')"
    "length (tq_queue q) < unat (tq_max q)" "\<not> tq_done q" "tq_order q' = tq_order q + 1"
    "tq_max q' = tq_max q" "tq_done q' = tq_done q" "tq_abort q' = tq_abort q"
proof (cases "tq_done q \<or> unat (tq_max q) \<le> length (tq_queue q)")
  case True
  then show thesis using assms by (intro refused) (simp_all add: TaskQueue_push_def)
next
  case False
  then show thesis using assms by (intro accepted) (auto simp: TaskQueue_push_def)
qed

lemma tq_inv_push:
  assumes "tq_inv q" and "TaskQueue_push now x p q = (ok, q')"
  shows "tq_inv q'"
  using assms(2)
proof (cases rule: push_cases)
  case refused
  then show ?thesis using assms(1) by simp
next
  case accepted
  have "is_heap Compare (tq_queue q')"
    using accepted(2) assms(1)
    by (auto simp: TaskQueue_push_def tq_inv_def heap.heap_push split: if_splits)
  moreover have "length (tq_queue q') = Suc (length (tq_queue q))"
    using arg_cong [OF mset_push [OF accepted(2)], of size] by simp
  ultimately show ?thesis
    using assms(1) set_push [OF accepted(2)] accepted by (auto simp: tq_inv_def)
qed

lemma tq_inv_rest: "tq_inv q \<Longrightarrow> tq_inv (tq_rest now q)"
proof -
  assume inv: "tq_inv q"
  have "is_heap Compare (tq_queue (tq_rest now q))"
    using heap.heap_pop [OF applyAging_heap [OF inv]] by (simp add: tq_rest_def)
  then show ?thesis
    using inv tq_rest_in [of _ now q] by (fastforce simp: tq_inv_def length_tq_rest pt_eff_age_item)
qed

lemma tq_clocked_rest:
  assumes "tq_clocked T q" and "T \<le> now"
  shows "tq_clocked now (tq_rest now q)"
  unfolding tq_clocked_def
proof
  fix e
  assume "e \<in> set (tq_queue (tq_rest now q))"
  then obtain e' where "e' \<in> set (tq_queue q)" "e = age_item now e'" using tq_rest_in by blast
  then show "pt_eff e = pt_priority e \<or> pt_eff e = INT_MAX \<and> is_aged now e"
    using assms by (auto simp: tq_clocked_def pt_eff_age_item dest: is_aged_mono)
qed

lemma tq_ordered_rest:
  assumes "tq_ordered q"
  shows "tq_ordered (tq_rest now q)"
proof (cases "tq_queue q = []")
  case True
  then show ?thesis
    using assms length_tq_rest [of now q] by (simp add: tq_ordered_def)
next
  case False
  have "image_mset pt_order (image_mset (age_item now) (mset (tq_queue q))) = mset (map pt_order (tq_queue q))"
    by (simp add: multiset.map_comp o_def)
  then have "add_mset (pt_order (tq_top now q)) (mset (map pt_order (tq_queue (tq_rest now q)))) =
      mset (map pt_order (tq_queue q))"
    by (simp add: mset_tq_split [OF False])
  then have "distinct (pt_order (tq_top now q) # map pt_order (tq_queue (tq_rest now q)))"
    using assms by (metis mset.simps(2) mset_eq_imp_distinct_iff tq_ordered_def)
  moreover have "pt_order e < tq_order q" if "e \<in> set (tq_queue (tq_rest now q))" for e
    using assms tq_rest_in [OF that] by (auto simp: tq_ordered_def)
  ultimately show ?thesis by (simp add: tq_ordered_def)
qed

lemma tq_ordered_push:
  assumes "tq_ordered q" and "tq_order q + 1 \<noteq> 0" and "TaskQueue_push now x p q = (ok, q')"
  shows "tq_ordered q'"
  using assms(3)
proof (cases rule: push_cases)
  case refused
  then show ?thesis using assms(1) by simp
next
  case accepted
  have lt: "tq_order q < tq_order q + 1"
    using assms(2) by (rule word_less_succ)
  have "mset (map pt_order (tq_queue q')) = mset (tq_order q # map pt_order (tq_queue q))"
    by (simp add: mset_push [OF accepted(2)])
  moreover have "distinct (tq_order q # map pt_order (tq_queue q))"
    using assms(1) by (auto simp: tq_ordered_def)
  ultimately have "distinct (map pt_order (tq_queue q'))"
    by (metis mset_eq_imp_distinct_iff)
  then show ?thesis
    using assms(1) set_push [OF accepted(2)] lt accepted(5)
    by (auto simp: tq_ordered_def dest: less_trans)
qed

section \<open>Sequences of operations\<close>

text \<open>
  The operations the mutex serialises, as data; a \<open>pop\<close> whose wait predicate is false has no
  result and leaves the queue as it is (the caller sleeps and tries again later).
\<close>

datatype 'a tq_op = Op_push ticks 'a cint | Op_pop ticks | Op_shutdown | Op_abort
datatype 'a tq_out = Out_push bool | Out_pop "'a option" | Out_unit

fun TaskQueue_step :: "'a tq_op \<Rightarrow> 'a task_queue \<Rightarrow> ('a tq_out \<times> 'a task_queue) option" where
  "TaskQueue_step (Op_push now x p) q = (let (ok, q') = TaskQueue_push now x p q in Some (Out_push ok, q'))"
| "TaskQueue_step (Op_pop now) q = map_option (\<lambda>(r, q'). (Out_pop r, q')) (TaskQueue_pop now q)"
| "TaskQueue_step Op_shutdown q = Some (Out_unit, TaskQueue_shutdown q)"
| "TaskQueue_step Op_abort q = Some (Out_unit, TaskQueue_abort q)"

fun TaskQueue_run :: "'a tq_op list \<Rightarrow> 'a task_queue \<Rightarrow> 'a tq_out list \<times> 'a task_queue" where
  "TaskQueue_run [] q = ([], q)"
| "TaskQueue_run (op # ops) q =
     (case TaskQueue_step op q of None \<Rightarrow> TaskQueue_run ops q
      | Some (out, q') \<Rightarrow> (let (outs, q'') = TaskQueue_run ops q' in (out # outs, q'')))"

fun op_after :: "ticks \<Rightarrow> 'a tq_op \<Rightarrow> bool" where
  "op_after T (Op_push now x p) = (T \<le> now)"
| "op_after T (Op_pop now) = (T \<le> now)"
| "op_after T _ = True"

fun is_push :: "'a tq_op \<Rightarrow> bool" where
  "is_push (Op_push now x p) = True"
| "is_push _ = False"

fun is_pop :: "'a tq_op \<Rightarrow> bool" where
  "is_pop (Op_pop now) = True"
| "is_pop _ = False"

lemma pop_rest:
  assumes "TaskQueue_pop now q = Some (r, q')"
  obtains (no_task) "r = None" "q' = q" "tq_abort q \<or> tq_queue q = []"
    | (task) "r = Some (pt_task (tq_top now q))" "q' = tq_rest now q" "tq_queue q \<noteq> []" "\<not> tq_abort q"
  using assms by (auto simp: TaskQueue_pop_cases split: if_splits)

lemma tq_inv_pop: "tq_inv q \<Longrightarrow> TaskQueue_pop now q = Some (r, q') \<Longrightarrow> tq_inv q'"
  by (elim pop_rest) (simp_all add: tq_inv_rest)

lemma tq_inv_flags [simp]:
  "tq_inv (TaskQueue_shutdown q) = tq_inv q" "tq_inv (TaskQueue_abort q) = tq_inv q"
  by (simp_all add: tq_inv_def TaskQueue_shutdown_def TaskQueue_abort_def)

lemma tq_inv_step: "tq_inv q \<Longrightarrow> TaskQueue_step op q = Some (out, q') \<Longrightarrow> tq_inv q'"
  by (cases op) (auto intro: tq_inv_push tq_inv_pop split: prod.splits)

text \<open>
  C34. In every state the queue can reach from its constructor, by any sequence of operations, the
  vector is a heap for \<open>Compare\<close>, holds at most \<open>maxQueueSize\<close> tasks, and no task's effective
  priority is anything but its own or the maximum.
\<close>

theorem TaskQueue_invariant:
  "tq_inv (snd (TaskQueue_run ops (TaskQueue_new m))) \<and>
   length (tq_queue (snd (TaskQueue_run ops (TaskQueue_new m)))) \<le> unat m"
proof -
  have "tq_inv (snd (TaskQueue_run ops q)) \<and> tq_max (snd (TaskQueue_run ops q)) = tq_max q"
    if "tq_inv q" for q :: "'a task_queue"
    using that
  proof (induction ops arbitrary: q)
    case (Cons op ops)
    show ?case
    proof (cases "TaskQueue_step op q")
      case (Some p)
      obtain out q' where p: "p = (out, q')" by force
      have "tq_max q' = tq_max q"
        using Some p by (cases op) (auto simp: TaskQueue_shutdown_def TaskQueue_abort_def
            elim!: pop_rest push_cases split: prod.splits)
      then show ?thesis
        using Some p Cons.IH [of q'] tq_inv_step [OF Cons.prems] by (auto split: prod.splits)
    qed (simp add: Cons)
  qed simp
  from this [OF tq_inv_new(1) [of m]] show ?thesis
    by (auto simp: tq_inv_def)
qed

section \<open>The scheduling rule\<close>

text \<open>
  What the queue promises, without the heap: at time \<open>now\<close> a task that has waited longer than the
  threshold has the highest priority there is, any other task the priority it was submitted
  with, and among equals the one submitted first is served first.
\<close>

definition sched_priority :: "ticks \<Rightarrow> 'a prioritized_task \<Rightarrow> int" where
  "sched_priority now e = (if is_aged now e then sint INT_MAX else sint (pt_priority e))"

definition served_before :: "ticks \<Rightarrow> 'a prioritized_task \<Rightarrow> 'a prioritized_task \<Rightarrow> bool" where
  "served_before now x y \<longleftrightarrow> sched_priority now y < sched_priority now x \<or>
     sched_priority now x = sched_priority now y \<and> pt_order x \<le> pt_order y"

text \<open>An entry as it was submitted, and the queue as a bag of those.\<close>

definition submitted :: "'a prioritized_task \<Rightarrow> 'a prioritized_task" where
  "submitted e = e\<lparr>pt_eff := pt_priority e\<rparr>"

record 'a sched =
  sc_tasks :: "'a prioritized_task multiset"
  sc_closed :: bool
  sc_next :: size_t
  sc_limit :: nat
  sc_aborted :: bool

definition tq_abs :: "'a task_queue \<Rightarrow> 'a sched" where
  "tq_abs q = \<lparr>sc_tasks = image_mset submitted (mset (tq_queue q)), sc_closed = tq_done q,
     sc_next = tq_order q, sc_limit = unat (tq_max q), sc_aborted = tq_abort q\<rparr>"

inductive sched_step :: "'a sched \<Rightarrow> 'a tq_op \<Rightarrow> 'a tq_out \<Rightarrow> 'a sched \<Rightarrow> bool" where
  accept: "\<not> sc_closed s \<Longrightarrow> size (sc_tasks s) < sc_limit s \<Longrightarrow>
    sched_step s (Op_push now x p) (Out_push True)
      (s\<lparr>sc_tasks := add_mset \<lparr>pt_priority = p, pt_order = sc_next s, pt_task = x, pt_added = now,
           pt_eff = p\<rparr> (sc_tasks s), sc_next := sc_next s + 1\<rparr>)"
| refuse: "sc_closed s \<or> sc_limit s \<le> size (sc_tasks s) \<Longrightarrow>
    sched_step s (Op_push now x p) (Out_push False) s"
| serve: "\<not> sc_aborted s \<Longrightarrow> sc_tasks s = add_mset e M \<Longrightarrow> \<forall>y \<in># M. served_before now e y \<Longrightarrow>
    sched_step s (Op_pop now) (Out_pop (Some (pt_task e))) (s\<lparr>sc_tasks := M\<rparr>)"
| drained: "sc_closed s \<Longrightarrow> sc_tasks s = {#} \<Longrightarrow> sched_step s (Op_pop now) (Out_pop None) s"
| aborted: "sc_aborted s \<Longrightarrow> sched_step s (Op_pop now) (Out_pop None) s"
| close: "sched_step s Op_shutdown Out_unit (s\<lparr>sc_closed := True\<rparr>)"
| abort: "sched_step s Op_abort Out_unit (s\<lparr>sc_aborted := True\<rparr>)"

inductive_cases sched_popE: "sched_step s (Op_pop now) out s'"

lemma submitted_simps [simp]:
  "pt_priority (submitted e) = pt_priority e" "pt_order (submitted e) = pt_order e"
  "pt_task (submitted e) = pt_task e" "pt_added (submitted e) = pt_added e"
  "submitted (age_item now e) = submitted e"
  by (simp_all add: submitted_def age_item_def)

lemma served_before_submitted [simp]:
  "served_before now (submitted x) y = served_before now x y"
  "served_before now x (submitted y) = served_before now x y"
  by (simp_all add: served_before_def sched_priority_def is_aged_def)

lemma pt_eff_clocked:
  assumes "tq_clocked T q" and "T \<le> now" and "e \<in> set (tq_queue q)"
  shows "sint (pt_eff (age_item now e)) = sched_priority now e"
proof (cases "is_aged now e")
  case True
  then show ?thesis by (simp add: pt_eff_age_item sched_priority_def)
next
  case False
  then have "\<not> is_aged T e" using assms(2) is_aged_mono by blast
  then have "pt_eff e = pt_priority e" using assms(1,3) by (auto simp: tq_clocked_def)
  then show ?thesis using False by (simp add: pt_eff_age_item sched_priority_def)
qed

lemma sched_priority_age_item [simp]: "sched_priority now (age_item t e) = sched_priority now e"
  by (simp add: sched_priority_def is_aged_def)

text \<open>The entry that \<open>pop\<close> takes is the one the scheduling rule serves.\<close>

lemma tq_top_served:
  assumes "tq_inv q" and "tq_clocked T q" and "T \<le> now" and "y \<in> set (tq_queue q)"
  shows "served_before now (tq_top now q) y"
proof -
  from assms(4) have "tq_queue q \<noteq> []" by auto
  then obtain x where x: "x \<in> set (tq_queue q)" and top: "tq_top now q = age_item now x"
    using tq_top_in by blast
  have "\<not> Compare (age_item now x) (age_item now y)"
    using tq_top_greatest assms(1,4) top by metis
  moreover note pt_eff_clocked [OF assms(2,3) x] pt_eff_clocked [OF assms(2-4)]
  ultimately show ?thesis
    unfolding top served_before_def Compare_def
    by (auto simp: sint_eq_iff [symmetric] split: if_splits)
qed

lemma push_refines:
  assumes "TaskQueue_push now x p q = (ok, q')"
  shows "sched_step (tq_abs q) (Op_push now x p) (Out_push ok) (tq_abs q')"
  using assms
proof (cases rule: push_cases)
  case refused
  then have "tq_done q \<or> unat (tq_max q) \<le> length (tq_queue q)"
    using assms push_accepts_iff [of now x p q] by auto
  then show ?thesis
    using refused assms by (auto simp: tq_abs_def intro!: sched_step.refuse)
next
  case accepted
  then have "tq_abs q' = (tq_abs q)\<lparr>sc_tasks := add_mset \<lparr>pt_priority = p, pt_order = tq_order q,
      pt_task = x, pt_added = now, pt_eff = p\<rparr> (sc_tasks (tq_abs q)), sc_next := tq_order q + 1\<rparr>"
    by (simp add: tq_abs_def mset_push [OF accepted(2)] submitted_def)
  then show ?thesis
    using sched_step.accept [of "tq_abs q" now x p] accepted by (simp add: tq_abs_def)
qed

lemma pop_serves:
  assumes "tq_inv q" and "tq_clocked T q" and "T \<le> now" and "\<not> tq_abort q" and "tq_queue q \<noteq> []"
  shows "sched_step (tq_abs q) (Op_pop now) (Out_pop (Some (pt_task (tq_top now q)))) (tq_abs (tq_rest now q))"
proof -
  let ?e = "submitted (tq_top now q)"
  let ?M = "image_mset submitted (mset (tq_queue (tq_rest now q)))"
  have split: "sc_tasks (tq_abs q) = add_mset ?e ?M"
    using arg_cong [OF mset_tq_split [OF assms(5), of now], of "image_mset submitted"]
    by (simp add: tq_abs_def multiset.map_comp o_def)
  have first: "\<forall>y \<in># ?M. served_before now ?e y"
  proof
    fix y
    assume "y \<in># ?M"
    then obtain z where z: "z \<in> set (tq_queue (tq_rest now q))" "y = submitted z" by auto
    from tq_rest_in [OF z(1)] obtain e where e: "e \<in> set (tq_queue q)" "z = age_item now e"
      by blast
    have "served_before now (tq_top now q) e" by (rule tq_top_served [OF assms(1-3) e(1)])
    then show "served_before now ?e y" using z e by simp
  qed
  have "\<not> sc_aborted (tq_abs q)" using assms(4) by (simp add: tq_abs_def)
  from sched_step.serve [OF this split first]
  have "sched_step (tq_abs q) (Op_pop now) (Out_pop (Some (pt_task ?e))) ((tq_abs q)\<lparr>sc_tasks := ?M\<rparr>)" .
  moreover have "tq_abs (tq_rest now q) = (tq_abs q)\<lparr>sc_tasks := ?M\<rparr>"
    by (simp add: tq_abs_def)
  ultimately show ?thesis by simp
qed

text \<open>
  The heap implementation with its in-place ageing refines the scheduling rule: when the clock
  does not run backwards, every operation of the queue is a step of the abstract scheduler on
  the bag of submitted tasks, with the same result; and it waits exactly when the scheduler
  has no step to offer.
\<close>

theorem TaskQueue_refines_scheduler:
  assumes "tq_inv q" and "tq_clocked T q" and "op_after T op"
  shows "case TaskQueue_step op q of
      Some (out, q') \<Rightarrow> sched_step (tq_abs q) op out (tq_abs q')
    | None \<Rightarrow> \<not> (\<exists>out s'. sched_step (tq_abs q) op out s')"
proof (cases op)
  case (Op_push now x p)
  then show ?thesis by (simp add: push_refines split: prod.splits)
next
  case (Op_pop now)
  consider (aborted) "tq_abort q" | (task) "\<not> tq_abort q" "tq_queue q \<noteq> []"
    | (empty) "\<not> tq_abort q" "tq_queue q = []" by blast
  then show ?thesis
  proof cases
    case aborted
    then show ?thesis
      using Op_pop by (simp add: TaskQueue_pop_cases tq_abs_def sched_step.aborted)
  next
    case task
    then show ?thesis
      using pop_serves [OF assms(1,2) _ task] assms(3) Op_pop by (simp add: TaskQueue_pop_cases)
  next
    case empty
    then show ?thesis
      using Op_pop by (auto simp: TaskQueue_pop_cases tq_abs_def sched_step.drained elim: sched_popE)
  qed
next
  case Op_shutdown
  then show ?thesis
    using sched_step.close [of "tq_abs q"] by (simp add: tq_abs_def TaskQueue_shutdown_def)
next
  case Op_abort
  then show ?thesis
    using sched_step.abort [of "tq_abs q"] by (simp add: tq_abs_def TaskQueue_abort_def)
qed

lemma TaskQueue_refines_scheduler_witness:
  "sched_step (tq_abs \<lparr>tq_queue = [\<lparr>pt_priority = 5, pt_order = 1, pt_task = ''high'', pt_added = 10, pt_eff = 5\<rparr>,
       \<lparr>pt_priority = 0, pt_order = 0, pt_task = ''old'', pt_added = 0, pt_eff = 0\<rparr>],
     tq_done = False, tq_order = 2, tq_max = 4, tq_abort = False\<rparr>)
   (Op_pop 1000000005) (Out_pop (Some ''old''))
   (tq_abs \<lparr>tq_queue = [\<lparr>pt_priority = 5, pt_order = 1, pt_task = ''high'', pt_added = 10, pt_eff = 5\<rparr>],
     tq_done = False, tq_order = 2, tq_max = 4, tq_abort = False\<rparr>)"
proof -
  let ?q = "\<lparr>tq_queue = [\<lparr>pt_priority = 5, pt_order = 1, pt_task = ''high'', pt_added = 10, pt_eff = 5\<rparr>,
       \<lparr>pt_priority = 0, pt_order = 0, pt_task = ''old'', pt_added = 0, pt_eff = 0\<rparr>],
     tq_done = False, tq_order = 2, tq_max = 4, tq_abort = False\<rparr>"
  have "tq_inv ?q" and "tq_clocked 20 ?q" by code_simp+
  moreover have "TaskQueue_step (Op_pop 1000000005) ?q = Some (Out_pop (Some ''old''),
     \<lparr>tq_queue = [\<lparr>pt_priority = 5, pt_order = 1, pt_task = ''high'', pt_added = 10, pt_eff = 5\<rparr>],
       tq_done = False, tq_order = 2, tq_max = 4, tq_abort = False\<rparr>)"
    by code_simp
  ultimately show ?thesis
    using TaskQueue_refines_scheduler [of ?q 20 "Op_pop 1000000005"] by simp
qed

section \<open>Ageing and starvation\<close>

text \<open>The tasks in the queue that were submitted before sequence number \<open>o\<close>.\<close>

definition older :: "size_t \<Rightarrow> 'a task_queue \<Rightarrow> nat" where
  "older n q = length (filter (\<lambda>y. pt_order y < n) (tq_queue q))"

lemma older_mset: "older n q = size (filter_mset (\<lambda>y. pt_order y < n) (mset (tq_queue q)))"
  unfolding older_def by (simp flip: size_mset)

lemma older_image: "size (filter_mset (\<lambda>y. pt_order y < n) (image_mset (age_item now) M)) =
    size (filter_mset (\<lambda>y. pt_order y < n) M)"
  by (induction M) auto

lemma aged_top_order:
  assumes "tq_inv q" and "e \<in> set (tq_queue q)" and "is_aged now e"
  shows "pt_order (tq_top now q) \<le> pt_order e"
proof -
  have nc: "\<not> Compare (tq_top now q) (age_item now e)"
    using tq_top_greatest assms(1,2) by blast
  have eff: "pt_eff (age_item now e) = INT_MAX"
    using assms(3) by (simp add: pt_eff_age_item)
  have "pt_eff (tq_top now q) = INT_MAX"
  proof (rule ccontr)
    assume "pt_eff (tq_top now q) \<noteq> INT_MAX"
    then have "sint (pt_eff (tq_top now q)) < sint INT_MAX"
      using sint_le_INT_MAX [of "pt_eff (tq_top now q)"] sint_max_iff by force
    then show False using nc eff \<open>pt_eff (tq_top now q) \<noteq> INT_MAX\<close> by (simp add: Compare_def)
  qed
  then show ?thesis using nc eff by (simp add: Compare_def)
qed

lemma tq_rest_keeps:
  assumes "e \<in> set (tq_queue q)" and "pt_order e \<noteq> pt_order (tq_top now q)"
  shows "age_item now e \<in> set (tq_queue (tq_rest now q))"
proof -
  have "tq_queue q \<noteq> []" using assms(1) by auto
  moreover have "age_item now e \<in># image_mset (age_item now) (mset (tq_queue q))"
    using assms(1) by simp
  ultimately have "age_item now e \<in># add_mset (tq_top now q) (mset (tq_queue (tq_rest now q)))"
    by (simp add: mset_tq_split)
  moreover have "age_item now e \<noteq> tq_top now q"
    using assms(2) by (metis age_item_simps(2))
  ultimately show ?thesis by simp
qed

lemma older_rest:
  assumes "tq_queue q \<noteq> []" and "pt_order (tq_top now q) < n"
  shows "older n q = Suc (older n (tq_rest now q))"
  using arg_cong [OF mset_tq_split [OF assms(1), of now],
      of "\<lambda>M. size (filter_mset (\<lambda>y. pt_order y < n) M)"] assms(2)
  by (simp add: older_mset older_image)

lemma ordered_unique:
  "tq_ordered q \<Longrightarrow> x \<in> set (tq_queue q) \<Longrightarrow> y \<in> set (tq_queue q) \<Longrightarrow> pt_order x = pt_order y \<Longrightarrow> x = y"
  unfolding tq_ordered_def by (metis distinct_map inj_onD)

text \<open>One \<open>pop\<close>: it serves the aged task, or one of those submitted before it.\<close>

lemma pop_aged:
  assumes "tq_inv q" "tq_ordered q" "\<not> tq_abort q" "e \<in> set (tq_queue q)" "is_aged now e"
  obtains (served) q' where "TaskQueue_pop now q = Some (Some (pt_task e), q')"
    | (overtaken) x where "TaskQueue_pop now q = Some (Some x, tq_rest now q)"
        "age_item now e \<in> set (tq_queue (tq_rest now q))"
        "older (pt_order e) q = Suc (older (pt_order e) (tq_rest now q))"
proof -
  have ne: "tq_queue q \<noteq> []" using assms(4) by auto
  then have pop: "TaskQueue_pop now q = Some (Some (pt_task (tq_top now q)), tq_rest now q)"
    using assms(3) by (simp add: TaskQueue_pop_cases)
  obtain x where x: "x \<in> set (tq_queue q)" "tq_top now q = age_item now x"
    using tq_top_in [OF ne] by blast
  show thesis
  proof (cases "pt_order (tq_top now q) = pt_order e")
    case True
    then have "x = e" using ordered_unique [OF assms(2) x(1) assms(4)] x(2) by simp
    then show thesis using served pop x by simp
  next
    case False
    then have "pt_order (tq_top now q) < pt_order e"
      using aged_top_order [OF assms(1,4,5)] by simp
    then show thesis
      using overtaken [OF pop] tq_rest_keeps [OF assms(4)] older_rest [OF ne] False by metis
  qed
qed

lemma push_keeps:
  assumes "TaskQueue_push now x p q = (ok, q')" and "n \<le> tq_order q"
  shows "set (tq_queue q) \<subseteq> set (tq_queue q')" and "older n q' = older n q"
proof -
  have "set (tq_queue q) \<subseteq> set (tq_queue q') \<and> older n q' = older n q"
    using assms(1)
  proof (cases rule: push_cases)
    case accepted
    then show ?thesis
      using assms(2) mset_push [OF accepted(2)] set_push [OF accepted(2)]
      by (auto simp: older_mset not_less [symmetric])
  qed simp
  then show "set (tq_queue q) \<subseteq> set (tq_queue q')" and "older n q' = older n q" by simp_all
qed

lemma flags_keep [simp]:
  "tq_queue (TaskQueue_shutdown q) = tq_queue q" "tq_order (TaskQueue_shutdown q) = tq_order q"
  "tq_abort (TaskQueue_shutdown q) = tq_abort q" "older n (TaskQueue_shutdown q) = older n q"
  "tq_ordered (TaskQueue_shutdown q) = tq_ordered q" "tq_done (TaskQueue_shutdown q)"
  by (simp_all add: TaskQueue_shutdown_def older_def tq_ordered_def)

text \<open>
  C22. No task starves: once a task has waited longer than the threshold, whatever is submitted
  after it and with whatever priority, it is returned by one of the next \<open>pop\<close>s, as soon as
  there are more of them than tasks in the queue that were submitted before it (no abort, and
  fewer than \<open>2 ^ 64\<close> submissions in all, so that the sequence counter does not wrap around).
\<close>

theorem TaskQueue_no_starvation:
  assumes "tq_inv q" and "tq_ordered q" and "\<not> tq_abort q"
    and "e \<in> set (tq_queue q)" and "is_aged T e"
    and "\<forall>now. Op_pop now \<in> set ops \<longrightarrow> T \<le> now" and "Op_abort \<notin> set ops"
    and "unat (tq_order q) + length (filter is_push ops) < 2 ^ 64"
    and "older (pt_order e) q < length (filter is_pop ops)"
  shows "Out_pop (Some (pt_task e)) \<in> set (fst (TaskQueue_run ops q))"
  using assms
proof (induction ops arbitrary: q e)
  case (Cons op ops)
  have lt: "pt_order e < tq_order q" using Cons.prems(2,4) by (simp add: tq_ordered_def)
  show ?case
  proof (cases op)
    case (Op_push now x p)
    obtain ok q' where push: "TaskQueue_push now x p q = (ok, q')" by force
    have nz: "tq_order q + 1 \<noteq> 0"
      using size_t_overflow [of "tq_order q"] Cons.prems(8) Op_push by auto
    have "unat (tq_order q') \<le> Suc (unat (tq_order q)) \<and> tq_abort q' = tq_abort q"
      using push by (cases rule: push_cases) (use nz unatSuc [of "tq_order q"] in \<open>auto simp: add.commute\<close>)
    then have "Out_pop (Some (pt_task e)) \<in> set (fst (TaskQueue_run ops q'))"
      using Cons.prems Op_push push_keeps [OF push] lt
      by (intro Cons.IH) (auto intro: tq_inv_push [OF _ push] tq_ordered_push [OF _ nz push])
    then show ?thesis using Op_push push by (auto split: prod.splits)
  next
    case (Op_pop now)
    then have "is_aged now e" using Cons.prems(5,6) is_aged_mono by auto
    from Cons.prems(1-4) this show ?thesis
    proof (cases rule: pop_aged)
      case (served q')
      then show ?thesis using Op_pop by (auto split: prod.splits)
    next
      case (overtaken x)
      have "Out_pop (Some (pt_task (age_item now e))) \<in> set (fst (TaskQueue_run ops (tq_rest now q)))"
        using Cons.prems Op_pop overtaken
        by (intro Cons.IH) (auto intro: tq_inv_rest tq_ordered_rest)
      then show ?thesis using Op_pop overtaken by (auto split: prod.splits)
    qed
  next
    case Op_shutdown
    have "Out_pop (Some (pt_task e)) \<in> set (fst (TaskQueue_run ops (TaskQueue_shutdown q)))"
      using Cons.prems Op_shutdown by (intro Cons.IH) auto
    then show ?thesis using Op_shutdown by (auto split: prod.splits)
  next
    case Op_abort
    then show ?thesis using Cons.prems(7) by simp
  qed
qed simp

lemma TaskQueue_no_starvation_witness:
  "Out_pop (Some ''old'') \<in> set (fst (TaskQueue_run
     [Op_push 2000000000 ''late'' INT_MAX, Op_pop 2000000000, Op_pop 2000000001]
     \<lparr>tq_queue = [\<lparr>pt_priority = 7, pt_order = 0, pt_task = ''first'', pt_added = 0, pt_eff = 7\<rparr>,
        \<lparr>pt_priority = 0, pt_order = 1, pt_task = ''old'', pt_added = 5, pt_eff = 0\<rparr>],
      tq_done = False, tq_order = 2, tq_max = 4, tq_abort = False\<rparr>))"
proof -
  let ?e = "\<lparr>pt_priority = 0, pt_order = 1, pt_task = ''old'', pt_added = 5, pt_eff = 0\<rparr>"
  let ?q = "\<lparr>tq_queue = [\<lparr>pt_priority = 7, pt_order = 0, pt_task = ''first'', pt_added = 0, pt_eff = 7\<rparr>, ?e],
      tq_done = False, tq_order = 2, tq_max = 4, tq_abort = False\<rparr>"
  let ?ops = "[Op_push 2000000000 ''late'' INT_MAX, Op_pop 2000000000, Op_pop 2000000001]"
  have "Out_pop (Some (pt_task ?e)) \<in> set (fst (TaskQueue_run ?ops ?q))"
  proof (rule TaskQueue_no_starvation)
    show "tq_inv ?q" "tq_ordered ?q" "is_aged 2000000000 ?e" by code_simp+
    show "\<forall>now. Op_pop now \<in> set ?ops \<longrightarrow> 2000000000 \<le> now" by auto
    show "older (pt_order ?e) ?q < length (filter is_pop ?ops)"
      "unat (tq_order ?q) + length (filter is_push ?ops) < 2 ^ 64" by (simp_all add: older_def)
  qed simp_all
  then show ?thesis by (simp only: prioritized_task.select_convs)
qed

text \<open>
  First in, first out: of two tasks of the same priority, the later one is still in the queue
  after any \<open>pop\<close> that finds the earlier one there (the clock, like the sequence numbers,
  not running backwards).
\<close>

theorem TaskQueue_fifo:
  assumes "tq_inv q" and "tq_ordered q" and "tq_clocked T q" and "T \<le> now"
    and "x \<in> set (tq_queue q)" and "y \<in> set (tq_queue q)"
    and "pt_priority x = pt_priority y" and "pt_order x < pt_order y" and "pt_added x \<le> pt_added y"
    and "TaskQueue_pop now q = Some (r, q')"
  shows "age_item now y \<in> set (tq_queue q') \<or> q' = q"
  using assms(10)
proof (cases rule: pop_rest)
  case no_task
  then show ?thesis by simp
next
  case task
  have "served_before now (tq_top now q) x"
    by (rule tq_top_served [OF assms(1,3,4,5)])
  moreover have "sched_priority now y \<le> sched_priority now x"
    using assms(7,9) sint_le_INT_MAX by (auto simp: sched_priority_def is_aged_def)
  moreover obtain z where z: "z \<in> set (tq_queue q)" "tq_top now q = age_item now z"
    using tq_top_in task(3) by blast
  ultimately have "pt_order (tq_top now q) \<noteq> pt_order y"
    using ordered_unique [OF assms(2) z(1) assms(6)] assms(8)
    by (auto simp: served_before_def)
  then show ?thesis using tq_rest_keeps [OF assms(6)] task(2) by metis
qed

lemma TaskQueue_fifo_witness:
  "\<exists>q'. TaskQueue_pop 50 \<lparr>tq_queue = [\<lparr>pt_priority = 5, pt_order = 0, pt_task = ''a'', pt_added = 0, pt_eff = 5\<rparr>,
        \<lparr>pt_priority = 5, pt_order = 1, pt_task = ''b'', pt_added = 3, pt_eff = 5\<rparr>],
      tq_done = False, tq_order = 2, tq_max = 4, tq_abort = False\<rparr> = Some (Some ''a'', q') \<and>
    \<lparr>pt_priority = 5, pt_order = 1, pt_task = ''b'', pt_added = 3, pt_eff = 5\<rparr> \<in> set (tq_queue q')"
proof -
  let ?x = "\<lparr>pt_priority = 5, pt_order = 0, pt_task = ''a'', pt_added = 0, pt_eff = 5\<rparr>"
  let ?y = "\<lparr>pt_priority = 5, pt_order = 1, pt_task = ''b'', pt_added = 3, pt_eff = 5\<rparr>"
  let ?q = "\<lparr>tq_queue = [?x, ?y], tq_done = False, tq_order = 2, tq_max = 4, tq_abort = False\<rparr>"
  have h: "tq_inv ?q" "tq_ordered ?q" "tq_clocked 3 ?q" by code_simp+
  have p: "TaskQueue_pop 50 ?q = Some (Some ''a'', ?q\<lparr>tq_queue := [?y]\<rparr>)" by code_simp
  have "age_item 50 ?y = ?y" by code_simp
  then show ?thesis
    using TaskQueue_fifo [OF h _ _ _ _ _ _ p, of ?x ?y] p by simp
qed

section \<open>The queue as a closable queue\<close>

lemma tq_items_empty [simp]: "tq_items q = {#} \<longleftrightarrow> tq_queue q = []"
  by (simp add: tq_items_def)

lemma size_tq_items [simp]: "size (tq_items q) = length (tq_queue q)"
  by (simp add: tq_items_def)

lemma tq_items_rest:
  assumes "tq_queue q \<noteq> []"
  shows "tq_items q = add_mset (pt_task (tq_top now q)) (tq_items (tq_rest now q))"
proof -
  have "tq_items q = image_mset pt_task (image_mset (age_item now) (mset (tq_queue q)))"
    by (simp add: tq_items_def multiset.map_comp o_def)
  then show ?thesis by (simp add: mset_tq_split [OF assms] tq_items_def)
qed

interpretation tq: closable_queue tq_inv "\<lambda>q. \<not> tq_abort q" tq_done tq_items TaskQueue_pop
proof (standard, goal_cases)
  case (1 q t)
  then have ne: "tq_queue q \<noteq> []" by simp
  show ?case
  proof (intro exI conjI)
    show "TaskQueue_pop t q = Some (Some (pt_task (tq_top t q)), tq_rest t q)"
      using 1 ne by (simp add: TaskQueue_pop_cases)
    show "tq_items q = add_mset (pt_task (tq_top t q)) (tq_items (tq_rest t q))"
      by (rule tq_items_rest [OF ne])
  qed (use 1 in \<open>simp_all add: tq_inv_rest\<close>)
qed (simp_all add: TaskQueue_pop_cases)

lemma tq_items_push:
  assumes "TaskQueue_push now x p q = (ok, q')"
  shows "tq_items q' = (if ok then add_mset x (tq_items q) else tq_items q)"
  using assms by (cases rule: push_cases) (simp_all add: tq_items_def mset_push)

lemma tq_items_flags [simp]:
  "tq_items (TaskQueue_shutdown q) = tq_items q" "tq_items (TaskQueue_abort q) = tq_items q"
  by (simp_all add: tq_items_def TaskQueue_shutdown_def TaskQueue_abort_def)

text \<open>
  \<open>shutdown\<close> loses no task: the loop of a worker on a queue that has been shut down (and not
  aborted) executes every task that was in it, each once, and then leaves; one round per task
  and one more are enough.
\<close>

theorem TaskQueue_shutdown_drains:
  assumes "tq_inv q" and "\<not> tq_abort q" and "length (tq_queue q) < length rounds"
  shows "\<exists>executed q'. consumer_loop TaskQueue_pop rounds (TaskQueue_shutdown q) = (executed, q', Loop_Left)
    \<and> mset executed = tq_items q \<and> tq_queue q' = []"
proof -
  have "size (tq_items (TaskQueue_shutdown q)) < length rounds"
    using assms(3) by (simp add: tq_items_def)
  then show ?thesis
    using tq.loop_drains [of "TaskQueue_shutdown q" rounds] assms by simp
qed

lemma TaskQueue_shutdown_drains_witness:
  "\<exists>executed q'. consumer_loop TaskQueue_pop [10, 20, 30] (TaskQueue_shutdown
      \<lparr>tq_queue = [\<lparr>pt_priority = 5, pt_order = 1, pt_task = ''b'', pt_added = 3, pt_eff = 5\<rparr>,
         \<lparr>pt_priority = 1, pt_order = 0, pt_task = ''a'', pt_added = 0, pt_eff = 1\<rparr>],
       tq_done = False, tq_order = 2, tq_max = 4, tq_abort = False\<rparr>) = (executed, q', Loop_Left)
    \<and> mset executed = {#''a'', ''b''#} \<and> tq_queue q' = []"
proof -
  let ?q = "\<lparr>tq_queue = [\<lparr>pt_priority = 5, pt_order = 1, pt_task = ''b'', pt_added = 3, pt_eff = 5\<rparr>,
         \<lparr>pt_priority = 1, pt_order = 0, pt_task = ''a'', pt_added = 0, pt_eff = 1\<rparr>],
       tq_done = False, tq_order = 2, tq_max = 4, tq_abort = False\<rparr>"
  have "tq_inv ?q" by code_simp
  moreover have "tq_items ?q = {#''a'', ''b''#}" by (simp add: tq_items_def)
  ultimately show ?thesis
    using TaskQueue_shutdown_drains [of ?q "[10, 20, 30]"] by simp
qed

text \<open>
  After \<open>abort\<close> a worker executes nothing more: its loop ends at the next \<open>pop\<close>, and the tasks
  it leaves behind are all still in the queue.
\<close>

theorem TaskQueue_abort_stops:
  "consumer_loop TaskQueue_pop (now # rounds) (TaskQueue_abort q) = ([], TaskQueue_abort q, Loop_Left)"
  by (rule tq.loop_aborted) (simp_all add: TaskQueue_abort_def)

end
