(* ===== verification/Thread_Pool.thy ===== *)
theory Thread_Pool
  imports Task_Queue
begin

text \<open>
  \<open>WorkerThread\<close> and \<open>ThreadPool\<close> of src/thread_pool.cpp and include/thread_pool.hpp: the workers'
  loops, submission, start, and the three ways to stop (\<open>shutdown\<close>, \<open>shutdownWithTimeout\<close>,
  abandoning a worker). First the interleaving of the workers with the callers, as a step
  relation; then the two shutdown procedures as functions of the time at which each worker's
  loop ends, with the time they take.
\<close>

section \<open>Workers and the pool\<close>

text \<open>
  The thread of a worker: not started, before its next \<open>pop\<close>, executing a task, or past its loop
  (\<open>donePromise\<close> is set). \<open>wk_joinable\<close> is \<open>m_thread.joinable()\<close>.
\<close>

datatype 'a worker_pc = Not_Started | Popping | Executing 'a | Finished

record 'a worker =
  wk_pc :: "'a worker_pc"
  wk_joinable :: bool
  wk_abandoned :: bool

record 'a thread_pool =
  tp_queue :: "'a task_queue"
  tp_workers :: "'a worker list"

definition WorkerThread_new :: "'a worker" where
  "WorkerThread_new = \<lparr>wk_pc = Not_Started, wk_joinable = False, wk_abandoned = False\<rparr>"

definition ThreadPool_new :: "size_t \<Rightarrow> size_t \<Rightarrow> 'a thread_pool" where
  "ThreadPool_new numThreads maxQueueSize =
     \<lparr>tp_queue = TaskQueue_new maxQueueSize,
      tp_workers = replicate (unat (if numThreads = 0 then 1 else numThreads)) WorkerThread_new\<rparr>"

definition ThreadPool_submit :: "ticks \<Rightarrow> 'a \<Rightarrow> cint \<Rightarrow> 'a thread_pool \<Rightarrow> bool \<times> 'a thread_pool" where
  "ThreadPool_submit now task priority p =
     (let (ok, q) = TaskQueue_push now task priority (tp_queue p) in (ok, p\<lparr>tp_queue := q\<rparr>))"

text \<open>
  \<open>m_thread = std::thread(...)\<close>: assigning to a joinable thread calls \<open>std::terminate\<close>; a thread
  function that has returned can be started again only if it was joined or detached, and then
  its promise is set twice, which also terminates the program. So \<open>start\<close> is for new workers.
\<close>

definition WorkerThread_start :: "'a worker \<Rightarrow> 'a worker option" where
  "WorkerThread_start w = (if wk_joinable w then None
     else Some (w\<lparr>wk_pc := Popping, wk_joinable := True\<rparr>))"

fun start_all :: "'a worker list \<Rightarrow> 'a worker list option" where
  "start_all [] = Some []"
| "start_all (w # ws) = (case WorkerThread_start w of None \<Rightarrow> None
     | Some w' \<Rightarrow> map_option ((#) w') (start_all ws))"

definition ThreadPool_start :: "'a thread_pool \<Rightarrow> 'a thread_pool option" where
  "ThreadPool_start p = map_option (\<lambda>ws. p\<lparr>tp_workers := ws\<rparr>) (start_all (tp_workers p))"

text \<open>The two halves of a round of a worker's loop.\<close>

definition worker_pop :: "ticks \<Rightarrow> nat \<Rightarrow> 'a thread_pool \<Rightarrow> 'a thread_pool option" where
  "worker_pop now i p = (case TaskQueue_pop now (tp_queue p) of
      None \<Rightarrow> None
    | Some (r, q) \<Rightarrow> Some (p\<lparr>tp_queue := q, tp_workers := (tp_workers p)[i := (tp_workers p ! i)
        \<lparr>wk_pc := (case r of None \<Rightarrow> Finished | Some task \<Rightarrow> Executing task)\<rparr>]\<rparr>))"

definition worker_executed :: "nat \<Rightarrow> 'a thread_pool \<Rightarrow> 'a thread_pool" where
  "worker_executed i p = p\<lparr>tp_workers := (tp_workers p)[i := (tp_workers p ! i)\<lparr>wk_pc := Popping\<rparr>]\<rparr>"

text \<open>\<open>join\<close> of a worker: at once if not joinable; it blocks until the thread has returned.\<close>

definition WorkerThread_join :: "'a worker \<Rightarrow> 'a worker option" where
  "WorkerThread_join w = (if \<not> wk_joinable w then Some w
     else if wk_pc w = Finished then Some (w\<lparr>wk_joinable := False\<rparr>) else None)"

definition WorkerThread_abandon :: "'a worker \<Rightarrow> 'a worker" where
  "WorkerThread_abandon w = w\<lparr>wk_joinable := False, wk_abandoned := True\<rparr>"

definition ThreadPool_threadCount :: "'a thread_pool \<Rightarrow> nat" where
  "ThreadPool_threadCount p = length (tp_workers p)"

definition ThreadPool_pendingTasks :: "'a thread_pool \<Rightarrow> nat" where
  "ThreadPool_pendingTasks p = TaskQueue_size (tp_queue p)"

section \<open>The pool at work\<close>

datatype 'a pool_event =
    Pe_submit "ticks" "'a" "cint" "bool" | Pe_start | Pe_pop ticks nat | Pe_execute nat 'a
  | Pe_shutdown | Pe_abort | Pe_join nat | Pe_abandon nat

inductive pool_step :: "'a thread_pool \<Rightarrow> 'a pool_event \<Rightarrow> 'a thread_pool \<Rightarrow> bool" where
  submit: "ThreadPool_submit now x pr p = (ok, p') \<Longrightarrow> pool_step p (Pe_submit now x pr ok) p'"
| start: "ThreadPool_start p = Some p' \<Longrightarrow> \<forall>w \<in> set (tp_workers p). wk_pc w = Not_Started \<Longrightarrow>
    pool_step p Pe_start p'"
| pop: "i < length (tp_workers p) \<Longrightarrow> wk_pc (tp_workers p ! i) = Popping \<Longrightarrow>
    worker_pop now i p = Some p' \<Longrightarrow> pool_step p (Pe_pop now i) p'"
| execute: "i < length (tp_workers p) \<Longrightarrow> wk_pc (tp_workers p ! i) = Executing x \<Longrightarrow>
    pool_step p (Pe_execute i x) (worker_executed i p)"
| shutdown: "pool_step p Pe_shutdown (p\<lparr>tp_queue := TaskQueue_shutdown (tp_queue p)\<rparr>)"
| abort: "pool_step p Pe_abort (p\<lparr>tp_queue := TaskQueue_abort (tp_queue p)\<rparr>)"
| join: "i < length (tp_workers p) \<Longrightarrow> WorkerThread_join (tp_workers p ! i) = Some w \<Longrightarrow>
    pool_step p (Pe_join i) (p\<lparr>tp_workers := (tp_workers p)[i := w]\<rparr>)"
| abandon: "i < length (tp_workers p) \<Longrightarrow>
    pool_step p (Pe_abandon i)
      (p\<lparr>tp_workers := (tp_workers p)[i := WorkerThread_abandon (tp_workers p ! i)]\<rparr>)"

inductive pool_run :: "'a thread_pool \<Rightarrow> 'a pool_event list \<Rightarrow> 'a thread_pool \<Rightarrow> bool" for p0 where
  init: "pool_run p0 [] p0"
| step: "pool_run p0 evs p \<Longrightarrow> pool_step p ev p' \<Longrightarrow> pool_run p0 (evs @ [ev]) p'"

text \<open>The steps as a function, to run the pool on concrete events.\<close>

fun pool_next :: "'a thread_pool \<Rightarrow> 'a pool_event \<Rightarrow> 'a thread_pool option" where
  "pool_next p (Pe_submit now x pr ok) =
     (let (ok', p') = ThreadPool_submit now x pr p in if ok' = ok then Some p' else None)"
| "pool_next p Pe_start =
     (if list_all (\<lambda>w. wk_pc w = Not_Started) (tp_workers p) then ThreadPool_start p else None)"
| "pool_next p (Pe_pop now i) =
     (if i < length (tp_workers p) \<and> wk_pc (tp_workers p ! i) = Popping then worker_pop now i p else None)"
| "pool_next p (Pe_execute i x) =
     (if i < length (tp_workers p) \<and> wk_pc (tp_workers p ! i) = Executing x
      then Some (worker_executed i p) else None)"
| "pool_next p Pe_shutdown = Some (p\<lparr>tp_queue := TaskQueue_shutdown (tp_queue p)\<rparr>)"
| "pool_next p Pe_abort = Some (p\<lparr>tp_queue := TaskQueue_abort (tp_queue p)\<rparr>)"
| "pool_next p (Pe_join i) = (if i < length (tp_workers p) then
     map_option (\<lambda>w. p\<lparr>tp_workers := (tp_workers p)[i := w]\<rparr>) (WorkerThread_join (tp_workers p ! i))
     else None)"
| "pool_next p (Pe_abandon i) = (if i < length (tp_workers p) then
     Some (p\<lparr>tp_workers := (tp_workers p)[i := WorkerThread_abandon (tp_workers p ! i)]\<rparr>) else None)"

fun pool_trace :: "'a thread_pool \<Rightarrow> 'a pool_event list \<Rightarrow> 'a thread_pool option" where
  "pool_trace p [] = Some p"
| "pool_trace p (ev # evs) = Option.bind (pool_next p ev) (\<lambda>p'. pool_trace p' evs)"

lemma pool_next_step: "pool_next p ev = Some p' \<Longrightarrow> pool_step p ev p'"
  by (cases ev) (auto intro: pool_step.intros simp: list_all_iff split: if_splits prod.splits)

lemma pool_trace_run:
  "pool_run p0 evs0 p \<Longrightarrow> pool_trace p evs = Some p' \<Longrightarrow> pool_run p0 (evs0 @ evs) p'"
proof (induction evs arbitrary: evs0 p)
  case (Cons ev evs)
  then obtain q where "pool_next p ev = Some q" "pool_trace q evs = Some p'"
    by (auto simp: Option.bind_eq_Some_conv)
  then show ?case
    using Cons.IH [of "evs0 @ [ev]" q] pool_run.step [OF Cons.prems(1) pool_next_step] by simp
qed simp

lemmas pool_trace_new = pool_trace_run [OF pool_run.init, simplified]

fun accepted_tasks :: "'a pool_event list \<Rightarrow> 'a list" where
  "accepted_tasks [] = []"
| "accepted_tasks (Pe_submit now x pr True # evs) = x # accepted_tasks evs"
| "accepted_tasks (_ # evs) = accepted_tasks evs"

fun executed_tasks :: "'a pool_event list \<Rightarrow> 'a list" where
  "executed_tasks [] = []"
| "executed_tasks (Pe_execute i x # evs) = x # executed_tasks evs"
| "executed_tasks (_ # evs) = executed_tasks evs"

fun running_task :: "'a worker_pc \<Rightarrow> 'a multiset" where
  "running_task (Executing x) = {#x#}"
| "running_task _ = {#}"

definition running_tasks :: "'a thread_pool \<Rightarrow> 'a multiset" where
  "running_tasks p = sum_list (map (\<lambda>w. running_task (wk_pc w)) (tp_workers p))"

lemma accepted_tasks_append [simp]:
  "accepted_tasks (xs @ ys) = accepted_tasks xs @ accepted_tasks ys"
  by (induction xs rule: accepted_tasks.induct) simp_all

lemma executed_tasks_append [simp]:
  "executed_tasks (xs @ ys) = executed_tasks xs @ executed_tasks ys"
  by (induction xs rule: executed_tasks.induct) simp_all

text \<open>A run of a pool of one worker with two accepted tasks, and three of its states.\<close>

definition example_events :: "nat pool_event list" where
  "example_events = [Pe_submit 0 5 0 True, Pe_submit 1 6 1 True, Pe_submit 2 7 1 False, Pe_start,
     Pe_pop 3 0, Pe_execute 0 6, Pe_shutdown, Pe_pop 4 0, Pe_execute 0 5, Pe_pop 5 0]"

definition example_started :: "nat thread_pool" where
  "example_started = \<lparr>tp_queue = (TaskQueue_new 2)\<lparr>tq_order := 2,
       tq_queue := [\<lparr>pt_priority = 0, pt_order = 0, pt_task = 5, pt_added = 0, pt_eff = 0\<rparr>]\<rparr>,
     tp_workers = [\<lparr>wk_pc = Executing 6, wk_joinable = True, wk_abandoned = False\<rparr>]\<rparr>"

definition example_running :: "nat thread_pool" where
  "example_running = \<lparr>tp_queue = (TaskQueue_new 2)\<lparr>tq_done := True, tq_order := 2\<rparr>,
     tp_workers = [\<lparr>wk_pc = Executing 5, wk_joinable = True, wk_abandoned = False\<rparr>]\<rparr>"

definition example_drained :: "nat thread_pool" where
  "example_drained = \<lparr>tp_queue = (TaskQueue_new 2)\<lparr>tq_done := True, tq_order := 2\<rparr>,
     tp_workers = [\<lparr>wk_pc = Finished, wk_joinable = True, wk_abandoned = False\<rparr>]\<rparr>"

lemma example_trace:
  "pool_trace (ThreadPool_new 0 2) (take 5 example_events) = Some example_started"
  "pool_trace (ThreadPool_new 0 2) (take 8 example_events) = Some example_running"
  "pool_trace (ThreadPool_new 0 2) example_events = Some example_drained"
  by code_simp+

lemmas example_runs = example_trace [THEN pool_trace_new]

section \<open>No task is lost or executed twice\<close>

lemma running_update:
  assumes "i < length ws"
  shows "sum_list (map (\<lambda>w. running_task (wk_pc w)) (ws[i := w'])) + running_task (wk_pc (ws ! i)) =
    sum_list (map (\<lambda>w. running_task (wk_pc w)) ws) + running_task (wk_pc w')"
  using assms
proof (induction ws arbitrary: i)
  case (Cons w ws)
  then show ?case by (cases i) (auto simp: ac_simps)
qed simp

lemma running_same:
  assumes "i < length ws" and "running_task (wk_pc w') = running_task (wk_pc (ws ! i))"
  shows "sum_list (map (\<lambda>w. running_task (wk_pc w)) (ws[i := w'])) =
    sum_list (map (\<lambda>w. running_task (wk_pc w)) ws)"
  using running_update [OF assms(1), of w'] assms(2) by simp

lemma WorkerThread_join_pc: "WorkerThread_join w = Some w' \<Longrightarrow> wk_pc w' = wk_pc w"
  by (auto simp: WorkerThread_join_def split: if_splits)

lemma start_all_running:
  "start_all ws = Some ws' \<Longrightarrow> \<forall>w \<in> set ws. wk_pc w = Not_Started \<Longrightarrow>
    sum_list (map (\<lambda>w. running_task (wk_pc w)) ws') = {#} \<and>
    sum_list (map (\<lambda>w. running_task (wk_pc w)) ws) = {#} \<and>
    length ws' = length ws \<and> (\<forall>w \<in> set ws'. wk_pc w = Popping)"
  by (induction ws arbitrary: ws') (auto simp: WorkerThread_start_def split: option.splits if_splits)

lemma worker_pop_cases:
  assumes "worker_pop now i p = Some p'" and "tq_inv (tp_queue p)"
  obtains (got) x where "tq_items (tp_queue p) = add_mset x (tq_items (tp_queue p'))"
      "tp_workers p' = (tp_workers p)[i := (tp_workers p ! i)\<lparr>wk_pc := Executing x\<rparr>]"
      "tq_inv (tp_queue p')" "tq_done (tp_queue p') = tq_done (tp_queue p)"
      "tq_abort (tp_queue p') = tq_abort (tp_queue p)"
    | (left) "tp_queue p' = tp_queue p"
      "tq_abort (tp_queue p) \<or> tq_done (tp_queue p) \<and> tq_queue (tp_queue p) = []"
      "tp_workers p' = (tp_workers p)[i := (tp_workers p ! i)\<lparr>wk_pc := Finished\<rparr>]"
proof -
  obtain r q where pop: "TaskQueue_pop now (tp_queue p) = Some (r, q)"
    and p': "p' = p\<lparr>tp_queue := q, tp_workers := (tp_workers p)[i := (tp_workers p ! i)
        \<lparr>wk_pc := (case r of None \<Rightarrow> Finished | Some task \<Rightarrow> Executing task)\<rparr>]\<rparr>"
    using assms(1) by (auto simp: worker_pop_def split: option.splits)
  from pop show thesis
  proof (cases rule: pop_rest)
    case no_task
    then have r: "r = None" by simp
    have "tq_abort (tp_queue p) \<or> tq_done (tp_queue p) \<and> tq_queue (tp_queue p) = []"
      using pop r by (auto simp: TaskQueue_pop_cases split: if_splits)
    then show thesis using that(2) p' no_task r by simp
  next
    case task
    then show thesis
      using that(1) [of "pt_task (tq_top now (tp_queue p))"] p'
        tq_items_rest [OF task(3), of now] tq_inv_rest [OF assms(2), of now] by simp
  qed
qed

lemma ThreadPool_submit_cases:
  assumes "ThreadPool_submit now x pr p = (ok, p')"
  obtains q where "TaskQueue_push now x pr (tp_queue p) = (ok, q)" "p' = p\<lparr>tp_queue := q\<rparr>"
  using assms by (auto simp: ThreadPool_submit_def split: prod.splits)

lemma pool_step_conserves:
  assumes "pool_step p ev p'" and "tq_inv (tp_queue p)"
  shows "tq_inv (tp_queue p') \<and>
    mset (accepted_tasks [ev]) + running_tasks p + tq_items (tp_queue p) =
      mset (executed_tasks [ev]) + running_tasks p' + tq_items (tp_queue p')"
  using assms
proof (induction rule: pool_step.induct)
  case (submit now x pr p ok p')
  then obtain q where q: "TaskQueue_push now x pr (tp_queue p) = (ok, q)" "p' = p\<lparr>tp_queue := q\<rparr>"
    by (auto elim: ThreadPool_submit_cases)
  then show ?case
    using tq_inv_push [OF submit.prems q(1)] tq_items_push [OF q(1)]
    by (cases ok) (simp_all add: running_tasks_def)
next
  case (start p p')
  then show ?case
    by (auto simp: ThreadPool_start_def running_tasks_def dest!: start_all_running)
next
  case (pop i p now p')
  from pop.hyps(3) pop.prems show ?case
  proof (cases rule: worker_pop_cases)
    case (got x)
    then show ?thesis
      using running_update [OF pop.hyps(1), of "(tp_workers p ! i)\<lparr>wk_pc := Executing x\<rparr>"] pop.hyps(2)
      by (simp add: running_tasks_def)
  next
    case left
    then show ?thesis
      using running_same [OF pop.hyps(1), of "(tp_workers p ! i)\<lparr>wk_pc := Finished\<rparr>"] pop.hyps(2)
        pop.prems by (simp add: running_tasks_def)
  qed
next
  case (execute i p x)
  then show ?case
    using running_update [OF execute.hyps(1), of "(tp_workers p ! i)\<lparr>wk_pc := Popping\<rparr>"]
    by (simp add: running_tasks_def worker_executed_def)
next
  case (shutdown p)
  then show ?case by (simp add: running_tasks_def)
next
  case (abort p)
  then show ?case by (simp add: running_tasks_def)
next
  case (join i p w)
  then show ?case by (simp add: running_tasks_def running_same WorkerThread_join_pc [OF join.hyps(2)])
next
  case (abandon i p)
  then show ?case by (simp add: running_tasks_def running_same WorkerThread_abandon_def)
qed

lemma running_none:
  "\<forall>w \<in> set ws. running_task (wk_pc w) = {#} \<Longrightarrow>
    sum_list (map (\<lambda>w. running_task (wk_pc w)) ws) = {#}"
  by (induction ws) simp_all

lemma running_new [simp]: "running_tasks (ThreadPool_new n m) = {#}"
  unfolding running_tasks_def
  by (rule running_none) (simp add: ThreadPool_new_def WorkerThread_new_def)

lemma queue_new [simp]: "tp_queue (ThreadPool_new n m) = TaskQueue_new m"
  by (simp add: ThreadPool_new_def)

lemma pool_run_conserves:
  assumes "pool_run (ThreadPool_new n m) evs p"
  shows "tq_inv (tp_queue p)"
    and "mset (accepted_tasks evs) = mset (executed_tasks evs) + running_tasks p + tq_items (tp_queue p)"
proof -
  have "tq_inv (tp_queue p) \<and>
    mset (accepted_tasks evs) = mset (executed_tasks evs) + running_tasks p + tq_items (tp_queue p)"
    using assms
  proof (induction rule: pool_run.induct)
    case init
    then show ?case by (simp add: tq_inv_new(1)) (simp add: TaskQueue_new_def tq_items_def)
  next
    case (step evs p ev p')
    then show ?case using pool_step_conserves [OF step.hyps(2)] by (simp add: ac_simps)
  qed
  then show "tq_inv (tp_queue p)"
    and "mset (accepted_tasks evs) = mset (executed_tasks evs) + running_tasks p + tq_items (tp_queue p)"
    by simp_all
qed

text \<open>
  C28. Every accepted task is in one place: executed, being executed by one worker, or still in
  the queue, each exactly once, whatever the interleaving of submissions, workers, shutdown,
  abort, joins and abandoned workers.
\<close>

theorem ThreadPool_conserves_tasks:
  assumes "pool_run (ThreadPool_new n m) evs p"
  shows "mset (accepted_tasks evs) =
    mset (executed_tasks evs) + running_tasks p + tq_items (tp_queue p)"
  by (rule pool_run_conserves(2) [OF assms])

lemma ThreadPool_conserves_tasks_witness:
  "mset (accepted_tasks (take 5 example_events)) = {#6#} + {#5#} \<and>
    running_tasks example_started = {#6#} \<and> tq_items (tp_queue example_started) = {#5#}"
  using ThreadPool_conserves_tasks [OF example_runs(1)]
  by (simp add: example_events_def example_started_def running_tasks_def tq_items_def)

section \<open>Orderly shutdown\<close>

text \<open>Without an abort, a worker leaves its loop only when the queue is closed and empty.\<close>

definition finished_inv :: "'a thread_pool \<Rightarrow> bool" where
  "finished_inv p \<longleftrightarrow> \<not> tq_abort (tp_queue p) \<and>
     ((\<exists>w \<in> set (tp_workers p). wk_pc w = Finished) \<longrightarrow>
        tq_done (tp_queue p) \<and> tq_queue (tp_queue p) = [])"

lemma set_update_cases: "w \<in> set (ws[i := w']) \<Longrightarrow> w = w' \<or> w \<in> set ws"
  using set_update_subset_insert [of ws i w'] by blast

lemma finished_inv_update:
  assumes "finished_inv p" and "wk_pc w' = Finished \<Longrightarrow> \<exists>w \<in> set (tp_workers p). wk_pc w = Finished"
  shows "finished_inv (p\<lparr>tp_workers := (tp_workers p)[i := w']\<rparr>)"
  using assms set_update_cases [of _ "tp_workers p" i w'] by (auto simp: finished_inv_def)

lemma pool_step_finished:
  assumes "pool_step p ev p'" and "ev \<noteq> Pe_abort" and "finished_inv p" and "tq_inv (tp_queue p)"
  shows "finished_inv p'"
  using assms
proof (induction rule: pool_step.induct)
  case (submit now x pr p ok p')
  then obtain q where q: "TaskQueue_push now x pr (tp_queue p) = (ok, q)" "p' = p\<lparr>tp_queue := q\<rparr>"
    by (auto elim: ThreadPool_submit_cases)
  from q(1) show ?case
    by (cases rule: push_cases) (use submit.prems q(2) in \<open>auto simp: finished_inv_def\<close>)
next
  case (start p p')
  then show ?case
    using start_all_running [of "tp_workers p"]
    by (auto simp: ThreadPool_start_def finished_inv_def)
next
  case (pop i p now p')
  from pop.hyps(3) pop.prems(3) show ?case
  proof (cases rule: worker_pop_cases)
    case (got x)
    then have "tq_queue (tp_queue p) \<noteq> []" by (metis add_mset_not_empty tq_items_empty)
    then show ?thesis
      using got pop.prems(2) set_update_cases [of _ "tp_workers p" i "(tp_workers p ! i)\<lparr>wk_pc := Executing x\<rparr>"]
      by (fastforce simp: finished_inv_def)
  next
    case left
    then show ?thesis using pop.prems(2) by (auto simp: finished_inv_def)
  qed
next
  case (execute i p x)
  then show ?case
    unfolding worker_executed_def by (intro finished_inv_update) simp_all
next
  case (shutdown p)
  then show ?case by (auto simp: finished_inv_def)
next
  case (join i p w)
  have "tp_workers p ! i \<in> set (tp_workers p)" using join.hyps(1) by simp
  then show ?case
    using join.prems(2) WorkerThread_join_pc [OF join.hyps(2)]
    by (intro finished_inv_update) (simp, metis)
next
  case (abandon i p)
  have "tp_workers p ! i \<in> set (tp_workers p)" using abandon.hyps(1) by simp
  then show ?case
    using abandon.prems(2) by (intro finished_inv_update) (auto simp: WorkerThread_abandon_def)
qed simp

text \<open>
  C14. An orderly shutdown completes the accepted work: in a pool that was never aborted, when
  every worker has left its loop, the executed tasks are exactly the accepted ones.
\<close>

theorem ThreadPool_shutdown_executes_all:
  assumes "pool_run (ThreadPool_new n m) evs p" and "Pe_abort \<notin> set evs"
    and "tp_workers p \<noteq> []" and "\<forall>w \<in> set (tp_workers p). wk_pc w = Finished"
  shows "mset (executed_tasks evs) = mset (accepted_tasks evs)"
proof -
  have "finished_inv p"
    using assms(1,2)
  proof (induction rule: pool_run.induct)
    case init
    then show ?case
      by (auto simp: finished_inv_def ThreadPool_new_def TaskQueue_new_def WorkerThread_new_def)
  next
    case (step evs p ev p')
    then show ?case
      using pool_step_finished [OF step.hyps(2)] pool_run_conserves(1) [OF step.hyps(1)] by auto
  qed
  moreover obtain w where "w \<in> set (tp_workers p)" using assms(3) by (cases "tp_workers p") auto
  ultimately have "tq_items (tp_queue p) = {#}"
    using assms(4) by (auto simp: finished_inv_def)
  moreover have "running_tasks p = {#}"
    using assms(4) unfolding running_tasks_def by (intro running_none) simp
  ultimately show ?thesis using pool_run_conserves(2) [OF assms(1)] by simp
qed

lemma ThreadPool_shutdown_executes_all_witness:
  "mset (executed_tasks example_events) = mset (accepted_tasks example_events) \<and>
    accepted_tasks example_events = [5, 6]"
  using ThreadPool_shutdown_executes_all [OF example_runs(3)]
  by (simp add: example_events_def example_drained_def)

text \<open>
  Nothing runs before \<open>start\<close>: as long as the pool has not been started, tasks are accepted
  and queued but none is taken or executed.
\<close>

theorem ThreadPool_idle_before_start:
  assumes "pool_run (ThreadPool_new n m) evs p" and "Pe_start \<notin> set evs"
  shows "executed_tasks evs = [] \<and> mset (accepted_tasks evs) = tq_items (tp_queue p)"
proof -
  have "executed_tasks evs = [] \<and> (\<forall>w \<in> set (tp_workers p). wk_pc w = Not_Started)"
    using assms
  proof (induction rule: pool_run.induct)
    case init
    then show ?case by (simp add: ThreadPool_new_def WorkerThread_new_def)
  next
    case (step evs p ev p')
    then have idle: "executed_tasks evs = []" "\<forall>w \<in> set (tp_workers p). wk_pc w = Not_Started"
      by simp_all
    have "wk_pc (tp_workers p ! i) = Not_Started" if "i < length (tp_workers p)" for i
      using idle(2) that by simp
    with step.hyps(2) step.prems idle show ?case
    proof (induction rule: pool_step.induct)
      case (submit now x pr p ok p')
      then show ?case by (auto simp: ThreadPool_submit_def split: prod.splits)
    qed (auto dest!: set_update_cases simp: WorkerThread_abandon_def WorkerThread_join_pc)
  qed
  moreover from this have "running_tasks p = {#}"
    unfolding running_tasks_def by (intro running_none) simp
  ultimately show ?thesis using pool_run_conserves(2) [OF assms(1)] by simp
qed

lemma example_submitted: "pool_trace (ThreadPool_new 0 2) (take 3 example_events) \<noteq> None"
  by code_simp

lemma ThreadPool_idle_before_start_witness:
  "\<exists>p. pool_run (ThreadPool_new 0 2) (take 3 example_events) p \<and>
    executed_tasks (take 3 example_events) = [] \<and> tq_items (tp_queue p) = {#5, 6#}"
proof -
  obtain p where p: "pool_run (ThreadPool_new 0 2) (take 3 example_events) p"
    using example_submitted pool_trace_new by blast
  show ?thesis
    using ThreadPool_idle_before_start [OF p] p by (auto simp: example_events_def intro!: exI [of _ p])
qed

section \<open>The workers come to an end\<close>

text \<open>
  The work ahead of the workers: two steps per queued task (taking it and executing it), and the
  steps each worker has left before it can leave its loop.
\<close>

fun pc_work :: "'a worker_pc \<Rightarrow> nat" where
  "pc_work Popping = 1"
| "pc_work (Executing x) = 2"
| "pc_work _ = 0"

definition pool_work :: "'a thread_pool \<Rightarrow> nat" where
  "pool_work p = 2 * TaskQueue_size (tp_queue p) + sum_list (map (\<lambda>w. pc_work (wk_pc w)) (tp_workers p))"

fun worker_event :: "'a pool_event \<Rightarrow> bool" where
  "worker_event (Pe_pop now i) = True"
| "worker_event (Pe_execute i x) = True"
| "worker_event _ = False"

lemma work_update:
  "i < length ws \<Longrightarrow> sum_list (map (\<lambda>w. pc_work (wk_pc w)) (ws[i := w'])) + pc_work (wk_pc (ws ! i)) =
    sum_list (map (\<lambda>w. pc_work (wk_pc w)) ws) + pc_work (wk_pc w')"
proof (induction ws arbitrary: i)
  case (Cons w ws)
  then show ?case by (cases i) auto
qed simp

lemma worker_step_decreases:
  assumes "pool_step p ev p'" and "worker_event ev" and "tq_inv (tp_queue p)"
  shows "pool_work p' < pool_work p"
  using assms
proof (induction rule: pool_step.induct)
  case (pop i p now p')
  from pop.hyps(3) pop.prems(2) show ?case
  proof (cases rule: worker_pop_cases)
    case (got x)
    have "length (tq_queue (tp_queue p)) = Suc (length (tq_queue (tp_queue p')))"
      using arg_cong [OF got(1), of size] by simp
    then show ?thesis
      using work_update [OF pop.hyps(1), of "(tp_workers p ! i)\<lparr>wk_pc := Executing x\<rparr>"] got(2) pop.hyps(2)
      by (simp add: pool_work_def TaskQueue_size_def)
  next
    case left
    then show ?thesis
      using work_update [OF pop.hyps(1), of "(tp_workers p ! i)\<lparr>wk_pc := Finished\<rparr>"] pop.hyps(2)
      by (simp add: pool_work_def)
  qed
next
  case (execute i p x)
  then show ?case
    using work_update [OF execute.hyps(1), of "(tp_workers p ! i)\<lparr>wk_pc := Popping\<rparr>"]
    by (simp add: pool_work_def worker_executed_def)
qed simp_all

lemma worker_can_step:
  assumes "tq_done (tp_queue p)" and "i < length (tp_workers p)"
    and "wk_pc (tp_workers p ! i) \<noteq> Finished" and "wk_pc (tp_workers p ! i) \<noteq> Not_Started"
  shows "\<exists>ev p'. worker_event ev \<and> pool_step p ev p'"
proof (cases "wk_pc (tp_workers p ! i)")
  case Popping
  have "worker_pop 0 i p \<noteq> None"
    using assms(1) by (auto simp: worker_pop_def TaskQueue_pop_cases split: if_splits)
  then obtain p' where "worker_pop 0 i p = Some p'" by blast
  then have "pool_step p (Pe_pop 0 i) p'" using Popping assms(2) by (auto intro: pool_step.pop)
  then show ?thesis by (metis worker_event.simps(1))
next
  case (Executing x)
  then show ?thesis using assms(2) by (metis pool_step.execute worker_event.simps(2))
qed (use assms in auto)

text \<open>
  After \<open>shutdown\<close> the workers cannot deadlock and cannot go on for ever: every step of a worker
  decreases \<open>pool_work\<close>, and as long as some started worker has not left its loop, some worker has
  a step. So at most \<open>pool_work\<close> steps after the shutdown every join returns.
\<close>

theorem ThreadPool_shutdown_terminates:
  assumes "pool_run (ThreadPool_new n m) evs p"
  shows "(\<forall>ev p'. worker_event ev \<longrightarrow> pool_step p ev p' \<longrightarrow> pool_work p' < pool_work p) \<and>
    (tq_done (tp_queue p) \<longrightarrow> (\<forall>w \<in> set (tp_workers p). wk_pc w \<noteq> Not_Started) \<longrightarrow>
      (\<exists>w \<in> set (tp_workers p). WorkerThread_join w = None) \<longrightarrow>
      (\<exists>ev p'. worker_event ev \<and> pool_step p ev p'))"
proof (intro conjI impI allI)
  fix ev p'
  assume ev: "worker_event ev" "pool_step p ev p'"
  show "pool_work p' < pool_work p"
    by (rule worker_step_decreases [OF ev(2,1) pool_run_conserves(1) [OF assms]])
next
  assume closed: "tq_done (tp_queue p)" and started: "\<forall>w \<in> set (tp_workers p). wk_pc w \<noteq> Not_Started"
    and "\<exists>w \<in> set (tp_workers p). WorkerThread_join w = None"
  then obtain w where w: "w \<in> set (tp_workers p)" "WorkerThread_join w = None" by blast
  then have pc: "wk_pc w \<noteq> Not_Started" "wk_pc w \<noteq> Finished"
    using started by (auto simp: WorkerThread_join_def split: if_splits)
  from w(1) obtain i where "i < length (tp_workers p)" "tp_workers p ! i = w"
    by (auto simp: in_set_conv_nth)
  then show "\<exists>ev p'. worker_event ev \<and> pool_step p ev p'"
    using worker_can_step [OF closed] pc by simp
qed

lemma ThreadPool_shutdown_terminates_witness:
  "\<exists>ev p'. worker_event ev \<and> pool_step example_running ev p' \<and>
    pool_work p' < pool_work example_running"
proof -
  have "tq_done (tp_queue example_running)"
    "\<forall>w \<in> set (tp_workers example_running). wk_pc w \<noteq> Not_Started"
    "\<exists>w \<in> set (tp_workers example_running). WorkerThread_join w = None"
    by (simp_all add: example_running_def WorkerThread_join_def)
  with ThreadPool_shutdown_terminates [OF example_runs(2)] show ?thesis by blast
qed

section \<open>Shutdown in time\<close>

text \<open>
  For the two shutdown procedures the environment is the time at which each worker's loop ends in
  the execution at hand (\<^const>\<open>None\<close>: never, because its task is stuck or it was not started);
  it may depend on the abort. Waiting is the only thing that takes time. A
  \<open>std::chrono::milliseconds\<close> is an integer, converted to and from nanoseconds as the code does.
\<close>

definition duration_cast_ms :: "ticks \<Rightarrow> int" where
  "duration_cast_ms d = (if d < 0 then - ((- d) div 1000000) else d div 1000000)"

text \<open>\<open>std::future::wait_for\<close> on a promise that is set at \<open>done_at\<close>.\<close>

definition future_wait_for :: "ticks option \<Rightarrow> int \<Rightarrow> ticks \<Rightarrow> bool \<times> ticks" where
  "future_wait_for done_at timeout now =
     (let until = max now (now + 1000000 * timeout) in
      case done_at of None \<Rightarrow> (False, until)
      | Some d \<Rightarrow> if d \<le> until then (True, max now d) else (False, until))"

definition WorkerThread_joinWithTimeout ::
  "ticks option \<Rightarrow> int \<Rightarrow> ticks \<Rightarrow> 'a worker \<Rightarrow> bool \<times> 'a worker \<times> ticks" where
  "WorkerThread_joinWithTimeout done_at timeout now w =
     (if wk_abandoned w then (False, w, now)
      else let (ready, t) = future_wait_for done_at timeout now in
        if \<not> ready then (False, w, t) else (True, w\<lparr>wk_joinable := False\<rparr>, t))"

text \<open>The loop of joins of \<open>shutdown\<close>; \<^const>\<open>None\<close> if one of them blocks for ever.\<close>

fun join_all :: "ticks \<Rightarrow> ('a worker \<times> ticks option) list \<Rightarrow> ('a worker list \<times> ticks) option" where
  "join_all now [] = Some ([], now)"
| "join_all now ((w, d) # ws) =
     (if \<not> wk_joinable w then map_option (\<lambda>(ws', t). (w # ws', t)) (join_all now ws)
      else case d of None \<Rightarrow> None
        | Some e \<Rightarrow> map_option (\<lambda>(ws', t). (w\<lparr>wk_joinable := False\<rparr> # ws', t)) (join_all (max now e) ws))"

definition ThreadPool_shutdown ::
  "(nat \<Rightarrow> ticks option) \<Rightarrow> ticks \<Rightarrow> 'a thread_pool \<Rightarrow> ('a thread_pool \<times> ticks) option" where
  "ThreadPool_shutdown done_at now p =
     map_option (\<lambda>(ws, t). (\<lparr>tp_queue = TaskQueue_shutdown (tp_queue p), tp_workers = ws\<rparr>, t))
       (join_all now (zip (tp_workers p) (map done_at [0..<length (tp_workers p)])))"

definition time_left :: "ticks \<Rightarrow> ticks \<Rightarrow> int" where
  "time_left deadline now =
     (let remaining = duration_cast_ms (deadline - now) in if remaining < 0 then 0 else remaining)"

text \<open>The first loop of \<open>shutdownWithTimeout\<close>: each worker, and whether it goes to \<open>stillPending\<close>.\<close>

fun first_pass :: "ticks \<Rightarrow> ticks \<Rightarrow> ('a worker \<times> ticks option) list \<Rightarrow>
    ('a worker \<times> ticks option \<times> bool) list \<times> ticks" where
  "first_pass deadline now [] = ([], now)"
| "first_pass deadline now ((w, d) # ws) =
     (if wk_abandoned w then let (rs, t) = first_pass deadline now ws in ((w, d, False) # rs, t)
      else let (ok, w', t) = WorkerThread_joinWithTimeout d (time_left deadline now) now w;
               (rs, t') = first_pass deadline t ws
           in ((w', d, \<not> ok) # rs, t'))"

text \<open>The second loop, over \<open>stillPending\<close>, with the number of workers it abandons.\<close>

fun second_pass :: "ticks \<Rightarrow> ticks \<Rightarrow> ('a worker \<times> ticks option \<times> bool) list \<Rightarrow>
    nat \<times> 'a worker list \<times> ticks" where
  "second_pass grace now [] = (0, [], now)"
| "second_pass grace now ((w, d, pending) # ws) =
     (if \<not> pending then let (n, ws', t) = second_pass grace now ws in (n, w # ws', t)
      else let (ok, w', t) = WorkerThread_joinWithTimeout d (time_left grace now) now w;
               (n, ws', t') = second_pass grace t ws
           in if ok then (n, w' # ws', t') else (Suc n, WorkerThread_abandon w' # ws', t'))"

definition kAbortGrace :: int where
  "kAbortGrace = 500"

text \<open>
  The timeout is in milliseconds. The deadline is an integer number of nanoseconds; the code's, a
  signed 64-bit count, overflows for a timeout near \<open>2 ^ 63\<close> nanoseconds (292 years) and beyond.
\<close>

definition ThreadPool_shutdownWithTimeout ::
  "(nat \<Rightarrow> ticks option) \<Rightarrow> int \<Rightarrow> ticks \<Rightarrow> 'a thread_pool \<Rightarrow>
     (nat \<times> 'a thread_pool \<times> ticks) option" where
  "ThreadPool_shutdownWithTimeout done_at timeout now p =
     (let q = TaskQueue_shutdown (tp_queue p);
          workers = zip (tp_workers p) (map done_at [0..<length (tp_workers p)])
      in if timeout \<le> 0 then
           map_option (\<lambda>(ws, t). (0, \<lparr>tp_queue = q, tp_workers = ws\<rparr>, t)) (join_all now workers)
         else let deadline = now + 1000000 * timeout;
                  (rs, t) = first_pass deadline now workers
           in if \<not> list_ex (\<lambda>(w, d, pending). pending) rs then
                Some (0, \<lparr>tp_queue = q, tp_workers = map fst rs\<rparr>, t)
              else let graceDeadline = t + 1000000 * kAbortGrace;
                       (n, ws, t') = second_pass graceDeadline t rs
                in Some (n, \<lparr>tp_queue = TaskQueue_abort q, tp_workers = ws\<rparr>, t'))"

section \<open>What the loops do to each worker\<close>

text \<open>A worker's loop has not ended a millisecond before the deadline; the cast truncates.\<close>

definition late :: "ticks option \<Rightarrow> ticks \<Rightarrow> bool" where
  "late d deadline = (case d of None \<Rightarrow> True | Some e \<Rightarrow> deadline - 1000000 < e)"

definition in_time :: "ticks option \<Rightarrow> ticks \<Rightarrow> bool" where
  "in_time d deadline = (case d of None \<Rightarrow> False | Some e \<Rightarrow> e \<le> deadline)"

lemma time_left_bounds:
  assumes "now \<le> deadline"
  shows "now + 1000000 * time_left deadline now \<le> deadline"
    and "deadline - 1000000 < now + 1000000 * time_left deadline now"
    and "0 \<le> time_left deadline now"
proof -
  have "time_left deadline now = (deadline - now) div 1000000"
    using assms by (simp add: time_left_def duration_cast_ms_def Let_def)
  then show "now + 1000000 * time_left deadline now \<le> deadline"
    and "deadline - 1000000 < now + 1000000 * time_left deadline now"
    and "0 \<le> time_left deadline now"
    using assms by simp_all
qed

lemma joinWithTimeout_cases:
  assumes "WorkerThread_joinWithTimeout d (time_left deadline now) now w = (ok, w', t)"
    and "now \<le> deadline" and "\<not> wk_abandoned w"
  obtains (joined) "ok" "w' = w\<lparr>wk_joinable := False\<rparr>" "in_time d deadline" "now \<le> t" "t \<le> deadline"
    | (pending) "\<not> ok" "w' = w" "late d deadline" "now \<le> t" "t \<le> deadline"
proof (cases "fst (future_wait_for d (time_left deadline now) now)")
  case True
  then show thesis
    using assms time_left_bounds [OF assms(2)]
    by (intro joined) (auto simp: WorkerThread_joinWithTimeout_def future_wait_for_def Let_def in_time_def
        split: option.splits if_splits)
next
  case False
  then show thesis
    using assms time_left_bounds [OF assms(2)]
    by (intro pending) (auto simp: WorkerThread_joinWithTimeout_def future_wait_for_def Let_def late_def
        split: option.splits if_splits)
qed

fun first_outcome :: "ticks \<Rightarrow> 'a worker \<times> ticks option \<Rightarrow> 'a worker \<times> ticks option \<times> bool \<Rightarrow> bool" where
  "first_outcome deadline (w, d) (w', d', pending) = (d' = d \<and>
     (if wk_abandoned w then w' = w \<and> \<not> pending
      else if pending then w' = w \<and> late d deadline
      else w' = w\<lparr>wk_joinable := False\<rparr> \<and> in_time d deadline))"

lemma first_pass_outcome:
  "now \<le> deadline \<Longrightarrow> first_pass deadline now ws = (rs, t) \<Longrightarrow>
    list_all2 (first_outcome deadline) ws rs \<and> now \<le> t \<and> t \<le> deadline"
proof (induction ws arbitrary: now rs t)
  case Nil
  then show ?case by simp
next
  case (Cons wd ws)
  obtain w d where wd: "wd = (w, d)" by force
  show ?case
  proof (cases "wk_abandoned w")
    case True
    obtain rs' t' where rest: "first_pass deadline now ws = (rs', t')" by force
    have "rs = (w, d, False) # rs'" "t = t'"
      using Cons.prems(2) wd True rest by simp_all
    then show ?thesis
      using Cons.IH [OF Cons.prems(1) rest] True wd by simp
  next
    case False
    obtain ok w' t1 where j: "WorkerThread_joinWithTimeout d (time_left deadline now) now w = (ok, w', t1)"
      by (metis prod_cases3)
    obtain rs' t' where rest: "first_pass deadline t1 ws = (rs', t')" by force
    have rs: "rs = (w', d, \<not> ok) # rs'" "t = t'"
      using Cons.prems(2) wd False j rest by simp_all
    have step: "first_outcome deadline (w, d) (w', d, \<not> ok)" "now \<le> t1" "t1 \<le> deadline"
      using joinWithTimeout_cases [OF j Cons.prems(1) False] False first_outcome.simps by metis+
    then show ?thesis
      using Cons.IH [OF step(3) rest] rs wd by simp
  qed
qed

fun second_outcome :: "ticks \<Rightarrow> 'a worker \<times> ticks option \<times> bool \<Rightarrow> 'a worker \<Rightarrow> bool" where
  "second_outcome grace (w, d, pending) w' =
     (if \<not> pending then w' = w
     else w' = w\<lparr>wk_joinable := False\<rparr> \<and> in_time d grace \<or> w' = WorkerThread_abandon w \<and> late d grace)"

definition abandoned_count :: "'a worker list \<Rightarrow> nat" where
  "abandoned_count ws = length (filter wk_abandoned ws)"

lemma second_pass_outcome:
  "now \<le> grace \<Longrightarrow> \<forall>(w, d, pending) \<in> set rs. pending \<longrightarrow> \<not> wk_abandoned w \<Longrightarrow>
    second_pass grace now rs = (n, ws, t) \<Longrightarrow>
    list_all2 (second_outcome grace) rs ws \<and> now \<le> t \<and> t \<le> grace \<and>
    abandoned_count ws = n + abandoned_count (map fst rs)"
proof (induction rs arbitrary: now n ws t)
  case Nil
  then show ?case by (simp add: abandoned_count_def)
next
  case (Cons r rs)
  obtain w d pending where r: "r = (w, d, pending)" by (metis prod_cases3)
  have others: "\<forall>(w, d, pending) \<in> set rs. pending \<longrightarrow> \<not> wk_abandoned w" using Cons.prems(2) by simp
  show ?case
  proof (cases pending)
    case False
    obtain m ws' t' where rest: "second_pass grace now rs = (m, ws', t')" by (metis prod_cases3)
    have "n = m" "ws = w # ws'" "t = t'" using Cons.prems(3) r False rest by simp_all
    then show ?thesis
      using Cons.IH [OF Cons.prems(1) others rest] r False by (simp add: abandoned_count_def)
  next
    case True
    obtain ok w' t1 where j: "WorkerThread_joinWithTimeout d (time_left grace now) now w = (ok, w', t1)"
      by (metis prod_cases3)
    obtain m ws' t' where rest: "second_pass grace t1 rs = (m, ws', t')" by (metis prod_cases3)
    have na: "\<not> wk_abandoned w" using Cons.prems(2) r True by simp
    have res: "(n, ws, t) = (if ok then (m, w' # ws', t') else (Suc m, WorkerThread_abandon w' # ws', t'))"
      using Cons.prems(3) r True j rest by simp
    consider "ok" "w' = w\<lparr>wk_joinable := False\<rparr>" "in_time d grace" "now \<le> t1" "t1 \<le> grace"
      | "\<not> ok" "w' = w" "late d grace" "now \<le> t1" "t1 \<le> grace"
      using joinWithTimeout_cases [OF j Cons.prems(1) na] by metis
    then show ?thesis
    proof cases
      case 1
      then show ?thesis
        using Cons.IH [OF 1(5) others rest] res True na r by (simp add: abandoned_count_def)
    next
      case 2
      then show ?thesis
        using Cons.IH [OF 2(5) others rest] res True na r
        by (simp add: abandoned_count_def WorkerThread_abandon_def)
    qed
  qed
qed

section \<open>The two shutdown procedures\<close>

definition settled :: "'a worker \<Rightarrow> bool" where
  "settled w \<longleftrightarrow> \<not> wk_joinable w"

definition abandoned_detached :: "'a thread_pool \<Rightarrow> bool" where
  "abandoned_detached p \<longleftrightarrow> (\<forall>w \<in> set (tp_workers p). wk_abandoned w \<longrightarrow> \<not> wk_joinable w)"

definition worker_times :: "(nat \<Rightarrow> ticks option) \<Rightarrow> 'a thread_pool \<Rightarrow> ('a worker \<times> ticks option) list" where
  "worker_times done_at p = zip (tp_workers p) (map done_at [0..<length (tp_workers p)])"

lemma worker_times_nth:
  "length (worker_times done_at p) = length (tp_workers p)"
  "i < length (tp_workers p) \<Longrightarrow> worker_times done_at p ! i = (tp_workers p ! i, done_at i)"
  "fst ` set (worker_times done_at p) = set (tp_workers p)"
  by (simp_all add: worker_times_def flip: set_map)

lemma first_outcome_pending:
  "first_outcome deadline wd (w', d', pending) \<Longrightarrow> pending \<Longrightarrow> \<not> wk_abandoned w'"
  by (cases wd) (auto split: if_splits)

lemma first_outcome_abandoned:
  "first_outcome deadline wd r \<Longrightarrow> wk_abandoned (fst r) = wk_abandoned (fst wd)"
  by (cases wd; cases r) (auto split: if_splits)

lemma first_outcome_settled:
  "first_outcome deadline wd r \<Longrightarrow> \<not> snd (snd r) \<Longrightarrow> wk_abandoned (fst wd) \<longrightarrow> \<not> wk_joinable (fst wd) \<Longrightarrow>
    settled (fst r)"
  by (cases wd; cases r) (auto simp: settled_def split: if_splits)

lemma second_outcome_settled:
  "second_outcome grace r w \<Longrightarrow> snd (snd r) \<or> settled (fst r) \<Longrightarrow> settled w"
  by (cases r) (auto simp: settled_def WorkerThread_abandon_def split: if_splits)

lemma abandoned_count_first:
  "list_all2 (first_outcome deadline) ws rs \<Longrightarrow> abandoned_count (map fst rs) = abandoned_count (map fst ws)"
  by (induction rule: list_all2_induct) (auto simp: abandoned_count_def dest: first_outcome_abandoned)

lemma some_pending: "list_ex (\<lambda>(w, d, pending). pending) rs \<longleftrightarrow> (\<exists>r \<in> set rs. snd (snd r))"
  by (induction rs) auto

lemma pending_not_abandoned:
  "list_all2 (first_outcome deadline) ws rs \<Longrightarrow>
    \<forall>(w, d, pending) \<in> set rs. pending \<longrightarrow> \<not> wk_abandoned w"
  by (induction rule: list_all2_induct) (auto dest: first_outcome_pending)

text \<open>What a call with a positive timeout does, once for all the properties below.\<close>

lemma shutdownWithTimeout_cases:
  assumes "0 < timeout"
  obtains (all_joined) rs t where
    "ThreadPool_shutdownWithTimeout done_at timeout now p =
      Some (0, \<lparr>tp_queue = TaskQueue_shutdown (tp_queue p), tp_workers = map fst rs\<rparr>, t)"
    "list_all2 (first_outcome (now + 1000000 * timeout)) (worker_times done_at p) rs"
    "\<forall>r \<in> set rs. \<not> snd (snd r)" "now \<le> t" "t \<le> now + 1000000 * timeout"
  | (second) rs t n ws t' where
    "ThreadPool_shutdownWithTimeout done_at timeout now p =
      Some (n, \<lparr>tp_queue = TaskQueue_abort (TaskQueue_shutdown (tp_queue p)), tp_workers = ws\<rparr>, t')"
    "list_all2 (first_outcome (now + 1000000 * timeout)) (worker_times done_at p) rs"
    "\<exists>r \<in> set rs. snd (snd r)" "now \<le> t" "t \<le> now + 1000000 * timeout"
    "list_all2 (second_outcome (t + 1000000 * kAbortGrace)) rs ws" "t \<le> t'"
    "t' \<le> t + 1000000 * kAbortGrace" "abandoned_count ws = n + abandoned_count (map fst rs)"
proof -
  obtain rs t where first: "first_pass (now + 1000000 * timeout) now (worker_times done_at p) = (rs, t)"
    by force
  have out: "list_all2 (first_outcome (now + 1000000 * timeout)) (worker_times done_at p) rs"
    "now \<le> t" "t \<le> now + 1000000 * timeout"
    using first_pass_outcome [OF _ first] assms by simp_all
  show thesis
  proof (cases "\<exists>r \<in> set rs. snd (snd r)")
    case False
    then have "ThreadPool_shutdownWithTimeout done_at timeout now p =
        Some (0, \<lparr>tp_queue = TaskQueue_shutdown (tp_queue p), tp_workers = map fst rs\<rparr>, t)"
      using first assms
      by (simp add: ThreadPool_shutdownWithTimeout_def Let_def some_pending flip: worker_times_def)
    moreover have "\<forall>r \<in> set rs. \<not> snd (snd r)" using False by simp
    ultimately show thesis using out by (intro all_joined)
  next
    case True
    note pending_not_abandoned [OF out(1)]
    moreover obtain n ws t' where pass: "second_pass (t + 1000000 * kAbortGrace) t rs = (n, ws, t')"
      by (metis prod_cases3)
    ultimately have *: "list_all2 (second_outcome (t + 1000000 * kAbortGrace)) rs ws \<and> t \<le> t' \<and>
        t' \<le> t + 1000000 * kAbortGrace \<and> abandoned_count ws = n + abandoned_count (map fst rs)"
      by (intro second_pass_outcome) (simp_all add: kAbortGrace_def)
    have "ThreadPool_shutdownWithTimeout done_at timeout now p =
        Some (n, \<lparr>tp_queue = TaskQueue_abort (TaskQueue_shutdown (tp_queue p)), tp_workers = ws\<rparr>, t')"
      using first assms True pass
      by (auto simp add: ThreadPool_shutdownWithTimeout_def Let_def some_pending simp flip: worker_times_def)
    then show thesis
      by (rule second [OF _ out(1) True out(2,3)]) (use * in simp_all)
  qed
qed

lemma all2_fst_outcome:
  assumes "list_all2 (first_outcome deadline) (worker_times done_at p) rs" and "i < length (tp_workers p)"
  shows "first_outcome deadline (tp_workers p ! i, done_at i) (rs ! i)" and "length rs = length (tp_workers p)"
  using assms by (auto simp: list_all2_conv_all_nth worker_times_nth)

lemma first_settled:
  assumes "list_all2 (first_outcome deadline) (worker_times done_at p) rs" and "abandoned_detached p"
    and "i < length (tp_workers p)"
  shows "snd (snd (rs ! i)) \<or> settled (fst (rs ! i))"
proof -
  have "wk_abandoned (tp_workers p ! i) \<longrightarrow> \<not> wk_joinable (tp_workers p ! i)"
    using assms(2,3) by (simp add: abandoned_detached_def)
  then show ?thesis
    using first_outcome_settled [OF all2_fst_outcome(1) [OF assms(1,3)]] by auto
qed

lemma shutdownWithTimeout_ends:
  assumes "0 < timeout" and "abandoned_detached p"
  shows "\<exists>n p' t. ThreadPool_shutdownWithTimeout done_at timeout now p = Some (n, p', t) \<and>
    now \<le> t \<and> t \<le> now + 1000000 * (timeout + 500) \<and> tq_done (tp_queue p') \<and>
    length (tp_workers p') = length (tp_workers p) \<and> (\<forall>w \<in> set (tp_workers p'). \<not> wk_joinable w) \<and>
    abandoned_count (tp_workers p') = n + abandoned_count (tp_workers p)"
  using assms(1)
proof (cases rule: shutdownWithTimeout_cases [of timeout done_at now p])
  case (all_joined rs t)
  have "length rs = length (tp_workers p)"
    using list_all2_lengthD [OF all_joined(2)] by (simp add: worker_times_nth)
  moreover have "\<forall>r \<in> set rs. \<not> wk_joinable (fst r)"
    using first_settled [OF all_joined(2) assms(2)] all_joined(3) calculation
    by (metis in_set_conv_nth settled_def)
  moreover have "abandoned_count (map fst rs) = abandoned_count (tp_workers p)"
    using abandoned_count_first [OF all_joined(2)] by (simp add: worker_times_def)
  ultimately show ?thesis using all_joined(1,4,5) by (intro exI [of _ 0] exI) auto
next
  case (second rs t n ws t')
  have len: "length rs = length (tp_workers p)" "length ws = length rs"
    using list_all2_lengthD [OF second(2)] list_all2_lengthD [OF second(6)]
    by (simp_all add: worker_times_nth)
  have "\<not> wk_joinable (ws ! i)" if "i < length ws" for i
    using second_outcome_settled [OF list_all2_nthD2 [OF second(6) that]]
      first_settled [OF second(2) assms(2), of i] len that by (simp add: settled_def)
  then have "\<forall>w \<in> set ws. \<not> wk_joinable w" by (metis in_set_conv_nth)
  moreover have "abandoned_count (map fst rs) = abandoned_count (tp_workers p)"
    using abandoned_count_first [OF second(2)] by (simp add: worker_times_def)
  ultimately show ?thesis
    using second(1,4,5,7,8,9) len by (intro exI [of _ n] exI) (auto simp: kAbortGrace_def TaskQueue_abort_def TaskQueue_shutdown_def)
qed

text \<open>
  C16. A drain with a positive timeout always ends in time: within the timeout and the 500 ms of
  grace the call returns, the queue is closed, every worker is joined or abandoned, and the
  result is the number of workers abandoned by this call.
\<close>

theorem ThreadPool_drain_bounded:
  assumes "0 < timeout" and "abandoned_detached p"
  shows "\<exists>n p' t. ThreadPool_shutdownWithTimeout done_at timeout now p = Some (n, p', t) \<and>
    now \<le> t \<and> t \<le> now + 1000000 * (timeout + 500) \<and> tq_done (tp_queue p') \<and>
    length (tp_workers p') = length (tp_workers p) \<and> (\<forall>w \<in> set (tp_workers p'). \<not> wk_joinable w) \<and>
    abandoned_count (tp_workers p') = n + abandoned_count (tp_workers p)"
  by (rule shutdownWithTimeout_ends [OF assms])

definition stuck_pool :: "nat thread_pool" where
  "stuck_pool = \<lparr>tp_queue = TaskQueue_new 2,
     tp_workers = replicate 2 \<lparr>wk_pc = Executing 5, wk_joinable = True, wk_abandoned = False\<rparr>\<rparr>"

definition stuck_done :: "nat \<Rightarrow> ticks option" where
  "stuck_done i = (if i = 0 then None else Some 3000000)"

definition stuck_drained :: "nat thread_pool" where
  "stuck_drained = \<lparr>tp_queue = TaskQueue_abort (TaskQueue_shutdown (TaskQueue_new 2)),
     tp_workers = [\<lparr>wk_pc = Executing 5, wk_joinable = False, wk_abandoned = True\<rparr>,
       \<lparr>wk_pc = Executing 5, wk_joinable = False, wk_abandoned = False\<rparr>]\<rparr>"

lemma stuck_detached: "abandoned_detached stuck_pool"
  by (simp add: abandoned_detached_def stuck_pool_def)

lemma stuck_drain:
  "ThreadPool_shutdownWithTimeout stuck_done 10 0 stuck_pool = Some (1, stuck_drained, 510000000)"
  by code_simp

lemma ThreadPool_drain_bounded_witness:
  "\<exists>n p' t. ThreadPool_shutdownWithTimeout stuck_done 10 0 stuck_pool = Some (n, p', t) \<and>
    t \<le> 510000000 \<and> (\<forall>w \<in> set (tp_workers p'). \<not> wk_joinable w)"
  using ThreadPool_drain_bounded [OF _ stuck_detached, of 10 stuck_done 0] by auto

lemma first_pass_verdict:
  assumes "list_all2 (first_outcome deadline) (worker_times done_at p) rs"
    and "i < length (tp_workers p)" and "\<not> wk_abandoned (tp_workers p ! i)"
  shows "\<not> late (done_at i) deadline \<Longrightarrow> \<not> snd (snd (rs ! i)) \<and> \<not> wk_abandoned (fst (rs ! i))"
    and "\<not> in_time (done_at i) deadline \<Longrightarrow> snd (snd (rs ! i))"
  using all2_fst_outcome(1) [OF assms(1,2)] assms(3)
  by (cases "rs ! i"; auto split: if_splits)+

text \<open>
  Who is abandoned: a worker whose loop ends at least a millisecond before the deadline is
  joined, never abandoned; one whose loop never ends is abandoned. Queued tasks are dropped by
  an abort only if some worker was late.
\<close>

theorem ThreadPool_drain_verdict:
  assumes "0 < timeout" and "ThreadPool_shutdownWithTimeout done_at timeout now p = Some (n, p', t)"
    and "i < length (tp_workers p)" and "\<not> wk_abandoned (tp_workers p ! i)"
  shows "(\<not> late (done_at i) (now + 1000000 * timeout) \<longrightarrow> \<not> wk_abandoned (tp_workers p' ! i)) \<and>
    (done_at i = None \<longrightarrow> wk_abandoned (tp_workers p' ! i) \<and> tq_abort (tp_queue p')) \<and>
    ((\<forall>j < length (tp_workers p). wk_abandoned (tp_workers p ! j) \<or>
        \<not> late (done_at j) (now + 1000000 * timeout)) \<longrightarrow>
      n = 0 \<and> tp_queue p' = TaskQueue_shutdown (tp_queue p))"
  using assms(1)
proof (cases rule: shutdownWithTimeout_cases [of timeout done_at now p])
  case (all_joined rs u)
  have i: "i < length rs" using list_all2_lengthD [OF all_joined(2)] assms(3) by (simp add: worker_times_nth)
  then have "\<not> snd (snd (rs ! i))" using all_joined(3) by simp
  then have "done_at i \<noteq> None"
    using first_pass_verdict(2) [OF all_joined(2) assms(3,4)] by (cases "done_at i") (auto simp: in_time_def)
  moreover have "\<not> wk_abandoned (fst (rs ! i))"
    using first_outcome_abandoned [OF all2_fst_outcome(1) [OF all_joined(2) assms(3)]] assms(4) by simp
  ultimately show ?thesis using all_joined(1) assms(2) i by simp
next
  case (second rs u m ws u')
  have p': "tp_workers p' = ws" "tq_abort (tp_queue p')" using second(1) assms(2) by (auto simp: TaskQueue_abort_def)
  have i: "i < length ws" "i < length rs"
    using list_all2_lengthD [OF second(2)] list_all2_lengthD [OF second(6)] assms(3)
    by (simp_all add: worker_times_nth)
  have out: "second_outcome (u + 1000000 * kAbortGrace) (rs ! i) (ws ! i)"
    using list_all2_nthD2 [OF second(6) i(1)] .
  have fst_out: "first_outcome (now + 1000000 * timeout) (tp_workers p ! i, done_at i) (rs ! i)"
    by (rule all2_fst_outcome(1) [OF second(2) assms(3)])
  have "\<not> wk_abandoned (ws ! i)" if "\<not> late (done_at i) (now + 1000000 * timeout)"
    using first_pass_verdict(1) [OF second(2) assms(3,4) that] out by (cases "rs ! i") auto
  moreover have "wk_abandoned (ws ! i)" if "done_at i = None"
    using first_pass_verdict(2) [OF second(2) assms(3,4)] out fst_out that
    by (cases "rs ! i") (auto simp: in_time_def WorkerThread_abandon_def)
  moreover have "\<exists>j < length (tp_workers p). \<not> wk_abandoned (tp_workers p ! j) \<and>
      late (done_at j) (now + 1000000 * timeout)"
  proof -
    obtain j where j: "j < length rs" "snd (snd (rs ! j))" using second(3) by (metis in_set_conv_nth)
    then have j': "j < length (tp_workers p)" using all2_fst_outcome(2) [OF second(2) assms(3)] by simp
    from all2_fst_outcome(1) [OF second(2) j'] j(2) show ?thesis
      using j' by (cases "rs ! j") (auto split: if_splits)
  qed
  ultimately show ?thesis using p' by auto
qed

lemma ThreadPool_drain_verdict_witness:
  "wk_abandoned (tp_workers stuck_drained ! 0) \<and> tq_abort (tp_queue stuck_drained)"
  using ThreadPool_drain_verdict [OF _ stuck_drain, of 0] by (simp add: stuck_pool_def stuck_done_def)

lemma join_all_detached:
  "\<forall>(w, d) \<in> set ws. \<not> wk_joinable w \<Longrightarrow> join_all now ws = Some (map fst ws, now)"
  by (induction ws) auto

text \<open>
  The destructor after a drain: a pool whose \<open>shutdownWithTimeout\<close> has returned is destroyed
  at once, even while an abandoned task is stuck for ever.
\<close>

theorem ThreadPool_destructor_after_drain:
  assumes "0 < timeout" and "abandoned_detached p"
    and "ThreadPool_shutdownWithTimeout done_at timeout now p = Some (n, p', t)"
  shows "ThreadPool_shutdown done_at' now' p' = Some (p', now')"
proof -
  obtain n1 p1 t1 where r: "ThreadPool_shutdownWithTimeout done_at timeout now p = Some (n1, p1, t1)"
    "tq_done (tp_queue p1)" "\<forall>w \<in> set (tp_workers p1). \<not> wk_joinable w"
    using shutdownWithTimeout_ends [OF assms(1,2), of done_at now] by blast
  then have p': "tq_done (tp_queue p')" "\<forall>w \<in> set (tp_workers p'). \<not> wk_joinable w"
    using assms(3) by simp_all
  have "join_all now' (worker_times done_at' p') = Some (tp_workers p', now')"
    by (subst join_all_detached) (use p'(2) in \<open>auto simp: worker_times_def dest: set_zip_leftD\<close>)
  then show ?thesis
    using p'(1) by (simp add: ThreadPool_shutdown_def TaskQueue_shutdown_def flip: worker_times_def)
qed

lemma ThreadPool_destructor_after_drain_witness:
  "ThreadPool_shutdown (\<lambda>_. None) 510000000 stuck_drained = Some (stuck_drained, 510000000)"
  by (rule ThreadPool_destructor_after_drain [OF _ stuck_detached stuck_drain]) simp

lemma join_all_blocks: "join_all now ws = None \<longleftrightarrow> (\<exists>(w, d) \<in> set ws. wk_joinable w \<and> d = None)"
  by (induction now ws rule: join_all.induct) (auto split: option.splits)

text \<open>
  Without a timeout the drain waits as long as it takes: it abandons nobody and returns 0,
  but it returns only if the loop of every joinable worker ends.
\<close>

theorem ThreadPool_drain_untimed:
  assumes "timeout \<le> 0"
  shows "(ThreadPool_shutdownWithTimeout done_at timeout now p \<noteq> None \<longleftrightarrow>
      (\<forall>i < length (tp_workers p). wk_joinable (tp_workers p ! i) \<longrightarrow> done_at i \<noteq> None)) \<and>
    ThreadPool_shutdownWithTimeout done_at timeout now p =
      map_option (\<lambda>(p', t). (0, p', t)) (ThreadPool_shutdown done_at now p)"
proof -
  have eq: "ThreadPool_shutdownWithTimeout done_at timeout now p =
      map_option (\<lambda>(p', t). (0, p', t)) (ThreadPool_shutdown done_at now p)"
    using assms by (simp add: ThreadPool_shutdownWithTimeout_def ThreadPool_shutdown_def Let_def
        option.map_comp comp_def case_prod_unfold)
  have "join_all now (worker_times done_at p) = None \<longleftrightarrow>
      (\<exists>i < length (tp_workers p). wk_joinable (tp_workers p ! i) \<and> done_at i = None)"
    unfolding join_all_blocks
  proof
    assume "\<exists>(w, d) \<in> set (worker_times done_at p). wk_joinable w \<and> d = None"
    then show "\<exists>i < length (tp_workers p). wk_joinable (tp_workers p ! i) \<and> done_at i = None"
      by (fastforce simp: in_set_conv_nth worker_times_nth)
  next
    assume "\<exists>i < length (tp_workers p). wk_joinable (tp_workers p ! i) \<and> done_at i = None"
    then obtain i where i: "i < length (tp_workers p)" "wk_joinable (tp_workers p ! i)" "done_at i = None"
      by blast
    then have "worker_times done_at p ! i \<in> set (worker_times done_at p)"
      by (intro nth_mem) (simp add: worker_times_nth)
    then show "\<exists>(w, d) \<in> set (worker_times done_at p). wk_joinable w \<and> d = None"
      using i worker_times_nth(2) [OF i(1), of done_at] by (metis (mono_tags, lifting) case_prodI)
  qed
  then show ?thesis
    using eq by (auto simp: ThreadPool_shutdown_def simp flip: worker_times_def)
qed

lemma ThreadPool_drain_untimed_witness:
  "ThreadPool_shutdownWithTimeout stuck_done 0 0 stuck_pool = None"
proof -
  have "wk_joinable (tp_workers stuck_pool ! 0) \<and> 0 < length (tp_workers stuck_pool) \<and> stuck_done 0 = None"
    by (simp add: stuck_pool_def stuck_done_def)
  then show ?thesis using ThreadPool_drain_untimed [of 0 stuck_done 0 stuck_pool] by blast
qed

end
