(* ===== verification/Request_Processor.thy ===== *)
theory Request_Processor
  imports Router Json_Text Thread_Pool
begin

text \<open>
  src/request_processor.cpp, src/http_task.cpp and src/status_handler.cpp: how a request becomes a
  response, either at once through the router or in a task of the thread pool. Posting to the
  \<open>io_context\<close> is an effect in the result; an exception is a value.
\<close>

section \<open>Tasks and responses\<close>

datatype cxx_exn = Std_exception string | Other_exception

text \<open>A call of \<open>HttpServer::sendResponse\<close>, made at once or posted to the I/O context.\<close>

record 'f delivery =
  dl_session :: nat
  dl_response :: "'f response"
  dl_request :: "'f request option" \<comment> \<open>a null pointer is \<^const>\<open>None\<close>\<close>

text \<open>\<open>HttpTask\<close>; its callback posts a delivery, or throws.\<close>

record 'f http_task =
  ht_request :: "'f request"
  ht_computeFn :: "'f request \<Rightarrow> cxx_exn + 'f response"
  ht_doneCallBack :: "'f response \<Rightarrow> cxx_exn + 'f delivery"

text \<open>
  The value is the log message, if any, and the delivery; an exception of the callback inside
  \<open>sendError\<close> leaves \<open>execute\<close>.
\<close>

definition HttpTask_execute :: "'f beast \<Rightarrow> 'f http_task \<Rightarrow> cxx_exn + (string option \<times> 'f delivery)" where
  "HttpTask_execute B t =
     (let sendError = (\<lambda>logMsg.
            let errorRes = makeResponse B (Response_new B) Internal_server_error
                  ''500 Internal Server Error'' ''text/plain''
            in map_sum id (Pair (Some logMsg)) (ht_doneCallBack t errorRes));
          attempt = (case ht_computeFn t (ht_request t) of
              Inl e \<Rightarrow> Inl e | Inr response \<Rightarrow> ht_doneCallBack t response)
      in case attempt of
           Inr d \<Rightarrow> Inr (None, d)
         | Inl (Std_exception what) \<Rightarrow> sendError (''HttpTask error: '' @ what)
         | Inl Other_exception \<Rightarrow> sendError ''HttpTask unknown error'')"

section \<open>The computation\<close>

text \<open>\<open>std::sort\<close> on a vector of \<open>int\<close>.\<close>

definition std_sort_int :: "cint list \<Rightarrow> cint list" where
  "std_sort_int numbers = sort_key sint numbers"

text \<open>The try block of the computation; \<^const>\<open>None\<close> if a call in it throws.\<close>

definition compute_try :: "'f beast \<Rightarrow> json_lib \<Rightarrow> 'f request \<Rightarrow> 'f response option" where
  "compute_try B J req =
     (let res = Response_new B in
      case jl_parse J (rq_body req) of
        None \<Rightarrow> None
      | Some json \<Rightarrow>
          if \<not> is_array json then
            makeJsonError B J res ''Request body must be an array of integers'' Bad_request
          else (case jl_get_int_vector J json of
              None \<Rightarrow> None
            | Some numbers \<Rightarrow>
                if numbers = [] then
                  makeJsonError B J res ''Request body must be an array of integers'' Bad_request
                else let sorted = std_sort_int numbers;
                         data = Json_object
                           [(''sorted'', Json_array (map (\<lambda>n. Json_int (sint n)) sorted)),
                            (''size'', Json_int (int (length sorted)))]
                     in makeJsonSuccess B J res data Ok))"

definition createComputeStrategy :: "'f beast \<Rightarrow> json_lib \<Rightarrow> 'f request \<Rightarrow> cxx_exn + 'f response" where
  "createComputeStrategy B J req =
     (case compute_try B J req of
        Some res \<Rightarrow> Inr res
      | None \<Rightarrow> (case makeJsonError B J (Response_new B) ''Invalid JSON'' Bad_request of
            Some res \<Rightarrow> Inr res
          | None \<Rightarrow> Inl (Std_exception (jl_dump_what J (Json_object
              [(''status'', Json_string ''error''), (''message'', Json_string ''Invalid JSON'')])))))"

section \<open>The processor\<close>

definition sendResponseAsync :: "nat \<Rightarrow> 'f response \<Rightarrow> 'f request option \<Rightarrow> 'f delivery" where
  "sendResponseAsync session response reqPtr =
     \<lparr>dl_session = session, dl_response = response, dl_request = reqPtr\<rparr>"

definition createDoneCallback :: "nat \<Rightarrow> 'f request \<Rightarrow> 'f response \<Rightarrow> cxx_exn + 'f delivery" where
  "createDoneCallback session req response = Inr (sendResponseAsync session response (Some req))"

definition compute_task :: "'f beast \<Rightarrow> json_lib \<Rightarrow> 'f request \<Rightarrow> nat \<Rightarrow> 'f http_task" where
  "compute_task B J req session =
     \<lparr>ht_request = req, ht_computeFn = createComputeStrategy B J,
      ht_doneCallBack = createDoneCallback session req\<rparr>"

definition is_compute :: "'f request \<Rightarrow> bool" where
  "is_compute req \<longleftrightarrow> rq_method req = Verb_post \<and> rq_target req = ''/compute''"

text \<open>
  \<open>process\<close>: the pool afterwards, what is posted, and what is passed to \<open>m_server.sendResponse\<close>
  at once. \<^const>\<open>None\<close> is an exception of a handler.
\<close>

definition RequestProcessor_process ::
  "'f beast \<Rightarrow> json_lib \<Rightarrow> ('h \<Rightarrow> 'f request \<Rightarrow> 'f response \<Rightarrow> 'f response option) \<Rightarrow> 'h routes \<Rightarrow>
   ticks \<Rightarrow> 'f request \<Rightarrow> cint \<Rightarrow> nat \<Rightarrow> 'f http_task thread_pool \<Rightarrow>
   ('f http_task thread_pool \<times> 'f delivery list \<times> 'f delivery list) option" where
  "RequestProcessor_process B J handle routes now req priority session pool =
     (if is_compute req then
        let (ok, pool') = ThreadPool_submit now (compute_task B J req session) priority pool
        in if \<not> ok then
             let errorRes = makeResponse B (Response_new B) Service_unavailable
                   ''503 Server overloaded'' ''text/plain''
             in Some (pool', [sendResponseAsync session errorRes None], [])
           else Some (pool', [], [])
      else
        (case Router_route B handle routes req (Response_new B) of
           None \<Rightarrow> None
         | Some (found, res) \<Rightarrow>
             let res = (if \<not> found then sendNotFound B res else res);
                 res = prepare_payload B res
             in Some (pool, [], [\<lparr>dl_session = session, dl_response = res, dl_request = Some req\<rparr>])))"

definition StatusHandler_handle ::
  "'f beast \<Rightarrow> json_lib \<Rightarrow> 'a thread_pool \<Rightarrow> 'f response \<Rightarrow> 'f response option" where
  "StatusHandler_handle B J pool res =
     makeJsonSuccess B J res
       (Json_object [(''threads'', Json_int (int (ThreadPool_threadCount pool))),
          (''queue_size'', Json_int (int (ThreadPool_pendingTasks pool)))]) Ok"

section \<open>What the computation answers\<close>

lemma sint_json_range: "json_int_range (sint (n :: cint))"
  using sint_le_INT_MAX [of n] sint_ge_INT_MIN [of n] by (simp add: json_int_range_def)

lemma jl_dumps: "json_laws J \<Longrightarrow> ascii_json j \<Longrightarrow> \<exists>s. jl_dump J j = Some s"
  by (auto simp: json_laws_def)

lemma jl_get_ints:
  "json_laws J \<Longrightarrow> list_all json_int_range ns \<Longrightarrow>
    jl_get_int_vector J (Json_array (map Json_int ns)) = Some (map of_int ns)"
  by (simp add: json_laws_def)

lemma jl_get_strings:
  "json_laws J \<Longrightarrow> Json_string s \<in> set js \<Longrightarrow> jl_get_int_vector J (Json_array js) = None"
  by (auto simp: json_laws_def)

lemma makeJsonError_ascii:
  assumes "json_laws J" and "ascii_string message"
  obtains body where "makeJsonError B J res message st = Some (makeResponse B res st body ''application/json'')"
    "jl_dump J (Json_object [(''status'', Json_string ''error''), (''message'', Json_string message)]) = Some body"
proof -
  have "ascii_json (Json_object [(''status'', Json_string ''error''), (''message'', Json_string message)])"
    using assms(2) by (simp add: ascii_string_def)
  from jl_dumps [OF assms(1) this] show thesis
    using that by (auto simp: makeJsonError_def)
qed

lemma makeJsonError_result: "makeJsonError B J res message st = Some r \<Longrightarrow> rs_result r = st"
  by (auto simp: makeJsonError_def)

lemma compute_invalid:
  assumes "json_laws J" and "compute_try B J req = None"
  shows "\<exists>res. createComputeStrategy B J req = Inr res \<and> rs_result res = Bad_request"
proof -
  have "ascii_string ''Invalid JSON''" by (simp add: ascii_string_def)
  then obtain body where "makeJsonError B J (Response_new B) ''Invalid JSON'' Bad_request =
      Some (makeResponse B (Response_new B) Bad_request body ''application/json'')"
    by (rule makeJsonError_ascii [OF assms(1)])
  then show ?thesis using assms(2) by (simp add: createComputeStrategy_def)
qed

lemma map_sort_sint: "map sint (std_sort_int ns) = sort (map sint ns)"
  unfolding std_sort_int_def
  by (rule properties_for_sort [symmetric]) simp_all

text \<open>
  \<open>POST /compute\<close> with an array of integers that fit into \<open>int\<close> answers 200 with the same
  integers in ascending order and their number, as JSON, with the length of that text as
  Content-Length.
\<close>

theorem compute_sorts:
  assumes "beast_laws B" and "json_laws J"
    and "jl_parse J (rq_body req) = Some (Json_array (map Json_int ns))" and "ns \<noteq> []"
    and "\<forall>n \<in> set ns. - (2 ^ 31) \<le> n \<and> n < 2 ^ 31" and "length ns < 2 ^ 64"
  shows "\<exists>res body. createComputeStrategy B J req = Inr res \<and> rs_result res = Ok \<and> rs_body res = body \<and>
    jl_dump J (Json_object [(''status'', Json_string ''ok''), (''data'', Json_object
      [(''sorted'', Json_array (map Json_int (sort ns))), (''size'', Json_int (int (length ns)))])]) = Some body \<and>
    response_field B ''Content-Type'' res = Some ''application/json'' \<and>
    response_field B ''Content-Length'' res = Some (nat_to_string (length body))"
proof -
  have ints: "map (\<lambda>n. sint (of_int n :: cint)) ns = ns"
    using assms(5) by (intro map_idI) (auto simp: signed_of_int intro!: signed_take_bit_int_eq_self)
  have "map sint (std_sort_int (map of_int ns)) = sort (map sint (map of_int ns :: cint list))"
    by (rule map_sort_sint)
  also have "\<dots> = sort ns" using ints by (simp add: o_def)
  finally have sorted: "map (\<lambda>n. Json_int (sint n)) (std_sort_int (map of_int ns)) = map Json_int (sort ns)"
    by (metis (no_types, lifting) comp_apply list.map_comp map_eq_conv)
  let ?data = "Json_object [(''sorted'', Json_array (map Json_int (sort ns))), (''size'', Json_int (int (length ns)))]"
  have "list_all ascii_json (map Json_int (sort ns))"
    using assms(5) by (auto simp: list_all_iff json_int_range_def)
  then have "ascii_json (Json_object [(''status'', Json_string ''ok''), (''data'', ?data)])"
    using assms(6) by (simp add: ascii_string_def json_int_range_def)
  then obtain body where body: "jl_dump J (Json_object [(''status'', Json_string ''ok''), (''data'', ?data)]) = Some body"
    using jl_dumps [OF assms(2)] by blast
  have "jl_get_int_vector J (Json_array (map Json_int ns)) = Some (map of_int ns)"
    using assms(5) by (intro jl_get_ints [OF assms(2)]) (auto simp: list_all_iff json_int_range_def)
  then have "createComputeStrategy B J req = Inr (makeResponse B (Response_new B) Ok body ''application/json'')"
    using assms(3,4) sorted body
    by (simp add: createComputeStrategy_def compute_try_def makeJsonSuccess_def Let_def std_sort_int_def)
  then show ?thesis using body makeResponse_fields [OF assms(1)] by simp
qed

definition example_request :: "string \<Rightarrow> string \<Rightarrow> (string \<times> string) list request" where
  "example_request target body = \<lparr>rq_method = Verb_post, rq_target = target, rq_fields = [], rq_body = body\<rparr>"

lemma compute_sorts_witness: "\<exists>res. createComputeStrategy example_beast example_json (example_request ''/compute'' ''[3,-1,2]'') = Inr res \<and>
   rs_body res = ''{\"status\":\"ok\",\"data\":{\"sorted\":[-1,2,3],\"size\":3}}''"
proof -
  let ?req = "example_request ''/compute'' ''[3,-1,2]''"
  have parse: "jl_parse example_json (rq_body ?req) = Some (Json_array (map Json_int [3, -1, 2]))"
    unfolding example_request_def by code_simp
  have "jl_dump example_json (Json_object [(''status'', Json_string ''ok''), (''data'', Json_object
      [(''sorted'', Json_array (map Json_int [-1, 2, 3])), (''size'', Json_int 3)])]) =
    Some ''{\"status\":\"ok\",\"data\":{\"sorted\":[-1,2,3],\"size\":3}}''" by code_simp
  then show ?thesis
    using compute_sorts [OF example_beast_laws example_json_laws parse] by auto
qed

text \<open>
  C31. \<open>POST /compute\<close> never fails with an exception: a body that is not JSON, is not an array, is
  an empty array or contains a string is answered with 400, and every other body with 400 or
  200.
\<close>

theorem compute_rejects:
  assumes "json_laws J"
  shows "\<exists>res. createComputeStrategy B J req = Inr res \<and> rs_result res \<in> {Ok, Bad_request} \<and>
    ((case jl_parse J (rq_body req) of
        None \<Rightarrow> True
      | Some (Json_array js) \<Rightarrow> js = [] \<or> (\<exists>s. Json_string s \<in> set js)
      | Some _ \<Rightarrow> True) \<longrightarrow> rs_result res = Bad_request)"
proof (cases "compute_try B J req")
  case None
  then show ?thesis using compute_invalid [OF assms None] by auto
next
  case (Some res)
  have run: "createComputeStrategy B J req = Inr res" using Some by (simp add: createComputeStrategy_def)
  obtain j where j: "jl_parse J (rq_body req) = Some j"
    using Some by (auto simp: compute_try_def Let_def split: option.splits)
  show ?thesis
  proof (cases "is_array j")
    case False
    then have "rs_result res = Bad_request"
      using Some j by (auto simp: compute_try_def Let_def dest: makeJsonError_result)
    then show ?thesis using run by simp
  next
    case True
    then obtain js where js: "j = Json_array js" by (cases j) auto
    obtain numbers where numbers: "jl_get_int_vector J j = Some numbers"
      using Some j True by (auto simp: compute_try_def Let_def split: option.splits)
    have no_string: "\<not> (\<exists>s. Json_string s \<in> set js)"
      using numbers js jl_get_strings [OF assms] by fastforce
    show ?thesis
    proof (cases "numbers = []")
      case True
      then have "rs_result res = Bad_request"
        using Some j numbers js by (auto simp: compute_try_def Let_def dest: makeJsonError_result)
      then show ?thesis using run by simp
    next
      case False
      then have "rs_result res = Ok"
        using Some j numbers js by (auto simp: compute_try_def makeJsonSuccess_def Let_def)
      moreover have "js \<noteq> []"
        using numbers js jl_get_ints [OF assms, of "[]"] False by auto
      ultimately show ?thesis using run j js no_string by simp
    qed
  qed
qed

lemma compute_rejects_witness: "\<exists>res. createComputeStrategy example_beast example_json (example_request ''/compute'' ''{'') = Inr res \<and>
   rs_result res = Bad_request"
proof -
  let ?req = "example_request ''/compute'' ''{''"
  have parse: "jl_parse example_json (rq_body ?req) = None"
    unfolding example_request_def by code_simp
  show ?thesis
    using compute_rejects [OF example_json_laws, where req = ?req and B = example_beast] parse by auto
qed

text \<open>
  A task of \<open>/compute\<close> posts exactly one response, to the session and with the request it was
  made for: the one computed, or 500 with an error in the log if the computation throws.
\<close>

theorem compute_task_responds_once:
  "HttpTask_execute B (compute_task B J req session) =
    (case createComputeStrategy B J req of
       Inr res \<Rightarrow> Inr (None, \<lparr>dl_session = session, dl_response = res, dl_request = Some req\<rparr>)
     | Inl e \<Rightarrow> Inr (Some (case e of Std_exception what \<Rightarrow> ''HttpTask error: '' @ what
           | Other_exception \<Rightarrow> ''HttpTask unknown error''),
         \<lparr>dl_session = session, dl_response = makeResponse B (Response_new B) Internal_server_error
            ''500 Internal Server Error'' ''text/plain'', dl_request = Some req\<rparr>))"
  by (simp add: HttpTask_execute_def compute_task_def createDoneCallback_def sendResponseAsync_def
      split: sum.splits cxx_exn.splits)

lemma submit_outcome:
  assumes "ThreadPool_submit now x pr pool = (ok, pool')"
  shows "tq_items (tp_queue pool') = (if ok then add_mset x (tq_items (tp_queue pool)) else tq_items (tp_queue pool))"
    and "ok \<longleftrightarrow> \<not> tq_done (tp_queue pool) \<and> length (tq_queue (tp_queue pool)) < unat (tq_max (tp_queue pool))"
proof -
  obtain q where q: "TaskQueue_push now x pr (tp_queue pool) = (ok, q)" "pool' = pool\<lparr>tp_queue := q\<rparr>"
    using assms by (rule ThreadPool_submit_cases)
  show "tq_items (tp_queue pool') = (if ok then add_mset x (tq_items (tp_queue pool)) else tq_items (tp_queue pool))"
    using tq_items_push [OF q(1)] q(2) by simp
  show "ok \<longleftrightarrow> \<not> tq_done (tp_queue pool) \<and> length (tq_queue (tp_queue pool)) < unat (tq_max (tp_queue pool))"
    using q(1) push_accepts_iff [of now x pr "tp_queue pool"] by simp
qed

text \<open>
  A request is answered once: \<open>process\<close> either queues one task for it, or hands over exactly
  one response for its session; a \<open>/compute\<close> request is refused with 503 and an end of the
  connection exactly when the queue is full or closed, and every other request is answered at
  once, with the size of the body as Content-Length.
\<close>

theorem process_answers_once:
  assumes "beast_laws B"
    and "RequestProcessor_process B J handle routes now req priority session pool = Some (pool', posted, direct)"
  shows "(if is_compute req then
      (if tq_done (tp_queue pool) \<or> unat (tq_max (tp_queue pool)) \<le> length (tq_queue (tp_queue pool))
       then tq_items (tp_queue pool') = tq_items (tp_queue pool) \<and> direct = [] \<and>
         (\<exists>res. posted = [\<lparr>dl_session = session, dl_response = res, dl_request = None\<rparr>] \<and>
           rs_result res = Service_unavailable)
       else tq_items (tp_queue pool') =
           add_mset (compute_task B J req session) (tq_items (tp_queue pool)) \<and> posted = [] \<and> direct = [])
     else pool' = pool \<and> posted = [] \<and>
       (\<exists>res. direct = [\<lparr>dl_session = session, dl_response = res, dl_request = Some req\<rparr>] \<and>
         response_field B ''Content-Length'' res = Some (nat_to_string (length (rs_body res)))))"
proof (cases "is_compute req")
  case True
  obtain ok p where sub: "ThreadPool_submit now (compute_task B J req session) priority pool = (ok, p)"
    by force
  show ?thesis
    using assms(2) submit_outcome [OF sub] sub True
    by (auto simp: RequestProcessor_process_def Let_def sendResponseAsync_def split: if_splits)
next
  case False
  then show ?thesis
    using assms(2) prepare_payload_fields [OF assms(1)]
    by (auto simp: RequestProcessor_process_def Let_def split: option.splits)
qed

lemma process_answers_once_witness: "\<exists>res posted. RequestProcessor_process example_beast example_json (\<lambda>h req res. Some res) ([] :: unit routes)
    5 (example_request ''/compute'' ''[1]'') 0 3 (ThreadPool_new 1 0) = Some (ThreadPool_new 1 0, posted, []) \<and>
    posted = [\<lparr>dl_session = 3, dl_response = res, dl_request = None\<rparr>] \<and> rs_result res = Service_unavailable"
proof -
  let ?req = "example_request ''/compute'' ''[1]''"
  have compute: "is_compute ?req" by (simp add: is_compute_def example_request_def)
  then have run: "RequestProcessor_process example_beast example_json (\<lambda>h req res. Some res) ([] :: unit routes)
      5 ?req 0 3 (ThreadPool_new 1 0) = Some (ThreadPool_new 1 0,
        [sendResponseAsync 3 (makeResponse example_beast (Response_new example_beast) Service_unavailable
           ''503 Server overloaded'' ''text/plain'') None], [])"
    by (simp add: RequestProcessor_process_def ThreadPool_submit_def ThreadPool_new_def TaskQueue_push_def
        TaskQueue_new_def)
  show ?thesis
    using process_answers_once [OF example_beast_laws run] run compute
    by (auto simp: ThreadPool_new_def TaskQueue_new_def)
qed

end
