(* ===== verification/Logger.thy ===== *)
theory Logger
  imports Queue_Interface "HOL-Library.Sublist"
begin

text \<open>
  The asynchronous logger of include/logger.hpp, src/logger.cpp and \<open>utils::formatTimePoint\<close> of
  include/utils.hpp: levels, the message queue, the sinks, the consumer thread and \<open>AsyncLogger\<close>,
  whose producers, consumer and owner are interleaved by the step relation \<open>logger_step\<close>.
  Not under src/, hence arguments: \<open>boost::algorithm::to_upper\<close> and the host's \<open>localtime_r\<close>.
\<close>

section \<open>Levels\<close>

datatype LogLevel = DEBUG | INFO | WARNING | ERROR

fun level_rank :: "LogLevel \<Rightarrow> nat" where
  "level_rank DEBUG = 0"
| "level_rank INFO = 1"
| "level_rank WARNING = 2"
| "level_rank ERROR = 3"

lemma level_rank_eq_iff [simp]: "level_rank a = level_rank b \<longleftrightarrow> a = b"
  by (cases a; cases b) simp_all

instantiation LogLevel :: linorder
begin

definition less_eq_LogLevel :: "LogLevel \<Rightarrow> LogLevel \<Rightarrow> bool" where
  "less_eq_LogLevel a b \<longleftrightarrow> level_rank a \<le> level_rank b"

definition less_LogLevel :: "LogLevel \<Rightarrow> LogLevel \<Rightarrow> bool" where
  "less_LogLevel a b \<longleftrightarrow> level_rank a < level_rank b"

instance
  by standard (auto simp: less_eq_LogLevel_def less_LogLevel_def)

end

definition logLevelToStr :: "LogLevel \<Rightarrow> string" where
  "logLevelToStr level = (case level of DEBUG \<Rightarrow> ''DEBUG'' | INFO \<Rightarrow> ''INFO''
     | WARNING \<Rightarrow> ''WARNING'' | ERROR \<Rightarrow> ''ERROR'')"

definition stringToLogLevel :: "(string \<Rightarrow> string) \<Rightarrow> string \<Rightarrow> LogLevel" where
  "stringToLogLevel to_upper level =
     (let upper = to_upper level in
      if upper = ''DEBUG'' then DEBUG
      else if upper = ''INFO'' then INFO
      else if upper = ''WARNING'' then WARNING
      else if upper = ''ERROR'' then ERROR
      else INFO)"

text \<open>What Boost documents of \<open>to_upper\<close>, in the classic locale.\<close>

definition to_upper_spec :: "(string \<Rightarrow> string) \<Rightarrow> bool" where
  "to_upper_spec to_upper \<longleftrightarrow> (\<forall>s. to_upper s = map ascii_upper s)"

lemma ascii_upper_level: "map ascii_upper (logLevelToStr l) = logLevelToStr l"
  by (cases l) (simp_all add: logLevelToStr_def ascii_upper_def Let_def)

lemma stringToLogLevel_logLevelToStr:
  "to_upper_spec up \<Longrightarrow> stringToLogLevel up (logLevelToStr l) = l"
  by (cases l) (simp_all add: stringToLogLevel_def to_upper_spec_def ascii_upper_level [unfolded logLevelToStr_def]
      logLevelToStr_def ascii_upper_def Let_def)

text \<open>
  A level survives the way through its name; the case of the letters does not matter; and
  every text that is no level's name is read as \<open>INFO\<close>.
\<close>

theorem stringToLogLevel_correct:
  assumes "to_upper_spec to_upper"
  shows "stringToLogLevel to_upper (logLevelToStr l) = l \<and>
    (map ascii_upper s = map ascii_upper t \<longrightarrow> stringToLogLevel to_upper s = stringToLogLevel to_upper t) \<and>
    (map ascii_upper s \<notin> range logLevelToStr \<longrightarrow> stringToLogLevel to_upper s = INFO)"
proof -
  have up: "to_upper u = map ascii_upper u" for u
    using assms by (simp add: to_upper_spec_def)
  have "logLevelToStr DEBUG = ''DEBUG''" "logLevelToStr INFO = ''INFO''"
    "logLevelToStr WARNING = ''WARNING''" "logLevelToStr ERROR = ''ERROR''"
    by (simp_all add: logLevelToStr_def)
  then have "map ascii_upper s \<notin> range logLevelToStr \<longrightarrow> stringToLogLevel to_upper s = INFO"
    by (auto simp: stringToLogLevel_def up Let_def) (metis rangeI)+
  then show ?thesis
    using stringToLogLevel_logLevelToStr [OF assms] by (auto simp: stringToLogLevel_def up)
qed

lemma stringToLogLevel_correct_witness:
  "stringToLogLevel (map ascii_upper) ''Warning'' = WARNING \<and> stringToLogLevel (map ascii_upper) ''loud'' = INFO"
proof -
  have "to_upper_spec (map ascii_upper)" by (simp add: to_upper_spec_def)
  note c = stringToLogLevel_correct [OF this]
  have "map ascii_upper ''Warning'' = map ascii_upper (logLevelToStr WARNING)" by code_simp
  then have "stringToLogLevel (map ascii_upper) ''Warning'' = WARNING" using c by metis
  moreover have "map ascii_upper ''loud'' \<notin> range logLevelToStr"
  proof -
    have "range logLevelToStr = {''DEBUG'', ''INFO'', ''WARNING'', ''ERROR''}"
    proof -
      have "UNIV = {DEBUG, INFO, WARNING, ERROR}" using LogLevel.exhaust by blast
      then have "range logLevelToStr = logLevelToStr ` {DEBUG, INFO, WARNING, ERROR}"
        by (simp only:)
      then show ?thesis by (simp add: logLevelToStr_def)
    qed
    moreover have "map ascii_upper ''loud'' = ''LOUD''" by code_simp
    ultimately show ?thesis by simp
  qed
  ultimately show ?thesis using c by blast
qed

section \<open>Messages and their lines\<close>

record log_message =
  lm_message :: string
  lm_timestamp :: ticks \<comment> \<open>nanoseconds of \<open>std::chrono::system_clock\<close>\<close>
  lm_level :: LogLevel

text \<open>The broken-down local time that \<open>localtime_r\<close> fills in, as far as the format reads it.\<close>

record tm =
  tm_year :: int
  tm_mon :: int
  tm_mday :: int
  tm_hour :: int
  tm_min :: int
  tm_sec :: int

definition to_time_t :: "ticks \<Rightarrow> int" where
  "to_time_t t = (if t < 0 then - ((- t) div 1000000000) else t div 1000000000)"

definition pad2 :: "int \<Rightarrow> string" where
  "pad2 n = (if 0 \<le> n \<and> n < 10 then CHR ''0'' # int_to_string n else int_to_string n)"

text \<open>\<open>std::put_time\<close> with the format \<open>%Y-%m-%d %H:%M:%S\<close>.\<close>

definition formatTimePoint :: "(int \<Rightarrow> tm) \<Rightarrow> ticks \<Rightarrow> string" where
  "formatTimePoint localtime tp =
     (let t = localtime (to_time_t tp) in
      int_to_string (tm_year t + 1900) @ ''-'' @ pad2 (tm_mon t + 1) @ ''-'' @ pad2 (tm_mday t) @ '' '' @
      pad2 (tm_hour t) @ '':'' @ pad2 (tm_min t) @ '':'' @ pad2 (tm_sec t))"

definition formatLogMessage :: "(int \<Rightarrow> tm) \<Rightarrow> log_message \<Rightarrow> string" where
  "formatLogMessage localtime msg =
     ''['' @ formatTimePoint localtime (lm_timestamp msg) @ '']'' @ ''['' @ logLevelToStr (lm_level msg) @
     ''] '' @ lm_message msg"

section \<open>The message queue\<close>

record message_queue =
  mq_queue :: "log_message list"
  mq_done :: bool

definition MessageQueue_push :: "log_message \<Rightarrow> message_queue \<Rightarrow> message_queue" where
  "MessageQueue_push msg q = q\<lparr>mq_queue := mq_queue q @ [msg]\<rparr>"

definition MessageQueue_pop :: "message_queue \<Rightarrow> (log_message option \<times> message_queue) option" where
  "MessageQueue_pop q =
     (if \<not> (mq_queue q \<noteq> [] \<or> mq_done q) then None
      else case mq_queue q of
        msg # rest \<Rightarrow> Some (Some msg, q\<lparr>mq_queue := rest\<rparr>)
      | [] \<Rightarrow> Some (None, q))"

definition MessageQueue_shutdown :: "message_queue \<Rightarrow> message_queue" where
  "MessageQueue_shutdown q = q\<lparr>mq_done := True\<rparr>"

definition MessageQueue_size :: "message_queue \<Rightarrow> nat" where
  "MessageQueue_size q = length (mq_queue q)"

lemma MessageQueue_pop_Cons:
  "mq_queue q = msg # rest \<Longrightarrow> MessageQueue_pop q = Some (Some msg, q\<lparr>mq_queue := rest\<rparr>)"
  by (simp add: MessageQueue_pop_def)

lemma MessageQueue_pop_Nil:
  "mq_queue q = [] \<Longrightarrow> MessageQueue_pop q = (if mq_done q then Some (None, q) else None)"
  by (simp add: MessageQueue_pop_def)

interpretation mq: closable_queue "\<lambda>_. True" "\<lambda>_. True" mq_done "\<lambda>q. mset (mq_queue q)"
    "\<lambda>t :: unit. MessageQueue_pop"
  by unfold_locales (auto simp: MessageQueue_pop_Cons MessageQueue_pop_Nil neq_Nil_conv)

lemma mq_loop_order:
  "consumer_loop (\<lambda>t :: unit. MessageQueue_pop) ts q = (xs, q', st) \<Longrightarrow>
    mq_queue q = xs @ mq_queue q'"
proof (induction ts arbitrary: q xs)
  case (Cons t ts)
  then show ?case
    by (cases "mq_queue q")
      (fastforce simp: MessageQueue_pop_Cons MessageQueue_pop_Nil split: if_splits prod.splits)+
qed simp

section \<open>Sinks\<close>

text \<open>A sink is the text it has written: of the console, or of the file it has open.\<close>

datatype log_sink = ConsoleSink string | FileSink string string

definition LogSink_line :: "(int \<Rightarrow> tm) \<Rightarrow> log_message \<Rightarrow> string" where
  "LogSink_line localtime msg = formatLogMessage localtime msg @ [CHR 0x0A]"

fun LogSink_write :: "(int \<Rightarrow> tm) \<Rightarrow> log_message \<Rightarrow> log_sink \<Rightarrow> log_sink" where
  "LogSink_write localtime msg (ConsoleSink out) = ConsoleSink (out @ LogSink_line localtime msg)"
| "LogSink_write localtime msg (FileSink path out) = FileSink path (out @ LogSink_line localtime msg)"

text \<open>The constructor opens the file for appending: what is in it stays, or it throws.\<close>

definition FileSink_new :: "(string \<Rightarrow> string option) \<Rightarrow> string \<Rightarrow> log_sink result" where
  "FileSink_new open_append path = (case open_append path of
     None \<Rightarrow> Inl (runtime_error (''Failed to open log file: '' @ path))
   | Some contents \<Rightarrow> Inr (FileSink path contents))"

fun sink_text :: "log_sink \<Rightarrow> string" where
  "sink_text (ConsoleSink out) = out"
| "sink_text (FileSink path out) = out"

lemma sink_text_write [simp]:
  "sink_text (LogSink_write lt msg s) = sink_text s @ LogSink_line lt msg"
  by (cases s) simp_all

section \<open>AsyncLogger\<close>

text \<open>
  The \<open>std::thread\<close> of the consumer: none yet, running its loop, returned from it but still
  joinable, or joined.
\<close>

datatype thread_state = No_Thread | Running | Returned | Joined

record async_logger =
  al_queue :: message_queue
  al_sink :: log_sink
  al_thread :: thread_state \<comment> \<open>\<open>LogConsumer::m_thread\<close>\<close>
  al_minLevel :: LogLevel

definition AsyncLogger_new :: "log_sink \<Rightarrow> async_logger" where
  "AsyncLogger_new sink = \<lparr>al_queue = \<lparr>mq_queue = [], mq_done = False\<rparr>, al_sink = sink,
     al_thread = No_Thread, al_minLevel = INFO\<rparr>"

definition AsyncLogger_log :: "ticks \<Rightarrow> string \<Rightarrow> LogLevel \<Rightarrow> async_logger \<Rightarrow> async_logger" where
  "AsyncLogger_log now message level l =
     (if level < al_minLevel l then l
      else l\<lparr>al_queue := MessageQueue_push
               \<lparr>lm_message = message, lm_timestamp = now, lm_level = level\<rparr> (al_queue l)\<rparr>)"

definition AsyncLogger_setMinLevel :: "LogLevel \<Rightarrow> async_logger \<Rightarrow> async_logger" where
  "AsyncLogger_setMinLevel level l = l\<lparr>al_minLevel := level\<rparr>"

text \<open>
  \<open>start\<close> assigns a new thread to \<open>m_thread\<close>; assigning to a joinable thread calls
  \<open>std::terminate\<close>, which is \<^const>\<open>None\<close> here.
\<close>

definition LogConsumer_start :: "async_logger \<Rightarrow> async_logger option" where
  "LogConsumer_start l =
     (if al_thread l = Running \<or> al_thread l = Returned then None
      else Some (l\<lparr>al_thread := Running\<rparr>))"

text \<open>One round of the consumer's loop; \<^const>\<open>None\<close> while it waits for a message.\<close>

definition LogConsumer_round :: "(int \<Rightarrow> tm) \<Rightarrow> async_logger \<Rightarrow> async_logger option" where
  "LogConsumer_round localtime l =
     (case MessageQueue_pop (al_queue l) of
        None \<Rightarrow> None
      | Some (None, q) \<Rightarrow> Some (l\<lparr>al_queue := q, al_thread := Returned\<rparr>)
      | Some (Some msg, q) \<Rightarrow>
          Some (l\<lparr>al_queue := q, al_sink := LogSink_write localtime msg (al_sink l)\<rparr>))"

text \<open>\<open>join\<close>: at once if there is no joinable thread, otherwise once the thread has returned.\<close>

definition LogConsumer_join :: "async_logger \<Rightarrow> async_logger option" where
  "LogConsumer_join l = (case al_thread l of
     No_Thread \<Rightarrow> Some l | Joined \<Rightarrow> Some l | Running \<Rightarrow> None
   | Returned \<Rightarrow> Some (l\<lparr>al_thread := Joined\<rparr>))"

text \<open>\<open>AsyncLogger::shutdown\<close> is this, and then \<^const>\<open>LogConsumer_join\<close>.\<close>

definition AsyncLogger_close :: "async_logger \<Rightarrow> async_logger" where
  "AsyncLogger_close l = l\<lparr>al_queue := MessageQueue_shutdown (al_queue l)\<rparr>"

text \<open>
  \<open>AsyncLogger::shutdown\<close> with the consumer running beside it, for a number of rounds: \<^const>\<open>None\<close>
  if the join still blocks after them.
\<close>

fun LogConsumer_rounds :: "(int \<Rightarrow> tm) \<Rightarrow> nat \<Rightarrow> async_logger \<Rightarrow> async_logger" where
  "LogConsumer_rounds localtime 0 l = l"
| "LogConsumer_rounds localtime (Suc n) l =
     (if al_thread l \<noteq> Running then l
      else case LogConsumer_round localtime l of None \<Rightarrow> l
        | Some l' \<Rightarrow> LogConsumer_rounds localtime n l')"

definition AsyncLogger_shutdown :: "(int \<Rightarrow> tm) \<Rightarrow> nat \<Rightarrow> async_logger \<Rightarrow> async_logger option" where
  "AsyncLogger_shutdown localtime n l =
     LogConsumer_join (LogConsumer_rounds localtime n (AsyncLogger_close l))"

text \<open>The message that \<open>log\<close> adds to the queue, if it lets it through; and the log, written or queued.\<close>

definition logged :: "ticks \<Rightarrow> string \<Rightarrow> LogLevel \<Rightarrow> async_logger \<Rightarrow> log_message list" where
  "logged now message level l =
     (if level < al_minLevel l then [] else [\<lparr>lm_message = message, lm_timestamp = now, lm_level = level\<rparr>])"

definition log_text :: "(int \<Rightarrow> tm) \<Rightarrow> async_logger \<Rightarrow> string" where
  "log_text localtime l = sink_text (al_sink l) @ concat (map (LogSink_line localtime) (mq_queue (al_queue l)))"

lemma queue_after_log: "mq_queue (al_queue (AsyncLogger_log now m lvl l)) = mq_queue (al_queue l) @ logged now m lvl l"
  by (simp add: AsyncLogger_log_def logged_def MessageQueue_push_def)

lemma log_text_log:
  "log_text lt (AsyncLogger_log now m lvl l) = log_text lt l @ concat (map (LogSink_line lt) (logged now m lvl l))"
  by (simp add: log_text_def queue_after_log) (simp add: AsyncLogger_log_def)

lemma logged_log [simp]: "logged now m lvl (AsyncLogger_log now' m' lvl' l) = logged now m lvl l"
  by (simp add: logged_def AsyncLogger_log_def)

section \<open>Producers, consumer and owner interleaved\<close>

datatype logger_event =
    Ev_log ticks string LogLevel | Ev_level LogLevel | Ev_start | Ev_close | Ev_join
  | Ev_write log_message | Ev_return

inductive logger_step ::
  "(int \<Rightarrow> tm) \<Rightarrow> async_logger \<Rightarrow> logger_event \<Rightarrow> async_logger \<Rightarrow> bool" for lt where
  ev_log: "logger_step lt l (Ev_log now s lvl) (AsyncLogger_log now s lvl l)"
| ev_level: "logger_step lt l (Ev_level lvl) (AsyncLogger_setMinLevel lvl l)"
| ev_start: "LogConsumer_start l = Some l' \<Longrightarrow> logger_step lt l Ev_start l'"
| ev_close: "logger_step lt l Ev_close (AsyncLogger_close l)"
| ev_join: "LogConsumer_join l = Some l' \<Longrightarrow> logger_step lt l Ev_join l'"
| ev_write: "al_thread l = Running \<Longrightarrow> MessageQueue_pop (al_queue l) = Some (Some m, q) \<Longrightarrow>
    LogConsumer_round lt l = Some l' \<Longrightarrow> logger_step lt l (Ev_write m) l'"
| ev_return: "al_thread l = Running \<Longrightarrow> MessageQueue_pop (al_queue l) = Some (None, q) \<Longrightarrow>
    LogConsumer_round lt l = Some l' \<Longrightarrow> logger_step lt l Ev_return l'"

inductive_cases logger_stepE: "logger_step lt l ev l'"

inductive logger_run :: "(int \<Rightarrow> tm) \<Rightarrow> async_logger \<Rightarrow> logger_event list \<Rightarrow> async_logger \<Rightarrow> bool"
  for lt l0 where
  init: "logger_run lt l0 [] l0"
| step: "logger_run lt l0 evs l \<Longrightarrow> logger_step lt l ev l' \<Longrightarrow> logger_run lt l0 (evs @ [ev]) l'"

text \<open>
  The history of a run: the messages \<open>log\<close> let through (their level was not below the minimum
  at that point), and those the consumer has written.
\<close>

definition let_through :: "LogLevel \<Rightarrow> logger_event list \<Rightarrow> log_message list" where
  "let_through min0 evs = snd (foldl (\<lambda>(mn, ms) ev. case ev of
       Ev_log now s lvl \<Rightarrow>
         (mn, if mn \<le> lvl then ms @ [\<lparr>lm_message = s, lm_timestamp = now, lm_level = lvl\<rparr>] else ms)
     | Ev_level lvl \<Rightarrow> (lvl, ms)
     | _ \<Rightarrow> (mn, ms)) (min0, []) evs)"

definition min_level :: "LogLevel \<Rightarrow> logger_event list \<Rightarrow> LogLevel" where
  "min_level min0 evs = foldl (\<lambda>mn ev. case ev of Ev_level lvl \<Rightarrow> lvl | _ \<Rightarrow> mn) min0 evs"

fun written :: "logger_event list \<Rightarrow> log_message list" where
  "written [] = []"
| "written (Ev_write m # evs) = m # written evs"
| "written (_ # evs) = written evs"

lemma written_append [simp]: "written (xs @ ys) = written xs @ written ys"
  by (induction xs rule: written.induct) simp_all

lemma let_through_fst:
  "fst (foldl (\<lambda>(mn, ms) ev. case ev of
       Ev_log now s lvl \<Rightarrow>
         (mn, if mn \<le> lvl then ms @ [\<lparr>lm_message = s, lm_timestamp = now, lm_level = lvl\<rparr>] else ms)
     | Ev_level lvl \<Rightarrow> (lvl, ms)
     | _ \<Rightarrow> (mn, ms)) (mn0, ms0) evs) = min_level mn0 evs"
  by (induction evs arbitrary: mn0 ms0) (auto simp: min_level_def split: logger_event.splits)

lemma let_through_snoc:
  "let_through mn (evs @ [ev]) = (case ev of
     Ev_log now s lvl \<Rightarrow> if min_level mn evs \<le> lvl
       then let_through mn evs @ [\<lparr>lm_message = s, lm_timestamp = now, lm_level = lvl\<rparr>]
       else let_through mn evs
   | _ \<Rightarrow> let_through mn evs)"
  using let_through_fst [of mn "[]" evs]
  by (auto simp: let_through_def split: logger_event.splits prod.splits)

lemma min_level_snoc:
  "min_level mn (evs @ [ev]) = (case ev of Ev_level lvl \<Rightarrow> lvl | _ \<Rightarrow> min_level mn evs)"
  by (simp add: min_level_def split: logger_event.splits)

lemma let_through_Nil [simp]: "let_through mn [] = []" "min_level mn [] = mn"
  by (simp_all add: let_through_def min_level_def)

lemma logger_run_fifo:
  assumes "logger_run lt (AsyncLogger_new sink) evs l"
  shows "let_through INFO evs = written evs @ mq_queue (al_queue l)"
    and "sink_text (al_sink l) = sink_text sink @ concat (map (LogSink_line lt) (written evs))"
proof -
  have "let_through INFO evs = written evs @ mq_queue (al_queue l) \<and>
    sink_text (al_sink l) = sink_text sink @ concat (map (LogSink_line lt) (written evs)) \<and>
    al_minLevel l = min_level INFO evs"
    using assms
  proof (induction rule: logger_run.induct)
    case init
    then show ?case by (simp add: AsyncLogger_new_def)
  next
    case (step evs l ev l')
    from step.hyps(2) show ?case
    proof cases
      case ev_write
      then show ?thesis
        using step.IH by (auto simp: let_through_snoc min_level_snoc LogConsumer_round_def
            MessageQueue_pop_def split: list.splits if_splits)
    next
      case ev_return
      then show ?thesis
        using step.IH by (auto simp: let_through_snoc min_level_snoc LogConsumer_round_def
            MessageQueue_pop_def split: list.splits if_splits)
    qed (use step.IH in \<open>auto simp: let_through_snoc min_level_snoc AsyncLogger_log_def
        AsyncLogger_setMinLevel_def LogConsumer_start_def AsyncLogger_close_def LogConsumer_join_def
        MessageQueue_push_def MessageQueue_shutdown_def not_less split: if_splits thread_state.splits\<close>)
  qed
  then show "let_through INFO evs = written evs @ mq_queue (al_queue l)"
    and "sink_text (al_sink l) = sink_text sink @ concat (map (LogSink_line lt) (written evs))"
    by blast+
qed

text \<open>A complete run, from the first message to the end of the consumer.\<close>

lemma logger_example_run:
  fixes lt :: "int \<Rightarrow> tm"
  defines "m \<equiv> \<lparr>lm_message = ''hello'', lm_timestamp = 0, lm_level = WARNING\<rparr>"
  shows "logger_run lt (AsyncLogger_new (ConsoleSink []))
      [Ev_log 0 ''quiet'' DEBUG, Ev_log 0 ''hello'' WARNING, Ev_start, Ev_close, Ev_write m, Ev_return]
      \<lparr>al_queue = \<lparr>mq_queue = [], mq_done = True\<rparr>, al_sink = ConsoleSink (LogSink_line lt m),
       al_thread = Returned, al_minLevel = INFO\<rparr>"
proof -
  let ?init = "AsyncLogger_new (ConsoleSink [])"
  let ?l = "\<lambda>ms d out th. \<lparr>al_queue = \<lparr>mq_queue = ms, mq_done = d\<rparr>, al_sink = ConsoleSink out,
       al_thread = th, al_minLevel = INFO\<rparr>"
  have s1: "logger_step lt ?init (Ev_log 0 ''quiet'' DEBUG) ?init"
    using logger_step.ev_log [of lt ?init 0 "''quiet''" DEBUG]
    by (simp add: AsyncLogger_log_def AsyncLogger_new_def less_LogLevel_def)
  have s2: "logger_step lt ?init (Ev_log 0 ''hello'' WARNING) (?l [m] False [] No_Thread)"
    using logger_step.ev_log [of lt ?init 0 "''hello''" WARNING]
    by (simp add: AsyncLogger_log_def AsyncLogger_new_def less_LogLevel_def MessageQueue_push_def m_def)
  have s3: "logger_step lt (?l [m] False [] No_Thread) Ev_start (?l [m] False [] Running)"
    by (rule logger_step.ev_start) (simp add: LogConsumer_start_def)
  have s4: "logger_step lt (?l [m] False [] Running) Ev_close (?l [m] True [] Running)"
    using logger_step.ev_close [of lt "?l [m] False [] Running"]
    by (simp add: AsyncLogger_close_def MessageQueue_shutdown_def)
  have s5: "logger_step lt (?l [m] True [] Running) (Ev_write m) (?l [] True (LogSink_line lt m) Running)"
    by (rule logger_step.ev_write [of _ _ "\<lparr>mq_queue = [], mq_done = True\<rparr>"])
      (simp_all add: LogConsumer_round_def MessageQueue_pop_Cons)
  have s6: "logger_step lt (?l [] True (LogSink_line lt m) Running) Ev_return
      (?l [] True (LogSink_line lt m) Returned)"
    by (rule logger_step.ev_return [of _ "\<lparr>mq_queue = [], mq_done = True\<rparr>"])
      (simp_all add: LogConsumer_round_def MessageQueue_pop_Nil)
  note run = logger_run.step [OF logger_run.step [OF logger_run.step [OF logger_run.step [OF
        logger_run.step [OF logger_run.step [OF logger_run.init s1] s2] s3] s4] s5] s6]
  then show ?thesis by simp
qed

text \<open>
  C29. The log is first in, first out and loses or repeats nothing: whatever the producers, the
  consumer and the owner do and in whatever order, the messages let through so far are exactly
  those written, in that order, followed by those still queued; and the sink's text is what it
  held at the start followed by one line per written message.
\<close>

theorem logger_fifo:
  assumes "logger_run lt (AsyncLogger_new sink) evs l"
  shows "let_through INFO evs = written evs @ mq_queue (al_queue l) \<and>
    sink_text (al_sink l) = sink_text sink @ concat (map (LogSink_line lt) (written evs))"
  using logger_run_fifo [OF assms] by simp

lemma logger_fifo_witness:
  "let_through INFO [Ev_log 0 ''quiet'' DEBUG, Ev_log 0 ''hello'' WARNING, Ev_start, Ev_close,
      Ev_write \<lparr>lm_message = ''hello'', lm_timestamp = 0, lm_level = WARNING\<rparr>, Ev_return] =
    [\<lparr>lm_message = ''hello'', lm_timestamp = 0, lm_level = WARNING\<rparr>]"
  using logger_fifo [OF logger_example_run] by simp

text \<open>The queue is closed only by a close, and what has been let through stays so.\<close>

lemma closed_by_close:
  assumes "logger_run lt (AsyncLogger_new sink) evs l" and "mq_done (al_queue l)"
  shows "Ev_close \<in> set evs"
  using assms
proof (induction rule: logger_run.induct)
  case init
  then show ?case by (simp add: AsyncLogger_new_def)
next
  case (step evs l ev l')
  from step.hyps(2) show ?case
  proof cases
    case ev_write
    then show ?thesis
      using step by (auto simp: LogConsumer_round_def MessageQueue_pop_def split: list.splits if_splits)
  next
    case ev_return
    then show ?thesis
      using step by (auto simp: LogConsumer_round_def MessageQueue_pop_def split: list.splits if_splits)
  qed (use step in \<open>auto simp: AsyncLogger_log_def AsyncLogger_setMinLevel_def LogConsumer_start_def
      LogConsumer_join_def MessageQueue_push_def split: if_splits thread_state.splits\<close>)
qed

lemma let_through_prefix: "prefix (let_through mn xs) (let_through mn (xs @ ys))"
proof (induction ys rule: rev_induct)
  case (snoc y ys)
  have "prefix (let_through mn (xs @ ys)) (let_through mn ((xs @ ys) @ [y]))"
    unfolding let_through_snoc by (simp split: logger_event.split)
  then show ?case using snoc.IH by (metis append.assoc prefix_order.trans)
qed simp

text \<open>Where the consumer has returned: after a close, and with nothing left in the queue.\<close>

lemma consumer_returned:
  assumes "logger_run lt (AsyncLogger_new sink) evs l" and "al_thread l \<in> {Returned, Joined}"
  shows "\<exists>before after. evs = before @ Ev_return # after \<and> Ev_close \<in> set before \<and>
    let_through INFO before = written before \<and> written after = []"
  using assms
proof (induction rule: logger_run.induct)
  case init
  then show ?case by (simp add: AsyncLogger_new_def)
next
  case (step evs l ev l')
  have extend: ?case if "al_thread l \<in> {Returned, Joined}" "written [ev] = []"
  proof -
    from step.IH [OF that(1)] obtain before after where "evs = before @ Ev_return # after" "Ev_close \<in> set before"
      "let_through INFO before = written before" "written after = []"
      by blast
    then show ?thesis
      using that(2) by (intro exI [of _ before] exI [of _ "after @ [ev]"]) simp
  qed
  from step.hyps(2) show ?case
  proof cases
    case (ev_return q)
    then have "mq_queue (al_queue l) = []" "mq_done (al_queue l)"
      by (auto simp: MessageQueue_pop_def split: list.splits if_splits)
    then have "let_through INFO evs = written evs" "Ev_close \<in> set evs"
      using logger_run_fifo(1) [OF step.hyps(1)] closed_by_close [OF step.hyps(1)] by simp_all
    then show ?thesis using ev_return by fastforce
  next
    case (ev_write m q)
    then show ?thesis using step.prems by (auto simp: LogConsumer_round_def)
  qed (use step.prems extend in \<open>auto simp: AsyncLogger_log_def AsyncLogger_setMinLevel_def
      LogConsumer_start_def AsyncLogger_close_def LogConsumer_join_def split: if_splits thread_state.splits\<close>)
qed

text \<open>
  C30. \<open>shutdown\<close> loses nothing: when the consumer thread has returned, in particular when \<open>shutdown\<close> has
  joined it, the queue had been closed before, and every message let through before that close (and
  any that came between the close and the return) has a line in the sink, in order; after the return
  nothing is written. So the consumer never leaves early, however the threads interleave.
\<close>

theorem logger_flushes:
  assumes "logger_run lt (AsyncLogger_new sink) evs l" and "al_thread l \<in> {Returned, Joined}"
  shows "\<exists>opened closed after. evs = opened @ Ev_close # closed @ Ev_return # after \<and> Ev_close \<notin> set opened \<and>
    prefix (let_through INFO opened) (written evs) \<and>
    written evs = let_through INFO (opened @ Ev_close # closed) \<and> written after = [] \<and>
    sink_text (al_sink l) = sink_text sink @ concat (map (LogSink_line lt) (written evs))"
proof -
  obtain before after where run: "evs = before @ Ev_return # after" "Ev_close \<in> set before"
    "let_through INFO before = written before" "written after = []"
    using consumer_returned [OF assms] by blast
  obtain opened closed where before: "before = opened @ Ev_close # closed" "Ev_close \<notin> set opened"
    using split_list_first [OF run(2)] by blast
  have "written evs = let_through INFO before" using run(1,3,4) by simp
  moreover have "prefix (let_through INFO opened) (let_through INFO before)"
    unfolding before(1) by (rule let_through_prefix)
  ultimately show ?thesis
    using run before logger_run_fifo(2) [OF assms(1)]
    by (intro exI [of _ opened] exI [of _ closed] exI [of _ after]) simp
qed

lemma logger_flushes_witness:
  "\<exists>opened closed after. [Ev_log 0 ''quiet'' DEBUG, Ev_log 0 ''hello'' WARNING, Ev_start, Ev_close,
      Ev_write \<lparr>lm_message = ''hello'', lm_timestamp = 0, lm_level = WARNING\<rparr>, Ev_return] =
      opened @ Ev_close # closed @ Ev_return # after \<and>
    prefix (let_through INFO opened) [\<lparr>lm_message = ''hello'', lm_timestamp = 0, lm_level = WARNING\<rparr>]"
  using logger_flushes [OF logger_example_run] by fastforce

section \<open>Shutdown returns\<close>

lemma LogConsumer_rounds_stopped:
  "al_thread l \<noteq> Running \<Longrightarrow> LogConsumer_rounds lt n l = l"
  by (cases n) simp_all

lemma LogConsumer_rounds_loop:
  assumes "al_thread l = Running"
    and "consumer_loop (\<lambda>t :: unit. MessageQueue_pop) (replicate n ()) (al_queue l) = (ms, q, st)"
  shows "LogConsumer_rounds lt n l = l\<lparr>al_queue := q, al_sink := fold (LogSink_write lt) ms (al_sink l),
    al_thread := if st = Loop_Left then Returned else Running\<rparr>"
  using assms
proof (induction n arbitrary: l ms)
  case 0
  then show ?case by auto
next
  case (Suc n)
  then show ?case
    by (auto simp: LogConsumer_round_def LogConsumer_rounds_stopped split: option.splits prod.splits)
qed

lemma sink_text_fold:
  "sink_text (fold (LogSink_write lt) ms s) = sink_text s @ concat (map (LogSink_line lt) ms)"
  by (induction ms arbitrary: s) simp_all

lemma logger_shutdown_ends:
  assumes "al_thread l = Running" and "length (mq_queue (al_queue l)) < n"
  shows "\<exists>l'. AsyncLogger_shutdown lt n l = Some l' \<and> al_thread l' = Joined \<and>
    mq_queue (al_queue l') = [] \<and>
    sink_text (al_sink l') =
      sink_text (al_sink l) @ concat (map (LogSink_line lt) (mq_queue (al_queue l)))"
proof -
  let ?c = "AsyncLogger_close l"
  have c: "al_thread ?c = Running" "al_sink ?c = al_sink l" "mq_done (al_queue ?c)"
    "mq_queue (al_queue ?c) = mq_queue (al_queue l)"
    using assms(1) by (simp_all add: AsyncLogger_close_def MessageQueue_shutdown_def)
  obtain ms q where loop: "consumer_loop (\<lambda>t :: unit. MessageQueue_pop) (replicate n ()) (al_queue ?c) =
      (ms, q, Loop_Left)" and q: "mq_queue q = []"
    using mq.loop_drains [of "al_queue ?c" "replicate n ()"] assms(2) c by auto
  moreover have "mq_queue (al_queue l) = ms"
    using mq_loop_order [OF loop] q c by simp
  ultimately show ?thesis
    using LogConsumer_rounds_loop [OF c(1) loop, of lt] c
    by (simp add: AsyncLogger_shutdown_def LogConsumer_join_def sink_text_fold)
qed

text \<open>
  \<open>shutdown\<close> of a started logger returns, and leaves nothing unwritten: after one round of the
  consumer per queued message and one more, the join succeeds, the queue is empty, and the sink
  holds a line for every message that was queued, in order.
\<close>

theorem AsyncLogger_shutdown_returns:
  assumes "al_thread l = Running" and "length (mq_queue (al_queue l)) < n"
  shows "\<exists>l'. AsyncLogger_shutdown lt n l = Some l' \<and> al_thread l' = Joined \<and>
    mq_queue (al_queue l') = [] \<and>
    sink_text (al_sink l') =
      sink_text (al_sink l) @ concat (map (LogSink_line lt) (mq_queue (al_queue l)))"
  by (rule logger_shutdown_ends [OF assms])

lemma AsyncLogger_shutdown_returns_witness:
  "\<exists>l'. AsyncLogger_shutdown (\<lambda>t. \<lparr>tm_year = 126, tm_mon = 0, tm_mday = 2, tm_hour = 3, tm_min = 4, tm_sec = 5\<rparr>)
      2 \<lparr>al_queue = \<lparr>mq_queue = [\<lparr>lm_message = ''up'', lm_timestamp = 0, lm_level = INFO\<rparr>], mq_done = False\<rparr>,
        al_sink = ConsoleSink [], al_thread = Running, al_minLevel = INFO\<rparr> = Some l' \<and>
    sink_text (al_sink l') = ''[2026-01-02 03:04:05][INFO] up'' @ [CHR 0x0A]"
proof -
  let ?lt = "\<lambda>t :: int. \<lparr>tm_year = 126, tm_mon = 0, tm_mday = 2, tm_hour = 3, tm_min = 4, tm_sec = 5\<rparr>"
  let ?l = "\<lparr>al_queue = \<lparr>mq_queue = [\<lparr>lm_message = ''up'', lm_timestamp = 0, lm_level = INFO\<rparr>], mq_done = False\<rparr>,
        al_sink = ConsoleSink [], al_thread = Running, al_minLevel = INFO\<rparr>"
  have "LogSink_line ?lt \<lparr>lm_message = ''up'', lm_timestamp = 0, lm_level = INFO\<rparr> =
      ''[2026-01-02 03:04:05][INFO] up'' @ [CHR 0x0A]"
    by code_simp
  moreover from AsyncLogger_shutdown_returns [of ?l 2 ?lt]
  obtain l' where "AsyncLogger_shutdown ?lt 2 ?l = Some l'"
    "sink_text (al_sink l') = LogSink_line ?lt \<lparr>lm_message = ''up'', lm_timestamp = 0, lm_level = INFO\<rparr>"
    by auto
  ultimately show ?thesis by simp
qed

text \<open>
  A logger that was never started can still be shut down: \<open>shutdown\<close> returns at once, and the
  messages stay in the queue, unwritten.
\<close>

theorem AsyncLogger_shutdown_unstarted:
  assumes "al_thread l = No_Thread"
  shows "AsyncLogger_shutdown lt n l = Some (AsyncLogger_close l)"
proof -
  have "al_thread (AsyncLogger_close l) = No_Thread"
    using assms by (simp add: AsyncLogger_close_def)
  then show ?thesis
    by (cases n) (simp_all add: AsyncLogger_shutdown_def LogConsumer_join_def)
qed

lemma AsyncLogger_shutdown_unstarted_witness:
  "AsyncLogger_shutdown (\<lambda>t. \<lparr>tm_year = 126, tm_mon = 0, tm_mday = 2, tm_hour = 3, tm_min = 4, tm_sec = 5\<rparr>) 0
      (AsyncLogger_new (ConsoleSink ''x'')) =
    Some (AsyncLogger_close (AsyncLogger_new (ConsoleSink ''x'')))"
  by (rule AsyncLogger_shutdown_unstarted) (simp add: AsyncLogger_new_def)

end
