(* ===== verification/Config.thy ===== *)
theory Config
  imports Logger Json_Text
begin

text \<open>
  \<open>Config\<close> of src/config.cpp and include/config.hpp, and \<open>main\<close>: the options as a record, their way
  through JSON and the command line, and the start of the program from a configuration file that
  may be missing or broken. \<open>argv\<close> without the name of the program is a list of strings;
  \<open>std::chrono::seconds\<close> is a 64-bit signed number.
\<close>

section \<open>The options\<close>

record config =
  cf_port :: ushort
  cf_bind_address :: string
  cf_threads :: size_t
  cf_io_threads :: uint
  cf_static_root :: string
  cf_static_max_file_size_mb :: size_t
  cf_log_level :: LogLevel
  cf_sample_rate :: uint
  cf_log_file_path :: string
  cf_body_limit_mb :: size_t
  cf_max_queue_size :: size_t
  cf_max_connections :: size_t
  cf_server_name :: string
  cf_cors_allow_origin :: string
  cf_enable_keepalive :: bool
  cf_keepalive_timeout_sec :: "64 word"
  cf_max_keepalive_requests :: size_t
  cf_drain_timeout_sec :: "64 word"

text \<open>The defaults; the argument is \<open>std::thread::hardware_concurrency()\<close>, which may be 0.\<close>

definition Config_default :: "uint \<Rightarrow> config" where
  "Config_default hardware_concurrency =
     \<lparr>cf_port = 8080, cf_bind_address = ''0.0.0.0'', cf_threads = ucast hardware_concurrency,
      cf_io_threads = 4, cf_static_root = ''static'', cf_static_max_file_size_mb = 10,
      cf_log_level = INFO, cf_sample_rate = 100, cf_log_file_path = [], cf_body_limit_mb = 10,
      cf_max_queue_size = 1000, cf_max_connections = 10000,
      cf_server_name = ''PriorityHttpServer/2.0'', cf_cors_allow_origin = ''*'',
      cf_enable_keepalive = True, cf_keepalive_timeout_sec = 30, cf_max_keepalive_requests = 500,
      cf_drain_timeout_sec = 5\<rparr>"

section \<open>JSON\<close>

definition Config_toJson :: "config \<Rightarrow> json" where
  "Config_toJson c = Json_object
     [(''port'', Json_int (uint (cf_port c))),
      (''bind_address'', Json_string (cf_bind_address c)),
      (''threads'', Json_int (uint (cf_threads c))),
      (''io_threads'', Json_int (uint (cf_io_threads c))),
      (''static_root'', Json_string (cf_static_root c)),
      (''static_max_file_size_mb'', Json_int (uint (cf_static_max_file_size_mb c))),
      (''log_level'', Json_string (logLevelToStr (cf_log_level c))),
      (''sample_rate'', Json_int (uint (cf_sample_rate c))),
      (''log_file_path'', Json_string (cf_log_file_path c)),
      (''body_limit_mb'', Json_int (uint (cf_body_limit_mb c))),
      (''max_queue_size'', Json_int (uint (cf_max_queue_size c))),
      (''max_connections'', Json_int (uint (cf_max_connections c))),
      (''server_name'', Json_string (cf_server_name c)),
      (''cors_allow_origin'', Json_string (cf_cors_allow_origin c)),
      (''enable_keepalive'', Json_bool (cf_enable_keepalive c)),
      (''keepalive_timeout_sec'', Json_int (sint (cf_keepalive_timeout_sec c))),
      (''max_keepalive_requests'', Json_int (uint (cf_max_keepalive_requests c))),
      (''drain_timeout_sec'', Json_int (sint (cf_drain_timeout_sec c)))]"

text \<open>\<open>safeSet\<close>: a missing key and a value of the wrong type both leave the default.\<close>

definition safeSet :: "json \<Rightarrow> string \<Rightarrow> (json \<Rightarrow> 'a option) \<Rightarrow> ('a \<Rightarrow> config \<Rightarrow> config) \<Rightarrow> config \<Rightarrow> config" where
  "safeSet json key converter assign c =
     (case json_lookup key json of
        None \<Rightarrow> c
      | Some v \<Rightarrow> (case converter v of None \<Rightarrow> c | Some x \<Rightarrow> assign x c))"

text \<open>
  The three options that are not read by \<open>safeSet\<close>: the type is tested first, and an exception of
  \<open>get\<close> leaves \<open>fromJson\<close>.
\<close>

definition checkedSet :: "json \<Rightarrow> string \<Rightarrow> (json \<Rightarrow> bool) \<Rightarrow> (json \<Rightarrow> 'a option) \<Rightarrow>
    ('a \<Rightarrow> config \<Rightarrow> config) \<Rightarrow> config \<Rightarrow> config option" where
  "checkedSet json key is_type converter assign c =
     (case json_lookup key json of
        None \<Rightarrow> Some c
      | Some v \<Rightarrow> if is_type v then map_option (\<lambda>x. assign x c) (converter v) else Some c)"

definition fix_threads :: "config \<Rightarrow> config" where
  "fix_threads c = (if cf_threads c = 0 then c\<lparr>cf_threads := 1\<rparr> else c)"

definition safe_settings :: "json_lib \<Rightarrow> json \<Rightarrow> config \<Rightarrow> config" where
  "safe_settings J json c =
     (let c = safeSet json ''port'' (jl_get_ushort J) (\<lambda>x. cf_port_update (\<lambda>_. x)) c;
          c = safeSet json ''threads'' (jl_get_size_t J) (\<lambda>x. cf_threads_update (\<lambda>_. x)) c;
          c = safeSet json ''io_threads'' (jl_get_uint J) (\<lambda>x. cf_io_threads_update (\<lambda>_. x)) c;
          c = safeSet json ''static_max_file_size_mb'' (jl_get_size_t J) (\<lambda>x. cf_static_max_file_size_mb_update (\<lambda>_. x)) c;
          c = safeSet json ''sample_rate'' (jl_get_uint J) (\<lambda>x. cf_sample_rate_update (\<lambda>_. x)) c;
          c = safeSet json ''body_limit_mb'' (jl_get_size_t J) (\<lambda>x. cf_body_limit_mb_update (\<lambda>_. x)) c;
          c = safeSet json ''max_queue_size'' (jl_get_size_t J) (\<lambda>x. cf_max_queue_size_update (\<lambda>_. x)) c;
          c = safeSet json ''max_connections'' (jl_get_size_t J) (\<lambda>x. cf_max_connections_update (\<lambda>_. x)) c;
          c = safeSet json ''max_keepalive_requests'' (jl_get_size_t J) (\<lambda>x. cf_max_keepalive_requests_update (\<lambda>_. x)) c;
          c = safeSet json ''enable_keepalive'' (jl_get_bool J) (\<lambda>x. cf_enable_keepalive_update (\<lambda>_. x)) c;
          c = safeSet json ''bind_address'' (jl_get_string J) (\<lambda>x. cf_bind_address_update (\<lambda>_. x)) c;
          c = safeSet json ''static_root'' (jl_get_string J) (\<lambda>x. cf_static_root_update (\<lambda>_. x)) c;
          c = safeSet json ''log_file_path'' (jl_get_string J) (\<lambda>x. cf_log_file_path_update (\<lambda>_. x)) c;
          c = safeSet json ''server_name'' (jl_get_string J) (\<lambda>x. cf_server_name_update (\<lambda>_. x)) c
      in safeSet json ''cors_allow_origin'' (jl_get_string J) (\<lambda>x. cf_cors_allow_origin_update (\<lambda>_. x)) c)"

definition Config_fromJson :: "(string \<Rightarrow> string) \<Rightarrow> json_lib \<Rightarrow> uint \<Rightarrow> json \<Rightarrow> config option" where
  "Config_fromJson to_upper J hardware_concurrency json =
     map_option fix_threads
       (Option.bind (checkedSet json ''log_level'' is_string (jl_get_string J)
          (\<lambda>x. cf_log_level_update (\<lambda>_. stringToLogLevel to_upper x))
          (safe_settings J json (Config_default hardware_concurrency)))
       (\<lambda>c. Option.bind (checkedSet json ''keepalive_timeout_sec'' is_number (jl_get_long_long J)
          (\<lambda>x. cf_keepalive_timeout_sec_update (\<lambda>_. x)) c)
       (\<lambda>c. checkedSet json ''drain_timeout_sec'' is_number (jl_get_long_long J)
          (\<lambda>x. cf_drain_timeout_sec_update (\<lambda>_. x)) c)))"

section \<open>The command line\<close>

definition from_stoul :: "string \<Rightarrow> (size_t \<Rightarrow> config) \<Rightarrow> config result" where
  "from_stoul v assign = map_sum id assign (stoul v)"

text \<open>
  The chain of comparisons in \<open>fromArgs\<close>: what an option does with the value after it, or
  \<^const>\<open>None\<close> if the argument is no option.
\<close>

definition option_action :: "(string \<Rightarrow> string) \<Rightarrow> string \<Rightarrow> (string \<Rightarrow> config \<Rightarrow> config result) option" where
  "option_action to_upper arg =
     (if arg = ''-p'' \<or> arg = ''--port'' then
        Some (\<lambda>v c. map_sum id (\<lambda>x. c\<lparr>cf_port := ucast x\<rparr>) (stoi v))
      else if arg = ''-b'' \<or> arg = ''--bind-address'' then Some (\<lambda>v c. Inr (c\<lparr>cf_bind_address := v\<rparr>))
      else if arg = ''-t'' \<or> arg = ''--threads'' then Some (\<lambda>v c. from_stoul v (\<lambda>x. c\<lparr>cf_threads := x\<rparr>))
      else if arg = ''-i'' \<or> arg = ''--io-threads'' then
        Some (\<lambda>v c. from_stoul v (\<lambda>x. c\<lparr>cf_io_threads := ucast x\<rparr>))
      else if arg = ''-l'' \<or> arg = ''--log-level'' then
        Some (\<lambda>v c. Inr (c\<lparr>cf_log_level := stringToLogLevel to_upper v\<rparr>))
      else if arg = ''-s'' \<or> arg = ''--static-root'' then Some (\<lambda>v c. Inr (c\<lparr>cf_static_root := v\<rparr>))
      else if arg = ''--body-limit'' then Some (\<lambda>v c. from_stoul v (\<lambda>x. c\<lparr>cf_body_limit_mb := x\<rparr>))
      else if arg = ''--max-queue-size'' then Some (\<lambda>v c. from_stoul v (\<lambda>x. c\<lparr>cf_max_queue_size := x\<rparr>))
      else if arg = ''--max-connections'' then Some (\<lambda>v c. from_stoul v (\<lambda>x. c\<lparr>cf_max_connections := x\<rparr>))
      else if arg = ''--server-name'' then Some (\<lambda>v c. Inr (c\<lparr>cf_server_name := v\<rparr>))
      else if arg = ''--sample-rate'' then Some (\<lambda>v c. from_stoul v (\<lambda>x. c\<lparr>cf_sample_rate := ucast x\<rparr>))
      else if arg = ''--enable-keepalive'' then
        Some (\<lambda>v c. Inr (c\<lparr>cf_enable_keepalive := (v = ''true'' \<or> v = ''1'')\<rparr>))
      else if arg = ''--keepalive-timeout'' then
        Some (\<lambda>v c. from_stoul v (\<lambda>x. c\<lparr>cf_keepalive_timeout_sec := x\<rparr>))
      else if arg = ''--max-keepalive-requests'' then
        Some (\<lambda>v c. from_stoul v (\<lambda>x. c\<lparr>cf_max_keepalive_requests := x\<rparr>))
      else if arg = ''--drain-timeout'' then
        Some (\<lambda>v c. from_stoul v (\<lambda>x. c\<lparr>cf_drain_timeout_sec := x\<rparr>))
      else if arg = ''--static-max-file-size'' then
        Some (\<lambda>v c. from_stoul v (\<lambda>x. c\<lparr>cf_static_max_file_size_mb := x\<rparr>))
      else if arg = ''--cors-allow-origin'' then Some (\<lambda>v c. Inr (c\<lparr>cf_cors_allow_origin := v\<rparr>))
      else if arg = ''--log-file'' then Some (\<lambda>v c. Inr (c\<lparr>cf_log_file_path := v\<rparr>))
      else None)"

text \<open>The loop; an option without a value after it is skipped.\<close>

fun args_loop :: "(string \<Rightarrow> string) \<Rightarrow> config \<Rightarrow> string list \<Rightarrow> config result" where
  "args_loop to_upper c [] = Inr c"
| "args_loop to_upper c [arg] = Inr c"
| "args_loop to_upper c (arg # v # args) =
     (case option_action to_upper arg of
        None \<Rightarrow> args_loop to_upper c (v # args)
      | Some act \<Rightarrow> (case act v c of Inl e \<Rightarrow> Inl e | Inr c' \<Rightarrow> args_loop to_upper c' args))"

definition Config_fromArgs :: "(string \<Rightarrow> string) \<Rightarrow> config \<Rightarrow> string list \<Rightarrow> config result" where
  "Config_fromArgs to_upper c args = map_sum id fix_threads (args_loop to_upper c args)"

definition hasHelpFLag :: "string list \<Rightarrow> bool" where
  "hasHelpFLag args = list_ex (\<lambda>arg. arg = ''-h'' \<or> arg = ''--help'') args"

section \<open>Start from a file\<close>

text \<open>
  What \<open>loadConfig\<close> sees of the file system: the texts of the files, and which calls fail.
\<close>

record config_env =
  ce_files :: "string \<Rightarrow> string option"
  ce_exists_fails :: "string \<Rightarrow> bool" \<comment> \<open>\<open>std::filesystem::exists\<close> throws\<close>
  ce_readable :: "string \<Rightarrow> bool"
  ce_writable :: "string \<Rightarrow> bool"
  ce_renamable :: "string \<Rightarrow> string \<Rightarrow> bool"

fun config_path :: "string list \<Rightarrow> string" where
  "config_path [] = ''config.json''"
| "config_path [arg] = ''config.json''"
| "config_path (arg # v # args) =
     (if arg = ''-c'' \<or> arg = ''--config'' then v else config_path (v # args))"

definition rename_file :: "string \<Rightarrow> string \<Rightarrow> config_env \<Rightarrow> config_env" where
  "rename_file a b env = (if ce_renamable env a b
     then env\<lparr>ce_files := (ce_files env)(b := ce_files env a, a := None)\<rparr> else env)"

text \<open>
  Writing the defaults: opening the file empties it; an exception of \<open>dump\<close> is the second
  component.
\<close>

definition write_default :: "json_lib \<Rightarrow> config \<Rightarrow> string \<Rightarrow> config_env \<Rightarrow> config_env \<times> std_exn option" where
  "write_default J defaultConfig path env =
     (if \<not> ce_writable env path then (env, None)
      else case jl_dump_pretty J (Config_toJson defaultConfig) of
          None \<Rightarrow> (env\<lparr>ce_files := (ce_files env)(path \<mapsto> [])\<rparr>,
            Some (runtime_error (jl_dump_what J (Config_toJson defaultConfig))))
        | Some s \<Rightarrow> (env\<lparr>ce_files := (ce_files env)(path \<mapsto> s @ [CHR 0x0A])\<rparr>, None))"

definition start_fresh :: "(string \<Rightarrow> string) \<Rightarrow> json_lib \<Rightarrow> config \<Rightarrow> string \<Rightarrow> string list \<Rightarrow> config_env \<Rightarrow>
    config_env \<times> config result" where
  "start_fresh to_upper J defaultConfig path args env =
     (let (env', err) = write_default J defaultConfig path env
      in (env', case err of Some e \<Rightarrow> Inl e | None \<Rightarrow> Config_fromArgs to_upper defaultConfig args))"

definition loadConfig :: "(string \<Rightarrow> string) \<Rightarrow> json_lib \<Rightarrow> uint \<Rightarrow> string list \<Rightarrow> config_env \<Rightarrow>
    config_env \<times> config result" where
  "loadConfig to_upper J hardware_concurrency args env =
     (let configPath = config_path args; defaultConfig = Config_default hardware_concurrency in
      if ce_exists_fails env configPath then (env, Inl filesystem_error)
      else case (if ce_readable env configPath then ce_files env configPath else None) of
        None \<Rightarrow> start_fresh to_upper J defaultConfig configPath args env
      | Some content \<Rightarrow>
          (case jl_read_stream J content of
             Read_parse_error \<Rightarrow> start_fresh to_upper J defaultConfig configPath args
               (rename_file configPath (configPath @ ''.broken'') env)
           | Read_exception \<Rightarrow> (env, Config_fromArgs to_upper defaultConfig args)
           | Read_json j \<Rightarrow>
               (case Config_fromJson to_upper J hardware_concurrency j of
                  None \<Rightarrow> (env, Config_fromArgs to_upper defaultConfig args)
                | Some config \<Rightarrow>
                    (case Config_fromArgs to_upper config args of
                       Inr c \<Rightarrow> (env, Inr c)
                     | Inl e \<Rightarrow> (env, Config_fromArgs to_upper defaultConfig args)))))"

text \<open>
  \<open>main\<close>: the exit code. The run of the server is an argument: \<^const>\<open>None\<close> is a normal return and
  \<^const>\<open>Some\<close> an exception.
\<close>

definition main :: "(string \<Rightarrow> string) \<Rightarrow> json_lib \<Rightarrow> uint \<Rightarrow> (config \<Rightarrow> std_exn option) \<Rightarrow>
    string list \<Rightarrow> config_env \<Rightarrow> config_env \<times> nat" where
  "main to_upper J hardware_concurrency run args env =
     (if hasHelpFLag args then (env, 0)
      else let (env', r) = loadConfig to_upper J hardware_concurrency args env
           in (env', case r of Inl e \<Rightarrow> 1
                | Inr config \<Rightarrow> (case run config of None \<Rightarrow> 0 | Some e \<Rightarrow> 1)))"

section \<open>JSON round trip\<close>

definition config_ascii :: "config \<Rightarrow> bool" where
  "config_ascii c \<longleftrightarrow> ascii_string (cf_bind_address c) \<and> ascii_string (cf_static_root c) \<and>
     ascii_string (cf_log_file_path c) \<and> ascii_string (cf_server_name c) \<and>
     ascii_string (cf_cors_allow_origin c)"

lemma uint_json_range: "json_int_range (uint (n :: 'a::len word))" if "LENGTH('a) \<le> 64"
proof -
  have "uint n < 2 ^ LENGTH('a)" by (rule uint_lt2p)
  also have "\<dots> \<le> (2 :: int) ^ 64" using that by (intro power_increasing) auto
  finally show ?thesis using uint_ge_0 [of n] by (simp add: json_int_range_def order_trans [of _ 0] del: uint_ge_0)
qed

lemma sint_json_range64: "json_int_range (sint (n :: 64 word))"
  using sint_ge [of n] sint_lt [of n] by (simp add: json_int_range_def)

lemma json_get_ints:
  assumes "json_laws J"
  shows "jl_get_ushort J (Json_int (uint (p :: ushort))) = Some p"
    and "jl_get_uint J (Json_int (uint (u :: uint))) = Some u"
    and "jl_get_size_t J (Json_int (uint (z :: size_t))) = Some z"
    and "jl_get_long_long J (Json_int (sint (l :: 64 word))) = Some l"
    and "jl_get_bool J (Json_bool b) = Some b" and "jl_get_string J (Json_string s) = Some s"
  using assms uint_json_range [of p] uint_json_range [of u] uint_json_range [of z] sint_json_range64 [of l]
  by (auto simp: json_laws_def)

lemma safeSet_present:
  "json_lookup key j = Some v \<Longrightarrow> converter v = Some x \<Longrightarrow> safeSet j key converter assign c = assign x c"
  by (simp add: safeSet_def)

lemma checkedSet_present:
  "json_lookup key j = Some v \<Longrightarrow> is_type v \<Longrightarrow> converter v = Some x \<Longrightarrow>
    checkedSet j key is_type converter assign c = Some (assign x c)"
  by (simp add: checkedSet_def)

lemma set_cong:
  assumes "\<forall>k. json_lookup k j = json_lookup k j'"
  shows "safeSet j = safeSet j'" and "checkedSet j = checkedSet j'"
  using assms by (simp_all add: safeSet_def checkedSet_def fun_eq_iff)

lemma fromJson_cong:
  assumes "\<forall>k. json_lookup k j = json_lookup k j'"
  shows "Config_fromJson up J hc j = Config_fromJson up J hc j'"
  by (simp only: Config_fromJson_def safe_settings_def set_cong [OF assms])

lemma config_lookup:
  "json_lookup ''port'' (Config_toJson c) = Some (Json_int (uint (cf_port c)))"
  "json_lookup ''bind_address'' (Config_toJson c) = Some (Json_string (cf_bind_address c))"
  "json_lookup ''threads'' (Config_toJson c) = Some (Json_int (uint (cf_threads c)))"
  "json_lookup ''io_threads'' (Config_toJson c) = Some (Json_int (uint (cf_io_threads c)))"
  "json_lookup ''static_root'' (Config_toJson c) = Some (Json_string (cf_static_root c))"
  "json_lookup ''static_max_file_size_mb'' (Config_toJson c) = Some (Json_int (uint (cf_static_max_file_size_mb c)))"
  "json_lookup ''log_level'' (Config_toJson c) = Some (Json_string (logLevelToStr (cf_log_level c)))"
  "json_lookup ''sample_rate'' (Config_toJson c) = Some (Json_int (uint (cf_sample_rate c)))"
  "json_lookup ''log_file_path'' (Config_toJson c) = Some (Json_string (cf_log_file_path c))"
  "json_lookup ''body_limit_mb'' (Config_toJson c) = Some (Json_int (uint (cf_body_limit_mb c)))"
  "json_lookup ''max_queue_size'' (Config_toJson c) = Some (Json_int (uint (cf_max_queue_size c)))"
  "json_lookup ''max_connections'' (Config_toJson c) = Some (Json_int (uint (cf_max_connections c)))"
  "json_lookup ''server_name'' (Config_toJson c) = Some (Json_string (cf_server_name c))"
  "json_lookup ''cors_allow_origin'' (Config_toJson c) = Some (Json_string (cf_cors_allow_origin c))"
  "json_lookup ''enable_keepalive'' (Config_toJson c) = Some (Json_bool (cf_enable_keepalive c))"
  "json_lookup ''keepalive_timeout_sec'' (Config_toJson c) = Some (Json_int (sint (cf_keepalive_timeout_sec c)))"
  "json_lookup ''max_keepalive_requests'' (Config_toJson c) = Some (Json_int (uint (cf_max_keepalive_requests c)))"
  "json_lookup ''drain_timeout_sec'' (Config_toJson c) = Some (Json_int (sint (cf_drain_timeout_sec c)))"
  by (simp_all add: Config_toJson_def)

text \<open>Every option but the three that are tested first.\<close>

lemma safe_settings_toJson:
  assumes "json_laws J"
  shows "safe_settings J (Config_toJson c) d = c\<lparr>cf_log_level := cf_log_level d,
    cf_keepalive_timeout_sec := cf_keepalive_timeout_sec d, cf_drain_timeout_sec := cf_drain_timeout_sec d\<rparr>"
  unfolding safe_settings_def Let_def
  by (simp only: safeSet_present [OF config_lookup(1)] safeSet_present [OF config_lookup(2)]
      safeSet_present [OF config_lookup(3)] safeSet_present [OF config_lookup(4)]
      safeSet_present [OF config_lookup(5)] safeSet_present [OF config_lookup(6)]
      safeSet_present [OF config_lookup(8)] safeSet_present [OF config_lookup(9)]
      safeSet_present [OF config_lookup(10)] safeSet_present [OF config_lookup(11)]
      safeSet_present [OF config_lookup(12)] safeSet_present [OF config_lookup(13)]
      safeSet_present [OF config_lookup(14)] safeSet_present [OF config_lookup(15)]
      safeSet_present [OF config_lookup(17)] json_get_ints [OF assms]) simp

lemma fromJson_toJson:
  assumes "json_laws J" and "to_upper_spec up"
  shows "Config_fromJson up J hc (Config_toJson c) = Some (fix_threads c)"
proof -
  have level: "checkedSet (Config_toJson c) ''log_level'' is_string (jl_get_string J)
      (\<lambda>x. cf_log_level_update (\<lambda>_. stringToLogLevel up x)) d = Some (d\<lparr>cf_log_level := cf_log_level c\<rparr>)" for d
  proof -
    have name: "stringToLogLevel up (logLevelToStr (cf_log_level c)) = cf_log_level c"
      by (rule stringToLogLevel_logLevelToStr [OF assms(2)])
    show ?thesis
      unfolding checkedSet_def config_lookup(7) by (simp add: json_get_ints(6) [OF assms(1)]) (simp only: name)
  qed
  have seconds: "checkedSet (Config_toJson c) ''keepalive_timeout_sec'' is_number (jl_get_long_long J)
      (\<lambda>x. cf_keepalive_timeout_sec_update (\<lambda>_. x)) d = Some (d\<lparr>cf_keepalive_timeout_sec := cf_keepalive_timeout_sec c\<rparr>)"
    "checkedSet (Config_toJson c) ''drain_timeout_sec'' is_number (jl_get_long_long J)
      (\<lambda>x. cf_drain_timeout_sec_update (\<lambda>_. x)) d = Some (d\<lparr>cf_drain_timeout_sec := cf_drain_timeout_sec c\<rparr>)" for d
    using json_get_ints(4) [OF assms(1)]
    by (simp_all add: checkedSet_present [OF config_lookup(16)] checkedSet_present [OF config_lookup(18)])
  show ?thesis
    by (simp add: Config_fromJson_def level seconds safe_settings_toJson [OF assms(1)])
qed

lemma ascii_level: "ascii_string (logLevelToStr l)"
  by (cases l) (simp_all add: logLevelToStr_def ascii_string_def)

lemma toJson_scalar:
  assumes "config_ascii c"
  shows "\<exists>kvs. Config_toJson c = Json_object kvs \<and> distinct (map fst kvs) \<and>
    list_all (\<lambda>(k, j). ascii_string k \<and> ascii_scalar j) kvs"
  using assms ascii_level [of "cf_log_level c"]
  by (simp add: Config_toJson_def config_ascii_def ascii_string_def uint_json_range sint_json_range64)

lemma saved_config:
  assumes "json_laws J" and "config_ascii c"
  shows "\<exists>s kvs. jl_dump_pretty J (Config_toJson c) = Some s \<and>
    jl_read_stream J (s @ [CHR 0x0A]) = Read_json (Json_object kvs) \<and>
    (\<forall>k. json_lookup k (Json_object kvs) = json_lookup k (Config_toJson c))"
proof -
  obtain kvs where kvs: "Config_toJson c = Json_object kvs" "distinct (map fst kvs)"
      "list_all (\<lambda>(k, j). ascii_string k \<and> ascii_scalar j) kvs"
    using toJson_scalar [OF assms(2)] by blast
  then obtain s kvs' where "jl_dump_pretty J (Json_object kvs) = Some s"
      "jl_read_stream J (s @ [CHR 0x0A]) = Read_json (Json_object kvs')" "map_of kvs' = map_of kvs"
    using assms(1) by (auto simp: json_laws_def)
  then show ?thesis using kvs(1) by auto
qed

text \<open>
  C35. A configuration whose strings are ASCII, written to a file, is read back unchanged: every one of
  the 18 options survives \<open>toJson\<close>, the printed text and \<open>fromJson\<close>, but for \<open>threads\<close> 0, which is what
  \<open>fromJson\<close> corrects to 1.
\<close>

theorem Config_json_roundtrip:
  assumes "json_laws J" and "to_upper_spec to_upper" and "config_ascii c"
  shows "\<exists>s j. jl_dump_pretty J (Config_toJson c) = Some s \<and> jl_read_stream J (s @ [CHR 0x0A]) = Read_json j \<and>
    Config_fromJson to_upper J hc j = Some (c\<lparr>cf_threads := if cf_threads c = 0 then 1 else cf_threads c\<rparr>)"
proof -
  obtain s kvs where s: "jl_dump_pretty J (Config_toJson c) = Some s"
      "jl_read_stream J (s @ [CHR 0x0A]) = Read_json (Json_object kvs)"
      "\<forall>k. json_lookup k (Json_object kvs) = json_lookup k (Config_toJson c)"
    using saved_config [OF assms(1,3)] by blast
  from fromJson_cong [OF s(3)] show ?thesis
    using s(1,2) fromJson_toJson [OF assms(1,2)] by (auto simp: fix_threads_def)
qed

lemma example_upper: "to_upper_spec (map ascii_upper)"
  by (simp add: to_upper_spec_def)

lemma default_ascii: "config_ascii (Config_default hc)"
  by (simp add: config_ascii_def Config_default_def ascii_string_def)

lemma example_threads: "cf_threads (Config_default 4) \<noteq> 0"
  by (simp add: Config_default_def)

lemma Config_json_roundtrip_witness:
  "\<exists>s j. jl_dump_pretty example_json (Config_toJson (Config_default 4)) = Some s \<and>
    jl_read_stream example_json (s @ [CHR 0x0A]) = Read_json j \<and>
    Config_fromJson (map ascii_upper) example_json 4 j = Some (Config_default 4)"
  using Config_json_roundtrip [OF example_json_laws example_upper default_ascii, of 4 4] example_threads by simp

section \<open>Command line round trip\<close>

text \<open>A command line for a configuration, with every option.\<close>

definition config_args :: "config \<Rightarrow> string list" where
  "config_args c =
     [''--port'', nat_to_string (unat (cf_port c)), ''--bind-address'', cf_bind_address c,
      ''--threads'', nat_to_string (unat (cf_threads c)),
      ''--io-threads'', nat_to_string (unat (cf_io_threads c)),
      ''--log-level'', logLevelToStr (cf_log_level c), ''--static-root'', cf_static_root c,
      ''--body-limit'', nat_to_string (unat (cf_body_limit_mb c)),
      ''--max-queue-size'', nat_to_string (unat (cf_max_queue_size c)),
      ''--max-connections'', nat_to_string (unat (cf_max_connections c)),
      ''--server-name'', cf_server_name c, ''--sample-rate'', nat_to_string (unat (cf_sample_rate c)),
      ''--enable-keepalive'', (if cf_enable_keepalive c then ''true'' else ''false''),
      ''--keepalive-timeout'', nat_to_string (unat (cf_keepalive_timeout_sec c)),
      ''--max-keepalive-requests'', nat_to_string (unat (cf_max_keepalive_requests c)),
      ''--drain-timeout'', nat_to_string (unat (cf_drain_timeout_sec c)),
      ''--static-max-file-size'', nat_to_string (unat (cf_static_max_file_size_mb c)),
      ''--cors-allow-origin'', cf_cors_allow_origin c, ''--log-file'', cf_log_file_path c]"

lemma stoul_printed [simp]: "stoul (nat_to_string (unat (x :: size_t))) = Inr x"
  using stoul_nat_to_string [of "unat x"] unsigned_less [of x] by simp

lemma from_stoul_printed [simp]:
  "from_stoul (nat_to_string (unat (x :: size_t))) assign = Inr (assign x)"
  "from_stoul (nat_to_string (unat (u :: uint))) assign' = Inr (assign' (ucast u))"
proof -
  show "from_stoul (nat_to_string (unat x)) assign = Inr (assign x)" by (simp add: from_stoul_def)
  have "unat u < 2 ^ 32" using unsigned_less [of u, where ?'a = nat] by simp
  then have "unat u < 2 ^ 64" by simp
  then show "from_stoul (nat_to_string (unat u)) assign' = Inr (assign' (ucast u))"
    using stoul_nat_to_string [of "unat u"] by (simp add: from_stoul_def)
qed

lemma stoi_port [simp]: "stoi (nat_to_string (unat (p :: ushort))) = Inr (ucast p)"
proof -
  have "unat p < 65536" using unsigned_less [of p, where ?'a = nat] by simp
  then show ?thesis by (simp add: stoi_def Let_def)
qed

lemma ucast_back:
  "ucast (ucast (p :: ushort) :: cint) = p" "ucast (ucast (u :: uint) :: size_t) = u"
  by (intro bit_word_eqI; simp add: bit_simps)+

lemma ucast_zero: "(ucast (u :: uint) :: size_t) = 0 \<longleftrightarrow> u = 0"
  by (metis ucast_back(2) unsigned_0)

lemma fromArgs_config_args:
  assumes "to_upper_spec to_upper" and "cf_threads c \<noteq> 0"
  shows "Config_fromArgs to_upper c0 (config_args c) = Inr c"
proof -
  have "args_loop to_upper c0 (config_args c) = Inr c"
    unfolding config_args_def
    by (simp add: option_action_def stringToLogLevel_logLevelToStr [OF assms(1)] ucast_back)
  then show ?thesis using assms(2) by (simp add: Config_fromArgs_def fix_threads_def)
qed

text \<open>
  The command line can say everything: the options written out for a configuration, given
  after any other configuration, yield exactly it, so an option on the command line wins over the
  file and the defaults.
\<close>

theorem Config_args_roundtrip:
  assumes "to_upper_spec to_upper" and "cf_threads c \<noteq> 0"
  shows "Config_fromArgs to_upper c0 (config_args c) = Inr c"
  using fromArgs_config_args [OF assms] .

lemma Config_args_roundtrip_witness:
  "Config_fromArgs (map ascii_upper) ((Config_default 4)\<lparr>cf_port := 9, cf_server_name := ''other''\<rparr>)
    (config_args (Config_default 4)) = Inr (Config_default 4)"
  by (rule Config_args_roundtrip [OF example_upper example_threads])

text \<open>
  \<open>--port\<close> takes any \<open>int\<close> and keeps its low 16 bits: a port out of range is not refused but
  wraps around modulo 65536.
\<close>

theorem Config_port_wraps:
  assumes "- (2 ^ 31) \<le> n" and "n < 2 ^ 31"
  shows "\<exists>c'. Config_fromArgs to_upper c [''--port'', int_to_string n] = Inr c' \<and>
    uint (cf_port c') = n mod 65536 \<and> cf_bind_address c' = cf_bind_address c"
proof -
  have sint: "sint (of_int n :: cint) = n"
    using assms by (auto simp: signed_of_int intro!: signed_take_bit_int_eq_self)
  have "Config_fromArgs to_upper c [''--port'', int_to_string n] =
      Inr (fix_threads (c\<lparr>cf_port := ucast (of_int n :: cint)\<rparr>))"
    using stoi_int_to_string [of "of_int n"] sint by (simp add: Config_fromArgs_def option_action_def)
  moreover have "uint (ucast (of_int n :: cint) :: ushort) = n mod 65536"
    by (simp add: unsigned_ucast_eq unsigned_of_int take_bit_eq_mod mod_mod_cancel)
  ultimately show ?thesis by (simp add: fix_threads_def)
qed

lemma Config_port_wraps_witness:
  "\<exists>c'. Config_fromArgs (map ascii_upper) (Config_default 4) [''--port'', int_to_string 65616] = Inr c' \<and>
    uint (cf_port c') = 80"
  using Config_port_wraps [of 65616 "map ascii_upper" "Config_default 4"] by auto

section \<open>Loading\<close>

text \<open>Whether an option refuses its value does not depend on the configuration it is applied to.\<close>

definition same_error :: "(string \<Rightarrow> config \<Rightarrow> config result) \<Rightarrow> bool" where
  "same_error act \<longleftrightarrow> (\<forall>v c c' e. act v c = Inl e \<longrightarrow> act v c' = Inl e)"

lemma same_error_intros:
  "same_error (\<lambda>v c. Inr (f v c))" "same_error (\<lambda>v c. map_sum id (h c) (stoi v))"
  "same_error (\<lambda>v c. from_stoul v (g c))"
  by (auto simp: same_error_def from_stoul_def map_sum_def split: sum.splits)

lemma if_SomeE:
  "(if b then Some x else y) = Some z \<Longrightarrow> (b \<Longrightarrow> x = z \<Longrightarrow> P) \<Longrightarrow> (\<not> b \<Longrightarrow> y = Some z \<Longrightarrow> P) \<Longrightarrow> P"
  by (cases b) auto

lemma option_action_uniform: "option_action up arg = Some act \<Longrightarrow> same_error act"
  unfolding option_action_def
  by (elim if_SomeE; (hypsubst, rule same_error_intros | simp))

lemma option_action_error:
  "option_action up arg = Some act \<Longrightarrow> act v c = Inl e \<Longrightarrow> act v c' = Inl e"
  using option_action_uniform unfolding same_error_def by blast

lemma option_action_value:
  "option_action up arg = Some act \<Longrightarrow> act v c = Inr d \<Longrightarrow> \<exists>d'. act v c' = Inr d'"
  by (cases "act v c'") (auto dest: option_action_error [of up arg act v c' _ c])

lemma args_loop_error: "args_loop up c args = Inl e \<Longrightarrow> args_loop up c' args = Inl e"
proof (induction up c args arbitrary: c' rule: args_loop.induct)
  case (3 up c arg v args)
  show ?case
  proof (cases "option_action up arg")
    case None
    then show ?thesis using "3.IH"(1) "3.prems" by simp
  next
    case (Some act)
    show ?thesis
    proof (cases "act v c")
      case (Inl e')
      then show ?thesis using Some "3.prems" option_action_error [OF Some Inl, of c'] by simp
    next
      case (Inr d)
      then obtain d' where "act v c' = Inr d'" using option_action_value [OF Some] by blast
      then show ?thesis using Some Inr "3.prems" "3.IH"(2) [OF Some Inr] by simp
    qed
  qed
qed simp_all

lemma fromArgs_error: "Config_fromArgs up c args = Inl e \<Longrightarrow> Config_fromArgs up c' args = Inl e"
  using args_loop_error [of up c args _ c']
  by (auto simp: Config_fromArgs_def map_sum_def split: sum.splits)

text \<open>
  A value that is no number, or too large, for a numeric option ends the program with exit
  code 1 before the server runs, whatever the configuration file holds: falling back to the
  defaults does not help, because the arguments are applied to them too.
\<close>

theorem main_bad_argument:
  assumes "Config_fromArgs to_upper c args = Inl e" and "\<not> hasHelpFLag args"
  shows "snd (main to_upper J hc run args env) = 1"
proof -
  have "\<exists>e'. snd (loadConfig to_upper J hc args env) = Inl e'"
    using fromArgs_error [OF assms(1)]
    by (auto simp: loadConfig_def start_fresh_def Let_def split: option.splits sum.splits prod.splits json_read.splits)
  then show ?thesis
    using assms(2) by (auto simp: main_def split: prod.splits)
qed

lemma main_bad_argument_witness:
  "snd (main (map ascii_upper) example_json 4 (\<lambda>c. None) [''--threads'', ''many'']
    \<lparr>ce_files = (\<lambda>p. None), ce_exists_fails = (\<lambda>p. False), ce_readable = (\<lambda>p. True),
      ce_writable = (\<lambda>p. True), ce_renamable = (\<lambda>a b. True)\<rparr>) = 1"
proof -
  have "Config_fromArgs (map ascii_upper) (Config_default 4) [''--threads'', ''many''] = Inl invalid_argument"
    by code_simp
  moreover have "\<not> hasHelpFLag [''--threads'', ''many'']" by (simp add: hasHelpFLag_def)
  ultimately show ?thesis by (rule main_bad_argument)
qed

definition example_env :: "(string \<Rightarrow> string option) \<Rightarrow> config_env" where
  "example_env files = \<lparr>ce_files = files, ce_exists_fails = (\<lambda>p. False), ce_readable = (\<lambda>p. True),
     ce_writable = (\<lambda>p. True), ce_renamable = (\<lambda>a b. True)\<rparr>"

lemma fix_threads_positive: "cf_threads (fix_threads c) \<noteq> 0"
  by (simp add: fix_threads_def)

lemma fresh_start:
  assumes "json_laws J" and "ce_writable env path"
  obtains s kvs where "jl_dump_pretty J (Config_toJson (Config_default hc)) = Some s"
    and "jl_read_stream J (s @ [CHR 0x0A]) = Read_json (Json_object kvs)"
    and "\<forall>k. json_lookup k (Json_object kvs) = json_lookup k (Config_toJson (Config_default hc))"
    and "start_fresh up J (Config_default hc) path args env =
      (env\<lparr>ce_files := (ce_files env)(path \<mapsto> s @ [CHR 0x0A])\<rparr>, Config_fromArgs up (Config_default hc) args)"
  using saved_config [OF assms(1) default_ascii, of hc] assms(2)
  by (auto simp: start_fresh_def write_default_def)

text \<open>
  C36. The first start writes the defaults to a new file, and later starts read them back: the file is the
  printed JSON of the default configuration, which reads as exactly that configuration; no other file
  is touched; and with the same arguments the second start yields the same configuration and leaves
  the file as it is. This is for files that can be read and written, and a known number of processors.
\<close>

theorem loadConfig_restart:
  assumes "json_laws J" and "to_upper_spec to_upper" and "hc \<noteq> 0"
    and "\<forall>path. \<not> ce_exists_fails env path" and "\<forall>path. ce_readable env path \<and> ce_writable env path"
    and "ce_files env (config_path args) = None"
    and "loadConfig to_upper J hc args env = (env', r)"
  shows "r = Config_fromArgs to_upper (Config_default hc) args \<and>
    (\<exists>s j. jl_dump_pretty J (Config_toJson (Config_default hc)) = Some s \<and>
      ce_files env' = (ce_files env)(config_path args \<mapsto> s @ [CHR 0x0A]) \<and>
      jl_read_stream J (s @ [CHR 0x0A]) = Read_json j \<and>
      Config_fromJson to_upper J hc j = Some (Config_default hc)) \<and>
    loadConfig to_upper J hc args env' = (env', r)"
proof -
  let ?path = "config_path args" and ?d = "Config_default hc"
  have "ce_writable env ?path" using assms(5) by simp
  then obtain s kvs where s: "jl_dump_pretty J (Config_toJson ?d) = Some s"
    "jl_read_stream J (s @ [CHR 0x0A]) = Read_json (Json_object kvs)"
    "\<forall>k. json_lookup k (Json_object kvs) = json_lookup k (Config_toJson ?d)"
    "start_fresh to_upper J ?d ?path args env =
      (env\<lparr>ce_files := (ce_files env)(?path \<mapsto> s @ [CHR 0x0A])\<rparr>, Config_fromArgs to_upper ?d args)"
    by (rule fresh_start [OF assms(1), of env ?path hc to_upper args])
  have first: "env' = env\<lparr>ce_files := (ce_files env)(?path \<mapsto> s @ [CHR 0x0A])\<rparr>"
    "r = Config_fromArgs to_upper ?d args"
    using assms(4-7) s(4) by (simp_all add: loadConfig_def Let_def)
  have "cf_threads ?d \<noteq> 0"
    using assms(3) ucast_zero [of hc] by (simp add: Config_default_def)
  then have read: "Config_fromJson to_upper J hc (Json_object kvs) = Some ?d"
    using fromJson_cong [OF s(3)] fromJson_toJson [OF assms(1,2)] by (simp add: fix_threads_def)
  then have "loadConfig to_upper J hc args env' = (env', r)"
    using first s(2) assms(4,5) by (simp add: loadConfig_def Let_def split: sum.splits)
  then show ?thesis using first read s(1,2) by simp
qed

lemma loadConfig_restart_witness:
  "\<exists>env'. loadConfig (map ascii_upper) example_json 4 [''-p'', ''90''] (example_env (\<lambda>p. None)) =
      (env', Config_fromArgs (map ascii_upper) (Config_default 4) [''-p'', ''90'']) \<and>
    loadConfig (map ascii_upper) example_json 4 [''-p'', ''90''] env' =
      (env', Config_fromArgs (map ascii_upper) (Config_default 4) [''-p'', ''90''])"
proof -
  obtain env' r where run:
    "loadConfig (map ascii_upper) example_json 4 [''-p'', ''90''] (example_env (\<lambda>p. None)) = (env', r)"
    by force
  have "\<forall>path. \<not> ce_exists_fails (example_env (\<lambda>p. None)) path"
    "\<forall>path. ce_readable (example_env (\<lambda>p. None)) path \<and> ce_writable (example_env (\<lambda>p. None)) path"
    "ce_files (example_env (\<lambda>p. None)) (config_path [''-p'', ''90'']) = None"
    by (simp_all add: example_env_def)
  from loadConfig_restart [OF example_json_laws example_upper _ this run] show ?thesis
    using run by auto
qed

text \<open>
  C37. A configuration file that cannot be used never stops the program: it goes on with the defaults and
  its arguments. A file that is no JSON is not lost, but moved to a name with \<open>.broken\<close>, and a file
  with the defaults takes its place, as far as the file system lets it; a file that fails in any other way
  (a number out of range, an exception of \<open>fromJson\<close>) is left as it is, and nothing is written.
\<close>

theorem loadConfig_broken:
  assumes "json_laws J" and "\<not> ce_exists_fails env (config_path args)" and "ce_readable env (config_path args)"
    and "ce_files env (config_path args) = Some content" and "loadConfig to_upper J hc args env = (env', r)"
    and "\<And>j. jl_read_stream J content = Read_json j \<Longrightarrow> Config_fromJson to_upper J hc j = None"
  shows "r = Config_fromArgs to_upper (Config_default hc) args \<and>
    (if jl_read_stream J content = Read_parse_error
     then (ce_renamable env (config_path args) (config_path args @ ''.broken'') \<longrightarrow>
          ce_files env' (config_path args @ ''.broken'') = Some content) \<and>
        (ce_writable env (config_path args) \<longrightarrow> (\<exists>s. jl_dump_pretty J (Config_toJson (Config_default hc)) = Some s \<and>
          ce_files env' (config_path args) = Some (s @ [CHR 0x0A])))
     else env' = env)"
proof (cases "jl_read_stream J content")
  case Read_parse_error
  let ?path = "config_path args" and ?d = "Config_default hc"
  let ?env = "rename_file ?path (?path @ ''.broken'') env"
  have load: "(env', r) = start_fresh to_upper J ?d ?path args ?env"
    using assms(2-5) Read_parse_error by (simp add: loadConfig_def Let_def)
  have moved: "ce_renamable env ?path (?path @ ''.broken'') \<longrightarrow> ce_files ?env (?path @ ''.broken'') = Some content"
    using assms(4) by (simp add: rename_file_def)
  show ?thesis
  proof (cases "ce_writable env ?path")
    case True
    then have "ce_writable ?env ?path" by (simp add: rename_file_def)
    then obtain s kvs where "jl_dump_pretty J (Config_toJson ?d) = Some s"
      "start_fresh to_upper J ?d ?path args ?env =
        (?env\<lparr>ce_files := (ce_files ?env)(?path \<mapsto> s @ [CHR 0x0A])\<rparr>, Config_fromArgs to_upper ?d args)"
      by (rule fresh_start [OF assms(1), of ?env ?path hc to_upper args])
    then show ?thesis using load moved Read_parse_error by simp
  next
    case False
    then have "\<not> ce_writable ?env ?path" by (simp add: rename_file_def)
    then show ?thesis using load moved Read_parse_error False by (simp add: start_fresh_def write_default_def)
  qed
next
  case Read_exception
  then show ?thesis using assms(2-5) by (simp add: loadConfig_def Let_def)
next
  case (Read_json j)
  then show ?thesis using assms(2-6) by (simp add: loadConfig_def Let_def)
qed

lemma loadConfig_broken_witness:
  "ce_files (fst (loadConfig (map ascii_upper) example_json 4 [] (example_env [''config.json'' \<mapsto> ''{''])))
     ''config.json.broken'' = Some ''{'' \<and>
   fst (loadConfig (map ascii_upper) example_json 4 [] (example_env [''config.json'' \<mapsto> ''1e999''])) =
     example_env [''config.json'' \<mapsto> ''1e999'']"
proof -
  have "jl_read_stream example_json ''{'' = Read_parse_error" by code_simp
  then have broken: "ce_files (fst (loadConfig (map ascii_upper) example_json 4 [] (example_env [''config.json'' \<mapsto> ''{''])))
     ''config.json.broken'' = Some ''{''"
    using loadConfig_broken [OF example_json_laws _ _ _ prod.collapse [symmetric], of "example_env [''config.json'' \<mapsto> ''{'']" "[]" "''{''"
        "map ascii_upper" 4] by (simp add: example_env_def)
  have "jl_read_stream example_json ''1e999'' = Read_exception" by code_simp
  then have "fst (loadConfig (map ascii_upper) example_json 4 [] (example_env [''config.json'' \<mapsto> ''1e999''])) =
      example_env [''config.json'' \<mapsto> ''1e999'']"
    using loadConfig_broken [OF example_json_laws _ _ _ prod.collapse [symmetric], of "example_env [''config.json'' \<mapsto> ''1e999'']" "[]"
        "''1e999''" "map ascii_upper" 4] by (simp add: example_env_def)
  with broken show ?thesis by blast
qed

end
