(* ===== verification/Session.thy ===== *)
theory Session
  imports Request_Processor Config
begin

text \<open>
  \<open>Session\<close> of src/session.cpp: the handlers of one connection, which its strand runs one at a
  time. A handler is a function from the session to the session and the effects it has, in order:
  the asynchronous operations it starts and its calls of the server and the processor. The
  configuration, the library functions and whether the server is draining are arguments.
\<close>

section \<open>The session\<close>

record session =
  ss_keepAlive :: bool
  ss_closed :: bool
  ss_ended :: bool
  ss_requestCount :: size_t
  ss_maxKeepaliveRequests :: size_t
  ss_enableKeepalive :: bool

definition Session_new :: "size_t \<Rightarrow> bool \<Rightarrow> session" where
  "Session_new maxKeepaliveRequests enableKeepalive =
     \<lparr>ss_keepAlive = False, ss_closed = False, ss_ended = False, ss_requestCount = 0,
      ss_maxKeepaliveRequests = maxKeepaliveRequests, ss_enableKeepalive = enableKeepalive\<rparr>"

text \<open>How an asynchronous read ends, by the error codes the code tells apart.\<close>

datatype read_error = End_of_stream | Eof | Operation_aborted | Body_limit | Connection_reset | Read_failed string

datatype 'f read_result = Read_request "'f request" | Read_error read_error

datatype write_result = Write_done | Broken_pipe | Write_failed string

datatype 'f effect =
    Arm_timer \<comment> \<open>\<open>expires_after\<close> and \<open>async_wait\<close> with \<open>onTimeout\<close>\<close>
  | Cancel_timer
  | Async_read size_t \<comment> \<open>into a new parser with this body limit\<close>
  | Async_write "'f response"
  | Close_socket
  | Process "'f request" cint
  | End_session \<comment> \<open>\<open>m_server.endSession\<close>\<close>
  | Log string LogLevel

section \<open>The handlers\<close>

definition Session_endSession :: "session \<Rightarrow> session \<times> 'f effect list" where
  "Session_endSession s = (if ss_ended s then (s, []) else (s\<lparr>ss_ended := True\<rparr>, [End_session]))"

text \<open>The size limit is computed in \<open>size_t\<close>.\<close>

definition Session_doRead :: "config \<Rightarrow> session \<Rightarrow> session \<times> 'f effect list" where
  "Session_doRead cfg s =
     (if ss_closed s then (s, [])
      else (s, [Arm_timer, Async_read (cf_body_limit_mb cfg * 1024 * 1024)]))"

text \<open>The part of \<open>sendResponse\<close> that the strand runs.\<close>

definition Session_sendResponse :: "'f response \<Rightarrow> bool \<Rightarrow> session \<Rightarrow> session \<times> 'f effect list" where
  "Session_sendResponse response keepAlive s =
     (if ss_closed s then (s, []) else (s\<lparr>ss_keepAlive := keepAlive\<rparr>, [Async_write response]))"

text \<open>The priority of a request: that of its header, 0 without one or if it is not a number.\<close>

definition request_priority :: "'f beast \<Rightarrow> 'f request \<Rightarrow> cint \<times> 'g effect list" where
  "request_priority B req =
     (case bst_find B ''X-Priority'' (rq_fields req) of
        None \<Rightarrow> (0, [])
      | Some v \<Rightarrow> (case stoi v of
           Inr p \<Rightarrow> (p, [])
         | Inl e \<Rightarrow> (0, [Log ''Invalid priority header'' WARNING])))"

text \<open>
  The sampling of requests with a priority: the new value of the counter shared by all sessions
  and the message; \<^const>\<open>None\<close> is the division by zero when the sample rate is 0.
\<close>

definition sample_priority :: "config \<Rightarrow> cint \<Rightarrow> uint \<Rightarrow> (uint \<times> 'f effect list) option" where
  "sample_priority cfg priority nonZeroCounter =
     (if priority = 0 then Some (nonZeroCounter, [])
      else let current = nonZeroCounter + 1 in
        if cf_sample_rate cfg = 0 then None
        else Some (current,
          if current mod cf_sample_rate cfg = 0
          then [Log (''Request priority: '' @ int_to_string (sint priority) @
                  '' (sampled, total non-zero='' @ nat_to_string (unat current) @ '')'') INFO]
          else []))"

definition read_error_log :: "read_error \<Rightarrow> 'f effect" where
  "read_error_log e = (case e of
      End_of_stream \<Rightarrow> Log ''Connection closed by client'' INFO
    | Eof \<Rightarrow> Log ''Connection closed by client'' INFO
    | Operation_aborted \<Rightarrow> Log ''Read aborted (shutdown or timeout)'' DEBUG
    | Body_limit \<Rightarrow> Log ''Request body too large (413)'' WARNING
    | Connection_reset \<Rightarrow> Log ''Connection reset by peer'' DEBUG
    | Read_failed msg \<Rightarrow> Log (''Read error: '' @ msg) ERROR)"

definition Session_onRead :: "'f beast \<Rightarrow> config \<Rightarrow> 'f read_result \<Rightarrow> uint \<Rightarrow> session \<Rightarrow>
    (session \<times> uint \<times> 'f effect list) option" where
  "Session_onRead B cfg result nonZeroCounter s =
     (case result of
        Read_error Body_limit \<Rightarrow>
          (let res = makeResponse B (Response_new B) Payload_too_large ''413 Payload too large'' ''text/plain'';
               (s', es) = Session_sendResponse res False s
           in Some (s', nonZeroCounter, [Cancel_timer, read_error_log Body_limit] @ es))
      | Read_error e \<Rightarrow>
          (let (s', es) = Session_endSession s
           in Some (s', nonZeroCounter, [Cancel_timer, read_error_log e] @ es))
      | Read_request request \<Rightarrow>
          (let s' = s\<lparr>ss_requestCount := ss_requestCount s + 1\<rparr>;
               (priority, logs) = request_priority B request
           in case sample_priority cfg priority nonZeroCounter of
                None \<Rightarrow> None
              | Some (counter, logs') \<Rightarrow>
                  Some (s', counter, [Cancel_timer] @ logs @ logs' @ [Process request priority])))"

definition Session_onWrite :: "config \<Rightarrow> bool \<Rightarrow> write_result \<Rightarrow> session \<Rightarrow> session \<times> 'f effect list" where
  "Session_onWrite cfg draining result s =
     (case result of
        Broken_pipe \<Rightarrow>
          (let (s', es) = Session_endSession s
           in (s', Log ''Write error: broken pipe (client closed connection)'' DEBUG # es))
      | Write_failed msg \<Rightarrow>
          (let (s', es) = Session_endSession s in (s', Log (''Write error: '' @ msg) ERROR # es))
      | Write_done \<Rightarrow>
          (let shouldKeepAlive = (ss_keepAlive s \<and> ss_enableKeepalive s \<and>
                 ss_requestCount s < ss_maxKeepaliveRequests s)
           in if \<not> shouldKeepAlive \<or> draining then
                let (s', es) = Session_endSession s
                in (s', (if draining then Log ''Draining: closing connection'' INFO
                         else Log ''Connection closed'' DEBUG) # es)
              else let (s', es) = Session_doRead cfg s
                in (s', Log ''Keep-Alive: continue'' DEBUG # es)))"

definition Session_onTimeout :: "bool \<Rightarrow> session \<Rightarrow> session \<times> 'f effect list" where
  "Session_onTimeout aborted s =
     (if aborted then (s, [])
      else let (s', es) = Session_endSession s in (s', Log ''Read timeout, closing session'' INFO # es))"

text \<open>The handler that \<open>close\<close> posts to the strand.\<close>

definition Session_close :: "session \<Rightarrow> session \<times> 'f effect list" where
  "Session_close s =
     (if ss_closed s then (s, [])
      else let (s', es) = Session_endSession (s\<lparr>ss_closed := True\<rparr>)
        in (s', [Cancel_timer, Close_socket] @ es))"

section \<open>What the server relies on\<close>

text \<open>
  The operations a handler starts that lead to a further response, its calls of
  \<open>m_server.endSession\<close>, and the requests the session has counted.
\<close>

fun starts :: "'f effect \<Rightarrow> nat" where
  "starts (Async_read n) = 1"
| "starts (Async_write r) = 1"
| "starts (Process req p) = 1"
| "starts _ = 0"

definition started :: "'f effect list \<Rightarrow> nat" where
  "started es = sum_list (map starts es)"

definition ends :: "'f effect list \<Rightarrow> nat" where
  "ends es = length (filter (\<lambda>e. e = End_session) es)"

text \<open>Effects that process a request, and effects of no consequence for the connection.\<close>

fun is_process :: "'f effect \<Rightarrow> bool" where
  "is_process (Process req p) = True"
| "is_process _ = False"

fun is_quiet :: "'f effect \<Rightarrow> bool" where
  "is_quiet Cancel_timer = True"
| "is_quiet (Log m l) = True"
| "is_quiet _ = False"

definition served :: "session \<Rightarrow> nat" where
  "served s = unat (ss_requestCount s)"

text \<open>
  What every handler keeps: it calls \<open>m_server.endSession\<close> exactly when it sets \<open>m_ended\<close>, it
  never clears \<open>m_closed\<close> or \<open>m_ended\<close>, and a closed session has ended.
\<close>

definition handler_ok :: "session \<Rightarrow> session \<times> 'f effect list \<Rightarrow> bool" where
  "handler_ok s r \<longleftrightarrow> (case r of (s', es) \<Rightarrow>
     (ss_closed s \<longrightarrow> ss_closed s') \<and> (ss_ended s \<longrightarrow> ss_ended s') \<and>
     (ss_closed s' \<longrightarrow> ss_closed s \<or> ss_ended s') \<and>
     ends es = (if ss_ended s' \<and> \<not> ss_ended s then 1 else 0) \<and>
     ss_requestCount s' = ss_requestCount s \<and>
     ss_maxKeepaliveRequests s' = ss_maxKeepaliveRequests s \<and> ss_enableKeepalive s' = ss_enableKeepalive s)"

definition closed_ended :: "session \<Rightarrow> bool" where
  "closed_ended s \<longleftrightarrow> (ss_closed s \<longrightarrow> ss_ended s)"

lemma handler_okD:
  assumes "handler_ok s (s', es)"
  shows "ends es = (if ss_ended s' \<and> \<not> ss_ended s then 1 else 0)" and "ss_requestCount s' = ss_requestCount s"
    and "ss_maxKeepaliveRequests s' = ss_maxKeepaliveRequests s" and "ss_enableKeepalive s' = ss_enableKeepalive s"
    and "closed_ended s \<Longrightarrow> closed_ended s'" and "ss_ended s \<Longrightarrow> ss_ended s'"
  using assms by (auto simp: handler_ok_def closed_ended_def)

text \<open>
  The interface between the server and the handlers of a session. A handler of any kind keeps the
  above and processes no request; the handler of an operation that has completed (a \<open>relay\<close>)
  starts the next one or ends the session; the others (the timer and \<open>close\<close>) start nothing.
\<close>

locale session_handler =
  fixes h :: "session \<Rightarrow> session \<times> 'f effect list"
  assumes ok: "handler_ok s (h s)"
    and no_process: "\<forall>e \<in> set (snd (h s)). \<not> is_process e"

locale relay = session_handler +
  assumes relays: "closed_ended s \<Longrightarrow> started (snd (h s)) \<le> 1 \<and> (started (snd (h s)) = 1 \<or> ss_ended (fst (h s)))"

locale bystander = session_handler +
  assumes starts_nothing: "started (snd (h s)) = 0"

named_theorems session_defs
lemmas [session_defs] = handler_ok_def started_def ends_def Session_endSession_def Session_doRead_def
  Session_sendResponse_def Session_onWrite_def Session_onTimeout_def Session_close_def read_error_log_def
  closed_ended_def Let_def

lemma endSession_ok: "handler_ok s (Session_endSession s)"
  by (auto simp: session_defs)

interpretation doRead: relay "Session_doRead cfg" for cfg
  by unfold_locales (auto simp: session_defs)

interpretation sendResponse: relay "Session_sendResponse res ka" for res ka
  by unfold_locales (auto simp: session_defs)

interpretation onWrite: relay "Session_onWrite cfg draining result" for cfg draining result
  by unfold_locales (auto simp: session_defs split: write_result.splits)

interpretation onTimeout: bystander "Session_onTimeout aborted" for aborted
  by unfold_locales (auto simp: session_defs)

interpretation close: bystander Session_close
  by unfold_locales (auto simp: session_defs)

text \<open>
  \<open>onRead\<close> handles no request, as a relay does, or it counts the request and passes it to the
  processor after effects of no consequence.
\<close>

lemma quiet_no_process: "\<forall>e \<in> set es. is_quiet e \<Longrightarrow> \<forall>e \<in> set es. \<not> is_process e"
proof
  fix e assume "\<forall>e \<in> set es. is_quiet e" "e \<in> set es"
  then have "is_quiet e" by simp
  then show "\<not> is_process e" by (cases e) simp_all
qed

lemma onRead_cases:
  assumes "Session_onRead (B :: 'f beast) cfg result n s = Some (s', n', es)"
  obtains (no_request) "\<forall>e \<in> set es. \<not> is_process e" "handler_ok s (s', es)"
      "closed_ended s \<Longrightarrow> started es \<le> 1 \<and> (started es = 1 \<or> ss_ended s')"
      "\<forall>limit. Async_read limit \<notin> set es"
    | (a_request) req priority quiet where "result = Read_request req" "es = quiet @ [Process req priority]"
      "\<forall>e \<in> set quiet. is_quiet e" "s' = s\<lparr>ss_requestCount := ss_requestCount s + 1\<rparr>"
proof (cases result)
  case (Read_error e)
  then show thesis
    using assms
    by (intro no_request)
      (auto simp: Session_onRead_def session_defs split: read_error.splits if_splits)
next
  case (Read_request req)
  obtain p logs where pr: "(request_priority B req :: cint \<times> 'f effect list) = (p, logs)" by force
  obtain logs' where sample: "sample_priority cfg p n = Some (n', logs')"
    and res: "s' = s\<lparr>ss_requestCount := ss_requestCount s + 1\<rparr>" "es = [Cancel_timer] @ logs @ logs' @ [Process req p]"
    using assms Read_request pr by (auto simp: Session_onRead_def Let_def split: option.splits)
  have "\<forall>e \<in> set logs. is_quiet e"
    using pr by (auto simp: request_priority_def split: option.splits sum.splits)
  moreover have "\<forall>e \<in> set logs'. is_quiet e"
    using sample by (auto simp: sample_priority_def Let_def split: if_splits)
  ultimately show thesis
    using Read_request res by (intro a_request [of req "[Cancel_timer] @ logs @ logs'" p]) auto
qed

end
