(* ===== verification/File_System.thy ===== *)
theory File_System
  imports Prelude "HOL-Library.Sublist"
begin

text \<open>
  The part of \<open>std::filesystem\<close> the program uses, on a POSIX file system with symbolic links: paths
  as text and as sequences of names, path resolution, \<open>weakly_canonical\<close>, and the queries. A call
  of the library sees one state of the file system; permissions matter only when a file is opened.
\<close>

section \<open>Files and paths\<close>

text \<open>A link holds whether its target is absolute, and the names of the target.\<close>

datatype fs_node = Dir | Regular string bool | Symlink bool "string list" | Special

text \<open>A regular file has its bytes, and whether it can be opened for reading.\<close>

record filesystem =
  fs_node_at :: "string list \<Rightarrow> fs_node option" \<comment> \<open>by the names on the way from the root, without links\<close>
  fs_cwd :: "string list"
  fs_irregular :: "string list \<Rightarrow> string option" \<comment> \<open>what is read from a directory or special file that is opened\<close>

text \<open>
  A path is its sequence of names; a trailing separator is an empty last name, as in the iteration
  over a \<open>std::filesystem::path\<close>.
\<close>

record fs_path =
  p_absolute :: bool
  p_names :: "string list"

definition p_empty :: "fs_path \<Rightarrow> bool" where
  "p_empty p \<longleftrightarrow> \<not> p_absolute p \<and> p_names p = []"

fun split_slash :: "string \<Rightarrow> string list" where
  "split_slash [] = [[]]"
| "split_slash (c # cs) = (if c = CHR ''/'' then [] # split_slash cs
     else case split_slash cs of [] \<Rightarrow> [[c]] | x # xs \<Rightarrow> (c # x) # xs)"

definition path_of_string :: "string \<Rightarrow> fs_path" where
  "path_of_string s =
     (let names = filter (\<lambda>x. x \<noteq> []) (split_slash s)
      in \<lparr>p_absolute = (s \<noteq> [] \<and> hd s = CHR ''/''),
          p_names = names @ (if names \<noteq> [] \<and> last s = CHR ''/'' then [[]] else [])\<rparr>)"

text \<open>The elements of the iteration: the root directory comes first.\<close>

definition path_elements :: "fs_path \<Rightarrow> string list" where
  "path_elements p = (if p_absolute p then [''/''] else []) @ p_names p"

text \<open>\<open>operator/\<close>: an absolute right operand replaces the left one.\<close>

definition path_append :: "fs_path \<Rightarrow> fs_path \<Rightarrow> fs_path" where
  "path_append p q =
     (if p_absolute q then q
      else \<lparr>p_absolute = p_absolute p,
            p_names = (if p_names p \<noteq> [] \<and> last (p_names p) = [] then butlast (p_names p) else p_names p)
              @ (if p_names q = [] \<and> \<not> p_empty p then [[]] else p_names q)\<rparr>)"

definition path_filename :: "fs_path \<Rightarrow> string" where
  "path_filename p = (if p_names p = [] then [] else last (p_names p))"

text \<open>\<open>extension\<close>: from the last dot of the file name on, unless the name starts with it.\<close>

definition path_extension :: "fs_path \<Rightarrow> string" where
  "path_extension p =
     (let name = path_filename p; tail = takeWhile (\<lambda>c. c \<noteq> CHR ''.'') (rev name)
      in if name = ''.'' \<or> name = ''..'' \<or> length name \<le> length tail + 1 then []
         else CHR ''.'' # rev tail)"

text \<open>
  The file system as the calls of one handler find it, one after the other: others may change it in
  between; \<open>still\<close> is one that does not change.
\<close>

type_synonym files = "nat \<Rightarrow> filesystem"

abbreviation still :: "filesystem \<Rightarrow> files" where
  "still fs \<equiv> (\<lambda>_. fs)"

section \<open>Resolution\<close>

datatype errno = ENOENT | ENOTDIR | ELOOP

text \<open>The walk of the operating system along a path, with a bound on the links it follows.\<close>

function walk :: "filesystem \<Rightarrow> nat \<Rightarrow> string list \<Rightarrow> string list \<Rightarrow> errno + string list" where
  "walk fs links dir [] = Inr dir"
| "walk fs links dir (name # names) =
     (if fs_node_at fs dir \<noteq> Some Dir then Inl ENOTDIR
      else if name = [] \<or> name = ''.'' then walk fs links dir names
      else if name = ''..'' then walk fs links (butlast dir) names
      else (case fs_node_at fs (dir @ [name]) of
          None \<Rightarrow> Inl ENOENT
        | Some (Symlink absolute target) \<Rightarrow>
            (case links of 0 \<Rightarrow> Inl ELOOP
             | Suc n \<Rightarrow> walk fs n (if absolute then [] else dir) (target @ names))
        | Some _ \<Rightarrow> walk fs links (dir @ [name]) names))"
  by pat_completeness auto
termination
  by (relation "measures [\<lambda>(fs, links, dir, names). links, \<lambda>(fs, links, dir, names). length names]") auto

definition max_links :: nat where
  "max_links = 40"

definition resolve :: "filesystem \<Rightarrow> fs_path \<Rightarrow> errno + string list" where
  "resolve fs p =
     (if p_empty p then Inl ENOENT
      else walk fs max_links (if p_absolute p then [] else fs_cwd fs) (p_names p))"

text \<open>
  The file the path leads to; \<open>ENOENT\<close> and \<open>ENOTDIR\<close> mean that there is none, any other error that
  the status is not known.
\<close>

datatype fs_status = Not_found_status | Unknown_status | Known fs_node

definition status :: "filesystem \<Rightarrow> fs_path \<Rightarrow> fs_status" where
  "status fs p = (case resolve fs p of
      Inl ELOOP \<Rightarrow> Unknown_status
    | Inl _ \<Rightarrow> Not_found_status
    | Inr d \<Rightarrow> (case fs_node_at fs d of None \<Rightarrow> Not_found_status | Some node \<Rightarrow> Known node))"

definition fs_exists :: "filesystem \<Rightarrow> fs_path \<Rightarrow> bool" where
  "fs_exists fs p \<longleftrightarrow> (case status fs p of Known _ \<Rightarrow> True | _ \<Rightarrow> False)"

definition is_regular_file :: "filesystem \<Rightarrow> fs_path \<Rightarrow> bool" where
  "is_regular_file fs p \<longleftrightarrow> (case status fs p of Known (Regular _ _) \<Rightarrow> True | _ \<Rightarrow> False)"

text \<open>\<^const>\<open>None\<close> is an error code.\<close>

definition file_size :: "filesystem \<Rightarrow> fs_path \<Rightarrow> nat option" where
  "file_size fs p = (case status fs p of Known (Regular bytes _) \<Rightarrow> Some (length bytes) | _ \<Rightarrow> None)"

text \<open>
  \<open>std::ifstream\<close> and \<open>rdbuf\<close>: the bytes, or not open. A directory can be opened too, but not read: the
  copy fails at the first byte and nothing has been copied. A special file gives what it gives.
\<close>

definition read_file :: "filesystem \<Rightarrow> fs_path \<Rightarrow> string option" where
  "read_file fs p = (case resolve fs p of
      Inl _ \<Rightarrow> None
    | Inr d \<Rightarrow> (case fs_node_at fs d of
        Some (Regular bytes readable) \<Rightarrow> if readable then Some bytes else None
      | Some Dir \<Rightarrow> map_option (\<lambda>_. []) (fs_irregular fs d)
      | Some Special \<Rightarrow> fs_irregular fs d
      | _ \<Rightarrow> None))"

lemma read_regular: "status fs p = Known (Regular bytes readable) \<Longrightarrow> read_file fs p = (if readable then Some bytes else None)"
  by (auto simp: status_def read_file_def split: sum.splits errno.splits option.splits)

lemma read_file_cases:
  assumes "read_file fs p = Some bytes"
  obtains (regular) d where "resolve fs p = Inr d" "fs_node_at fs d = Some (Regular bytes True)"
      "status fs p = Known (Regular bytes True)"
    | (irregular) d node where "resolve fs p = Inr d" "fs_node_at fs d = Some node" "node = Dir \<or> node = Special"
      "status fs p = Known node"
  using assms
  by (auto simp: read_file_def status_def split: sum.splits option.splits fs_node.splits if_splits)

section \<open>Canonical paths\<close>

definition canonical :: "filesystem \<Rightarrow> fs_path \<Rightarrow> fs_path option" where
  "canonical fs p = (case resolve fs p of Inl _ \<Rightarrow> None | Inr d \<Rightarrow> Some \<lparr>p_absolute = True, p_names = d\<rparr>)"

fun normal_names :: "bool \<Rightarrow> string list \<Rightarrow> string list \<Rightarrow> string list" where
  "normal_names absolute done [] = rev done"
| "normal_names absolute done (x # xs) =
     (if x = [] \<or> x = ''.'' then normal_names absolute done xs
      else if x = ''..'' then
        (case done of [] \<Rightarrow> normal_names absolute (if absolute then [] else [x]) xs
         | y # ys \<Rightarrow> if y = ''..'' then normal_names absolute (x # done) xs else normal_names absolute ys xs)
      else normal_names absolute (x # done) xs)"

definition lexically_normal :: "fs_path \<Rightarrow> fs_path" where
  "lexically_normal p =
     (let names = normal_names (p_absolute p) [] (p_names p)
      in if p_empty p then p
         else p\<lparr>p_names := if names = [] \<and> \<not> p_absolute p then [''.'']
           else names @ (if names \<noteq> [] \<and> p_names p \<noteq> [] \<and> last (p_names p) \<in> {[], ''.''} then [[]] else [])\<rparr>)"

text \<open>The longest sequence of leading names that exists, and the rest.\<close>

fun existing_prefix :: "filesystem \<Rightarrow> fs_path \<Rightarrow> string list \<Rightarrow> (fs_path \<times> string list) option" where
  "existing_prefix fs result [] = Some (result, [])"
| "existing_prefix fs result (x # xs) =
     (let tmp = path_append result \<lparr>p_absolute = False, p_names = [x]\<rparr>
      in case status fs tmp of
           Known _ \<Rightarrow> existing_prefix fs tmp xs
         | Not_found_status \<Rightarrow> Some (result, x # xs)
         | Unknown_status \<Rightarrow> None)"

definition weakly_canonical :: "filesystem \<Rightarrow> fs_path \<Rightarrow> fs_path option" where
  "weakly_canonical fs p =
     (case status fs p of
        Known _ \<Rightarrow> canonical fs p
      | Unknown_status \<Rightarrow> None
      | Not_found_status \<Rightarrow>
          (case existing_prefix fs \<lparr>p_absolute = p_absolute p, p_names = []\<rparr> (p_names p) of
             None \<Rightarrow> None
           | Some (result, rest) \<Rightarrow>
               (case (if p_empty result then Some result else canonical fs result) of
                  None \<Rightarrow> None
                | Some base \<Rightarrow> Some (lexically_normal (base\<lparr>p_names := p_names base @ rest\<rparr>)))))"

lemma weakly_canonical_existing:
  assumes "status fs p = Known node"
  obtains d where "resolve fs p = Inr d" and "fs_node_at fs d = Some node"
    and "weakly_canonical fs p = Some \<lparr>p_absolute = True, p_names = d\<rparr>"
  using assms
  by (auto simp: status_def weakly_canonical_def canonical_def split: sum.splits errno.splits option.splits)

section \<open>Where a path leads\<close>

text \<open>A place named without links: every name before the last is a directory, and it is no link.\<close>

definition real_path :: "filesystem \<Rightarrow> string list \<Rightarrow> bool" where
  "real_path fs d \<longleftrightarrow> (\<forall>k < length d. fs_node_at fs (take k d) = Some Dir) \<and>
     (\<forall>absolute target. fs_node_at fs d \<noteq> Some (Symlink absolute target))"

lemma real_path_Nil: "fs_node_at fs [] = Some Dir \<Longrightarrow> real_path fs []"
  by (simp add: real_path_def)

lemma real_path_butlast: "real_path fs d \<Longrightarrow> real_path fs (butlast d)"
proof (cases d rule: rev_cases)
  case (snoc d' x)
  assume real: "real_path fs d"
  then have "fs_node_at fs d' = Some Dir" using snoc by (auto simp: real_path_def)
  then show ?thesis
    using real snoc by (auto simp: real_path_def less_Suc_eq)
qed simp

lemma real_path_snoc:
  "real_path fs d \<Longrightarrow> fs_node_at fs d = Some Dir \<Longrightarrow>
    (\<forall>absolute target. fs_node_at fs (d @ [x]) \<noteq> Some (Symlink absolute target)) \<Longrightarrow> real_path fs (d @ [x])"
  by (auto simp: real_path_def less_Suc_eq)

lemma walk_real:
  "walk fs links dir names = Inr d \<Longrightarrow> real_path fs dir \<Longrightarrow> fs_node_at fs [] = Some Dir \<Longrightarrow> real_path fs d"
proof (induction fs links dir names rule: walk.induct)
  case (2 fs links dir name names)
  have dir: "fs_node_at fs dir = Some Dir" using "2.prems"(1) by (auto split: if_splits)
  consider (dot) "name = [] \<or> name = ''.''" | (up) "name = ''..''" "name \<noteq> []" "name \<noteq> ''.''"
    | (down) "name \<noteq> []" "name \<noteq> ''.''" "name \<noteq> ''..''" by blast
  then show ?case
  proof cases
    case dot
    then show ?thesis using "2.IH"(1) "2.prems" dir by auto
  next
    case up
    then show ?thesis
      using "2.IH"(2) "2.prems" dir real_path_butlast by auto
  next
    case down
    obtain node where node: "fs_node_at fs (dir @ [name]) = Some node"
      using "2.prems"(1) dir down by (auto split: option.splits)
    show ?thesis
    proof (cases node)
      case (Symlink absolute target)
      then obtain n where n: "links = Suc n" "walk fs n (if absolute then [] else dir) (target @ names) = Inr d"
        using "2.prems"(1) dir down node by (auto split: nat.splits)
      then show ?thesis
        using "2.IH"(3-) dir down node Symlink "2.prems"(2,3) real_path_Nil by auto
    qed (use "2.IH"(3-) "2.prems" dir down node real_path_snoc in auto)
  qed
qed simp

lemma resolve_real:
  assumes "resolve fs p = Inr d" and "fs_node_at fs [] = Some Dir" and "real_path fs (fs_cwd fs)"
  shows "real_path fs d"
  using assms walk_real real_path_Nil by (auto simp: resolve_def split: if_splits)

end
