(* ===== verification/Static_File.thy ===== *)
theory Static_File
  imports Http File_System
begin

text \<open>
  \<open>StaticFileHandler\<close> of src/static_file_handler.cpp: the answer to a request for a file below the
  static root, from the state of the file system.
\<close>

section \<open>The handler\<close>

record static_handler =
  sh_rootPath :: fs_path
  sh_rootCanonical :: fs_path
  sh_maxFileSize :: size_t

text \<open>The constructor throws if the root cannot be made canonical.\<close>

definition StaticFileHandler_new :: "filesystem \<Rightarrow> string \<Rightarrow> size_t \<Rightarrow> static_handler result" where
  "StaticFileHandler_new fs rootPath maxFileSize =
     (let root = path_of_string rootPath
      in case weakly_canonical fs root of
           None \<Rightarrow> Inl (runtime_error ''Failed to canonicalize static root: '')
         | Some c \<Rightarrow> Inr \<lparr>sh_rootPath = root, sh_rootCanonical = c, sh_maxFileSize = maxFileSize\<rparr>)"

definition mimeMap :: "(string \<times> string) list" where
  "mimeMap =
     [(''.html'', ''text/html''), (''.htm'', ''text/html''),
      (''.css'', ''text/css''), (''.js'', ''application/javascript''),
      (''.json'', ''application/json''), (''.png'', ''image/png''),
      (''.jpg'', ''image/jpeg''), (''.jpeg'', ''image/jpeg''),
      (''.gif'', ''image/gif''), (''.svg'', ''image/svg+xml''),
      (''.ico'', ''image/x-icon''), (''.txt'', ''text/plain''),
      (''.xml'', ''application/xml''), (''.pdf'', ''application/pdf''),
      (''.zip'', ''application/zip'')]"

definition getMimeType :: "string \<Rightarrow> string" where
  "getMimeType extension =
     (case map_of mimeMap extension of Some t \<Rightarrow> t | None \<Rightarrow> ''application/octet-stream'')"

definition static_prefix :: string where
  "static_prefix = ''/static/''"

text \<open>\<open>files\<close> gives the state of the file system that each call of the library finds.\<close>

definition StaticFileHandler_handle ::
  "'f beast \<Rightarrow> files \<Rightarrow> static_handler \<Rightarrow> 'f request \<Rightarrow> 'f response \<Rightarrow> 'f response" where
  "StaticFileHandler_handle B files h req res =
     (let target = rq_target req in
      if \<not> prefix static_prefix target then sendNotFound B res
      else let relativePath = drop (length static_prefix) target in
      if relativePath = [] then sendNotFound B res
      else let fullPath = path_append (sh_rootPath h) (path_of_string relativePath) in
      case weakly_canonical (files 0) fullPath of
        None \<Rightarrow> sendNotFound B res
      | Some canonicalFull \<Rightarrow>
      if \<not> prefix (path_elements (sh_rootCanonical h)) (path_elements canonicalFull) then sendNotFound B res
      else if \<not> fs_exists (files 1) fullPath \<or> \<not> is_regular_file (files 2) fullPath then sendNotFound B res
      else case file_size (files 3) fullPath of
        None \<Rightarrow> sendNotFound B res
      | Some fileSize \<Rightarrow>
      if fileSize > unat (sh_maxFileSize h) then
        makeResponse B res Payload_too_large ''413 Payload Too Large'' ''text/plain''
      else case read_file (files 4) fullPath of
        None \<Rightarrow> sendNotFound B res
      | Some content \<Rightarrow>
          let mimeType = getMimeType (path_extension fullPath);
              res = makeResponse B res Ok content mimeType
          in if rq_method req = Verb_head then res\<lparr>rs_body := []\<rparr> else res)"

section \<open>What is served\<close>

definition static_path :: "static_handler \<Rightarrow> 'f request \<Rightarrow> fs_path" where
  "static_path h req = path_append (sh_rootPath h) (path_of_string (drop (length static_prefix) (rq_target req)))"

text \<open>The file of a request: the place the path leads to, inside the root, and its bytes.\<close>

definition static_file :: "filesystem \<Rightarrow> static_handler \<Rightarrow> 'f request \<Rightarrow> (string list \<times> string \<times> bool) option" where
  "static_file fs h req =
     (if \<not> prefix static_prefix (rq_target req) \<or> rq_target req = static_prefix then None
      else case resolve fs (static_path h req) of
        Inl _ \<Rightarrow> None
      | Inr d \<Rightarrow> (case fs_node_at fs d of
            Some (Regular bytes readable) \<Rightarrow>
              if prefix (path_elements (sh_rootCanonical h)) (''/'' # d) then Some (d, bytes, readable) else None
          | _ \<Rightarrow> None))"

lemma prefix_drop_empty: "prefix p t \<Longrightarrow> drop (length p) t = [] \<longleftrightarrow> t = p"
  by (auto simp: prefix_def)

lemma StaticFileHandler_outcome:
  "StaticFileHandler_handle B (still fs) h req res =
    (case static_file fs h req of
       None \<Rightarrow> sendNotFound B res
     | Some (d, bytes, readable) \<Rightarrow>
         if unat (sh_maxFileSize h) < length bytes then
           makeResponse B res Payload_too_large ''413 Payload Too Large'' ''text/plain''
         else if \<not> readable then sendNotFound B res
         else let ok = makeResponse B res Ok bytes (getMimeType (path_extension (static_path h req)))
              in if rq_method req = Verb_head then ok\<lparr>rs_body := []\<rparr> else ok)"
proof (cases "prefix static_prefix (rq_target req) \<and> rq_target req \<noteq> static_prefix")
  case False
  then show ?thesis
    by (auto simp: StaticFileHandler_handle_def static_file_def Let_def prefix_drop_empty)
next
  case True
  then have long: "length static_prefix < length (rq_target req)"
    by (metis not_less prefix_length_prefix prefix_order.antisym prefix_order.refl)
  show ?thesis
  proof (cases "status fs (static_path h req)")
    case (Known node)
    obtain d where d: "resolve fs (static_path h req) = Inr d" "fs_node_at fs d = Some node"
        "weakly_canonical fs (static_path h req) = Some \<lparr>p_absolute = True, p_names = d\<rparr>"
      using weakly_canonical_existing [OF Known] by blast
    then show ?thesis
      using True long Known
      by (cases node) (auto simp: StaticFileHandler_handle_def static_file_def Let_def
          fs_exists_def is_regular_file_def file_size_def read_regular path_elements_def
          simp flip: static_path_def)
  qed (use True long in \<open>auto simp: StaticFileHandler_handle_def static_file_def Let_def
      fs_exists_def status_def simp flip: static_path_def
      split: option.splits sum.splits errno.splits fs_node.splits\<close>)
qed

section \<open>An example\<close>

definition example_fs :: filesystem where
  "example_fs = \<lparr>fs_node_at = map_of
     [([], Dir), ([''srv''], Dir), ([''srv'', ''www''], Dir), ([''etc''], Dir),
      ([''srv'', ''www'', ''a.txt''], Regular ''hello'' True), ([''etc'', ''passwd''], Regular ''root'' True),
      ([''srv'', ''www'', ''out''], Symlink True [''etc'', ''passwd'']),
      ([''srv'', ''www'', ''in''], Symlink False [''..'', ''www'', ''a.txt''])],
     fs_cwd = [''srv''], fs_irregular = (\<lambda>d. None)\<rparr>"

definition example_static :: static_handler where
  "example_static = \<lparr>sh_rootPath = \<lparr>p_absolute = False, p_names = [''www'']\<rparr>,
     sh_rootCanonical = \<lparr>p_absolute = True, p_names = [''srv'', ''www'']\<rparr>, sh_maxFileSize = 100\<rparr>"

definition static_get :: "string \<Rightarrow> (string \<times> string) list request" where
  "static_get target = \<lparr>rq_method = Verb_get, rq_target = target, rq_fields = [], rq_body = []\<rparr>"

lemma example_static_new: "StaticFileHandler_new example_fs ''www'' 100 = Inr example_static"
  by code_simp

lemma example_root: "resolve example_fs (path_of_string ''www'') = Inr [''srv'', ''www'']"
  by code_simp

lemma example_link_inside:
  "rs_result (StaticFileHandler_handle example_beast (still example_fs) example_static (static_get ''/static/in'')
     (Response_new example_beast)) = Ok"
  by code_simp

lemma example_link_outside:
  "rs_result (StaticFileHandler_handle example_beast (still example_fs) example_static (static_get ''/static/out'')
     (Response_new example_beast)) = Not_found"
  by code_simp

section \<open>Confinement\<close>

lemma StaticFileHandler_new_existing:
  assumes "StaticFileHandler_new fs root maxFileSize = Inr h"
    and "resolve fs (path_of_string root) = Inr r" and "fs_node_at fs r \<noteq> None"
  shows "h = \<lparr>sh_rootPath = path_of_string root, sh_rootCanonical = \<lparr>p_absolute = True, p_names = r\<rparr>,
    sh_maxFileSize = maxFileSize\<rparr>"
proof -
  obtain node where "status fs (path_of_string root) = Known node"
    using assms(2,3) by (auto simp: status_def)
  then have "weakly_canonical fs (path_of_string root) = Some \<lparr>p_absolute = True, p_names = r\<rparr>"
    using weakly_canonical_existing [of fs "path_of_string root" node] assms(2) by auto
  then show ?thesis using assms(1) by (simp add: StaticFileHandler_new_def Let_def)
qed

text \<open>What a 200 has passed.\<close>

lemma served_cases:
  assumes "rs_result (StaticFileHandler_handle B files h req res) = Ok"
  obtains c n bytes where "weakly_canonical (files 0) (static_path h req) = Some c"
    and "prefix (path_elements (sh_rootCanonical h)) (path_elements c)"
    and "file_size (files 3) (static_path h req) = Some n" and "n \<le> unat (sh_maxFileSize h)"
    and "read_file (files 4) (static_path h req) = Some bytes"
    and "rs_body (StaticFileHandler_handle B files h req res) = (if rq_method req = Verb_head then [] else bytes)"
  using assms
  by (auto simp: StaticFileHandler_handle_def Let_def sendNotFound_def simp flip: static_path_def
      split: if_splits option.splits)

text \<open>
  C17. Only files below the root are served: if the static root existed when the handler was made,
  and its canonical place is \<open>r\<close>, then an answer 200 is the content of a regular file at a place
  below \<open>r\<close> that is named without links, whatever the target holds (\<open>..\<close>, absolute names, links)
  and however the files have changed since, provided that the name, when the file is opened, leads to
  the place that was checked. The file is no larger than the limit, if it does not change after
  its size was read; only if it does can a directory or a special file have taken its place, which is
  below \<open>r\<close> too.
\<close>

theorem StaticFileHandler_confined:
  assumes "StaticFileHandler_new fs0 root maxFileSize = Inr h"
    and "resolve fs0 (path_of_string root) = Inr r" and "fs_node_at fs0 r \<noteq> None"
    and "fs_node_at (files 4) [] = Some Dir" and "real_path (files 4) (fs_cwd (files 4))"
    and "files 4 = files 0 \<or> canonical (files 4) (static_path h req) = weakly_canonical (files 0) (static_path h req)"
    and "rs_result (StaticFileHandler_handle B files h req res) = Ok"
  shows "\<exists>d bytes. prefix r d \<and> real_path (files 4) d \<and>
    (fs_node_at (files 4) d = Some (Regular bytes True) \<and> (files 3 = files 4 \<longrightarrow> length bytes \<le> unat maxFileSize) \<or>
     files 3 \<noteq> files 4 \<and> fs_node_at (files 4) d \<in> {Some Dir, Some Special}) \<and>
    rs_body (StaticFileHandler_handle B files h req res) = (if rq_method req = Verb_head then [] else bytes)"
proof -
  let ?p = "static_path h req"
  have h: "sh_rootCanonical h = \<lparr>p_absolute = True, p_names = r\<rparr>" "sh_maxFileSize h = maxFileSize"
    using StaticFileHandler_new_existing [OF assms(1-3)] by simp_all
  from assms(7) obtain c n bytes where c: "weakly_canonical (files 0) ?p = Some c" "prefix (''/'' # r) (path_elements c)"
    and size: "file_size (files 3) ?p = Some n" "n \<le> unat maxFileSize"
    and bytes: "read_file (files 4) ?p = Some bytes"
    and body: "rs_body (StaticFileHandler_handle B files h req res) = (if rq_method req = Verb_head then [] else bytes)"
    by (rule served_cases) (simp add: h path_elements_def)
  obtain d node where d: "resolve (files 4) ?p = Inr d" "fs_node_at (files 4) d = Some node" "status (files 4) ?p = Known node"
    and node: "node = Regular bytes True \<or> node = Dir \<or> node = Special"
    using bytes by (cases rule: read_file_cases) blast+
  have "weakly_canonical (files 4) ?p = Some \<lparr>p_absolute = True, p_names = d\<rparr>"
    using weakly_canonical_existing [OF d(3)] d(1) by (metis sum.inject(2))
  then have "c = \<lparr>p_absolute = True, p_names = d\<rparr>"
    using assms(6) c(1) d(1) by (auto simp: canonical_def)
  then have "prefix r d" using c(2) by (simp add: path_elements_def)
  moreover have "fs_node_at (files 4) d = Some (Regular bytes True) \<and> (files 3 = files 4 \<longrightarrow> length bytes \<le> unat maxFileSize) \<or>
      files 3 \<noteq> files 4 \<and> fs_node_at (files 4) d \<in> {Some Dir, Some Special}"
    using size d(2,3) node by (auto simp: file_size_def)
  ultimately show ?thesis using resolve_real [OF d(1) assms(4,5)] body by blast
qed

lemma StaticFileHandler_confined_witness:
  "\<exists>d bytes. prefix [''srv'', ''www''] d \<and> fs_node_at example_fs d = Some (Regular bytes True) \<and> length bytes \<le> 100 \<and>
    rs_body (StaticFileHandler_handle example_beast (still example_fs) example_static (static_get ''/static/in'')
      (Response_new example_beast)) = bytes"
proof -
  have "fs_node_at example_fs [''srv'', ''www''] \<noteq> None" "fs_node_at example_fs [] = Some Dir"
    by (simp_all add: example_fs_def)
  moreover have "real_path example_fs (fs_cwd example_fs)"
    by (auto simp: real_path_def example_fs_def less_Suc_eq)
  moreover have "rq_method (static_get ''/static/in'') = Verb_get" by (simp add: static_get_def)
  ultimately show ?thesis
    using StaticFileHandler_confined [OF example_static_new example_root _ _ _ _ example_link_inside] by auto
qed

text \<open>
  C39. The check and the use are apart: the place is checked first, and the name is opened again at
  the end. If a name leads into the root when it is checked, and to any readable file of a permitted
  size from then on, the answer to a GET is 200 with the bytes of that file, wherever it is.
\<close>

theorem StaticFileHandler_race:
  assumes "prefix static_prefix (rq_target req)" and "rq_target req \<noteq> static_prefix" and "rq_method req \<noteq> Verb_head"
    and "weakly_canonical (files 0) (static_path h req) = Some c"
    and "prefix (path_elements (sh_rootCanonical h)) (path_elements c)"
    and "\<forall>k \<in> {1..4}. status (files k) (static_path h req) = Known (Regular bytes True)"
    and "length bytes \<le> unat (sh_maxFileSize h)"
  shows "StaticFileHandler_handle B files h req res =
    makeResponse B res Ok bytes (getMimeType (path_extension (static_path h req)))"
proof -
  have "length static_prefix < length (rq_target req)"
    using assms(1,2) by (metis not_less prefix_length_prefix prefix_order.antisym prefix_order.refl)
  moreover have "status (files 1) (static_path h req) = Known (Regular bytes True)"
    "status (files 2) (static_path h req) = Known (Regular bytes True)"
    "status (files 3) (static_path h req) = Known (Regular bytes True)"
    "status (files 4) (static_path h req) = Known (Regular bytes True)"
    using assms(6) by simp_all
  ultimately show ?thesis
    using assms(1-5,7)
    by (simp add: StaticFileHandler_handle_def Let_def prefix_drop_empty fs_exists_def is_regular_file_def file_size_def
        read_regular flip: static_path_def)
qed

text \<open>A link inside the root that is turned round after the check.\<close>

definition turned_fs :: filesystem where
  "turned_fs = example_fs\<lparr>fs_node_at := (fs_node_at example_fs)
     ([''srv'', ''www'', ''in''] := Some (Symlink True [''etc'', ''passwd'']))\<rparr>"

definition turning :: files where
  "turning k = (if k = 0 then example_fs else turned_fs)"

lemma turned_status:
  "status turned_fs (static_path example_static (static_get ''/static/in'')) = Known (Regular ''root'' True)"
  by code_simp

lemma StaticFileHandler_race_witness:
  "rs_body (StaticFileHandler_handle example_beast turning example_static (static_get ''/static/in'')
     (Response_new example_beast)) = ''root'' \<and> fs_node_at turned_fs [''etc'', ''passwd''] = Some (Regular ''root'' True)"
proof -
  let ?req = "static_get ''/static/in''"
  have "weakly_canonical (turning 0) (static_path example_static ?req) =
      Some \<lparr>p_absolute = True, p_names = [''srv'', ''www'', ''a.txt'']\<rparr>"
    by code_simp
  moreover have "prefix (path_elements (sh_rootCanonical example_static))
      (path_elements \<lparr>p_absolute = True, p_names = [''srv'', ''www'', ''a.txt'']\<rparr>)"
    by code_simp
  moreover have "prefix static_prefix (rq_target ?req)" "rq_target ?req \<noteq> static_prefix" "rq_method ?req \<noteq> Verb_head"
    by (simp_all add: static_get_def static_prefix_def)
  moreover have "\<forall>k \<in> {1..4}. status (turning k) (static_path example_static ?req) = Known (Regular ''root'' True)"
    by (simp add: turning_def turned_status)
  moreover have "length ''root'' \<le> unat (sh_maxFileSize example_static)" by (simp add: example_static_def)
  ultimately have "StaticFileHandler_handle example_beast turning example_static ?req (Response_new example_beast) =
      makeResponse example_beast (Response_new example_beast) Ok ''root''
        (getMimeType (path_extension (static_path example_static ?req)))"
    using StaticFileHandler_race [of ?req turning example_static] by blast
  then show ?thesis by (simp add: turned_fs_def example_fs_def)
qed

text \<open>
  An empty static root turns the check off: the constructor accepts it, and then every regular
  readable file that a path leads to is served, wherever it is, in particular under an absolute
  name after \<open>/static/\<close>.
\<close>

theorem StaticFileHandler_empty_root:
  "\<exists>h. StaticFileHandler_new fs0 [] maxFileSize = Inr h \<and>
    (\<forall>req d bytes. prefix static_prefix (rq_target req) \<longrightarrow> rq_target req \<noteq> static_prefix \<longrightarrow>
      resolve fs (path_of_string (drop (length static_prefix) (rq_target req))) = Inr d \<longrightarrow>
      fs_node_at fs d = Some (Regular bytes True) \<longrightarrow> length bytes \<le> unat maxFileSize \<longrightarrow>
      rq_method req = Verb_get \<longrightarrow>
      StaticFileHandler_handle B (still fs) h req res =
        makeResponse B res Ok bytes
          (getMimeType (path_extension (path_of_string (drop (length static_prefix) (rq_target req))))))"
proof -
  let ?root = "\<lparr>p_absolute = False, p_names = []\<rparr> :: fs_path"
  let ?h = "\<lparr>sh_rootPath = ?root, sh_rootCanonical = ?root, sh_maxFileSize = maxFileSize\<rparr>"
  have "StaticFileHandler_new fs0 [] maxFileSize = Inr ?h"
    by (simp add: StaticFileHandler_new_def path_of_string_def weakly_canonical_def status_def resolve_def
        p_empty_def lexically_normal_def Let_def)
  moreover have "path_append ?root p = p" if "p_names p \<noteq> [] \<or> p_absolute p" for p :: fs_path
    using that by (cases p) (auto simp: path_append_def p_empty_def)
  moreover have "p_names p \<noteq> [] \<or> p_absolute p" if "resolve fs p = Inr d" for p d
    using that by (auto simp: resolve_def p_empty_def split: if_splits)
  ultimately show ?thesis
    by (intro exI [of _ ?h]) (auto simp: StaticFileHandler_outcome static_file_def static_path_def path_elements_def Let_def)
qed

lemma example_absolute: "resolve example_fs (path_of_string ''/etc/passwd'') = Inr [''etc'', ''passwd'']"
  by code_simp

lemma StaticFileHandler_empty_root_witness:
  "\<exists>h. StaticFileHandler_new example_fs [] 100 = Inr h \<and>
    rs_body (StaticFileHandler_handle example_beast (still example_fs) h (static_get ''/static//etc/passwd'')
      (Response_new example_beast)) = ''root''"
proof -
  let ?req = "static_get ''/static//etc/passwd''"
  have target: "prefix static_prefix (rq_target ?req)" "rq_target ?req \<noteq> static_prefix"
    "drop (length static_prefix) (rq_target ?req) = ''/etc/passwd''" "rq_method ?req = Verb_get"
    by (simp_all add: static_get_def static_prefix_def)
  moreover have "fs_node_at example_fs [''etc'', ''passwd''] = Some (Regular ''root'' True)"
    by (simp add: example_fs_def)
  moreover obtain h where "StaticFileHandler_new example_fs [] 100 = Inr h"
    and "\<forall>req d bytes. prefix static_prefix (rq_target req) \<longrightarrow> rq_target req \<noteq> static_prefix \<longrightarrow>
      resolve example_fs (path_of_string (drop (length static_prefix) (rq_target req))) = Inr d \<longrightarrow>
      fs_node_at example_fs d = Some (Regular bytes True) \<longrightarrow> length bytes \<le> unat (100 :: size_t) \<longrightarrow>
      rq_method req = Verb_get \<longrightarrow>
      StaticFileHandler_handle example_beast (still example_fs) h req (Response_new example_beast) =
        makeResponse example_beast (Response_new example_beast) Ok bytes
          (getMimeType (path_extension (path_of_string (drop (length static_prefix) (rq_target req)))))"
    using StaticFileHandler_empty_root [of example_fs 100 example_fs example_beast "Response_new example_beast"]
    by blast
  ultimately show ?thesis using example_absolute by (intro exI [of _ h]) simp
qed

end
