(* ===== verification/Server.thy ===== *)
theory Server
  imports Session Static_File
begin

text \<open>
  \<open>HttpServer\<close> of src/server.cpp: accepting connections, the life of the sessions, the responses,
  the drain and the shutdown. The state holds every session object made so far, with the
  asynchronous operations that are outstanding for it, the task pool with the requests in it, and
  the deliveries posted to the I/O context. An event is the completion of one operation, and runs
  one handler; the strands and the mutex make handlers of one session, and accesses to the
  session set, atomic. The threads of the I/O context interleave everything else.
\<close>

section \<open>State\<close>

datatype handler = StatusHandler | StaticFileHandler static_handler

record 'f server_env =
  se_beast :: "'f beast"
  se_json :: json_lib
  se_to_lower :: "string \<Rightarrow> string" \<comment> \<open>\<open>boost::algorithm::to_lower\<close>\<close>
  se_config :: config
  se_listen :: "string \<Rightarrow> ushort \<Rightarrow> std_exn option" \<comment> \<open>\<open>make_address\<close>, and making the acceptor\<close>
  se_open_append :: "string \<Rightarrow> string option" \<comment> \<open>opening the log file\<close>
  se_localtime :: "int \<Rightarrow> tm"

text \<open>
  A connection: its session, and what is outstanding for it. \<open>cn_waits\<close> counts the waits on the
  timer whose handler has not run: a cancelled wait ends as aborted, but one that had expired
  before it was cancelled still ends as a timeout.
\<close>

record 'f conn =
  cn_session :: session
  cn_start :: bool \<comment> \<open>\<open>doRead\<close> posted by \<open>start\<close>\<close>
  cn_reading :: "size_t option"
  cn_writing :: "'f response option"
  cn_waits :: nat
  cn_closes :: nat \<comment> \<open>posted by \<open>close\<close>\<close>
  cn_open :: bool

datatype accept_op = Accept_session | Accept_reject

record 'f server =
  sv_conns :: "'f conn list"
  sv_sessions :: "nat list" \<comment> \<open>\<open>m_sessions\<close>\<close>
  sv_activeSessions :: size_t
  sv_signalWait :: bool \<comment> \<open>the wait of \<open>m_signals\<close>, which is for one signal\<close>
  sv_draining :: bool
  sv_stopped :: bool \<comment> \<open>\<open>m_ioc.stop()\<close> was called\<close>
  sv_drainTimer :: bool
  sv_checks :: nat \<comment> \<open>signal handlers between setting \<open>m_draining\<close> and \<open>checkDrainComplete\<close>\<close>
  sv_pending :: "accept_op option" \<comment> \<open>the outstanding \<open>async_accept\<close>\<close>
  sv_accepting :: nat \<comment> \<open>accept handlers between their \<open>doAccept\<close> and the insertion\<close>
  sv_routes :: "handler routes" \<comment> \<open>\<open>m_router\<close>\<close>
  sv_pool :: "'f http_task thread_pool"
  sv_posted :: "'f delivery list"
  sv_nonZeroCounter :: uint
  sv_logger :: async_logger
  sv_ioThreads :: nat \<comment> \<open>the size of \<open>m_ioThreads\<close>\<close>
  sv_shutdownDone :: bool

definition server_log :: "ticks \<Rightarrow> string \<Rightarrow> LogLevel \<Rightarrow> 'f server \<Rightarrow> 'f server" where
  "server_log now msg level sv = sv\<lparr>sv_logger := AsyncLogger_log now msg level (sv_logger sv)\<rparr>"

definition update_conn :: "nat \<Rightarrow> ('f conn \<Rightarrow> 'f conn) \<Rightarrow> 'f server \<Rightarrow> 'f server" where
  "update_conn i f sv = sv\<lparr>sv_conns := (sv_conns sv)[i := f (sv_conns sv ! i)]\<rparr>"

section \<open>Routes and responses\<close>

definition HttpServer_handle :: "'f server_env \<Rightarrow> files \<Rightarrow> 'a thread_pool \<Rightarrow> handler \<Rightarrow>
    'f request \<Rightarrow> 'f response \<Rightarrow> 'f response option" where
  "HttpServer_handle env fs pool h req res =
     (case h of
        StatusHandler \<Rightarrow> StatusHandler_handle (se_beast env) (se_json env) pool res
      | StaticFileHandler sh \<Rightarrow> Some (StaticFileHandler_handle (se_beast env) fs sh req res))"

text \<open>The routes of \<open>setup\<close>; making a static handler may throw.\<close>

definition HttpServer_regs :: "config \<Rightarrow> filesystem \<Rightarrow> (verb \<times> string \<times> handler) list result" where
  "HttpServer_regs cfg fs =
     (let maxFileSize = cf_static_max_file_size_mb cfg * 1024 * 1024 in
      case StaticFileHandler_new fs (cf_static_root cfg) maxFileSize of
        Inl e \<Rightarrow> Inl e
      | Inr h1 \<Rightarrow> (case StaticFileHandler_new fs (cf_static_root cfg) maxFileSize of
            Inl e \<Rightarrow> Inl e
          | Inr h2 \<Rightarrow> Inr [(Verb_get, ''/status'', StatusHandler),
              (Verb_get, ''/static/'', StaticFileHandler h1), (Verb_head, ''/static/'', StaticFileHandler h2)]))"

definition HttpServer_isKeepAlive :: "'f beast \<Rightarrow> (string \<Rightarrow> string) \<Rightarrow> 'f request option \<Rightarrow> bool" where
  "HttpServer_isKeepAlive B to_lower request =
     (case request of
        None \<Rightarrow> False
      | Some req \<Rightarrow> (case bst_find B ''Connection'' (rq_fields req) of
           None \<Rightarrow> True
         | Some v \<Rightarrow> to_lower v \<noteq> ''close''))"

text \<open>The response as \<open>HttpServer::sendResponse\<close> passes it to the session, with \<open>keepAlive\<close>.\<close>

definition HttpServer_sendResponse :: "'f server_env \<Rightarrow> 'f delivery \<Rightarrow> 'f response \<times> bool" where
  "HttpServer_sendResponse env d =
     (let B = se_beast env; cfg = se_config env; response = dl_response d;
          response = response\<lparr>rs_fields := bst_set B ''Server'' (cf_server_name cfg) (rs_fields response)\<rparr>;
          response = (if cf_cors_allow_origin cfg \<noteq> []
            then response\<lparr>rs_fields := bst_set B ''Access-Control-Allow-Origin'' (cf_cors_allow_origin cfg)
                   (rs_fields response)\<rparr>
            else response)
      in (response, HttpServer_isKeepAlive B (se_to_lower env) (dl_request d) \<and> cf_enable_keepalive cfg))"

section \<open>The operations of the server\<close>

definition checkDrainComplete :: "ticks \<Rightarrow> 'f server \<Rightarrow> 'f server" where
  "checkDrainComplete now sv =
     (if sv_draining sv \<and> sv_activeSessions sv = 0 then
        (server_log now ''All sessions finished, stopping I/O'' INFO (sv\<lparr>sv_drainTimer := False\<rparr>))
          \<lparr>sv_stopped := True\<rparr>
      else sv)"

definition HttpServer_endSession :: "ticks \<Rightarrow> nat \<Rightarrow> 'f server \<Rightarrow> 'f server" where
  "HttpServer_endSession now i sv =
     (let sv = sv\<lparr>sv_sessions := removeAll i (sv_sessions sv), sv_activeSessions := sv_activeSessions sv - 1\<rparr>;
          activeAfter = sv_activeSessions sv;
          sv = (if sv_draining sv then checkDrainComplete now sv else sv)
      in server_log now (''Session ended. Active: '' @ nat_to_string (unat activeAfter)) DEBUG sv)"

definition doAccept :: "ticks \<Rightarrow> config \<Rightarrow> 'f server \<Rightarrow> 'f server" where
  "doAccept now cfg sv =
     (if sv_stopped sv \<or> sv_draining sv then sv
      else if sv_activeSessions sv \<ge> cf_max_connections cfg then
        server_log now (''Max connections reached ('' @ nat_to_string (unat (cf_max_connections cfg)) @
            ''), rejecting new connection'') WARNING (sv\<lparr>sv_pending := Some Accept_reject\<rparr>)
      else sv\<lparr>sv_pending := Some Accept_session\<rparr>)"

text \<open>
  The handler of an accept, in two steps: up to its second \<open>doAccept\<close>, which starts the next
  accept, and then \<^term>\<open>insert_session\<close>, where the session is made, counted and started.
\<close>

datatype accept_result = Accept_done | Accept_aborted | Accept_failed string

definition on_accept :: "ticks \<Rightarrow> config \<Rightarrow> accept_result \<Rightarrow> 'f server \<Rightarrow> 'f server" where
  "on_accept now cfg result sv =
     (case result of
        Accept_aborted \<Rightarrow> server_log now ''Accept interrupted by shutdown, exiting...'' INFO sv
      | Accept_failed msg \<Rightarrow> doAccept now cfg (server_log now (''Accept error: '' @ msg) ERROR sv)
      | Accept_done \<Rightarrow> (doAccept now cfg sv)\<lparr>sv_accepting := sv_accepting sv + 1\<rparr>)"

definition getActiveSessions :: "'f server \<Rightarrow> size_t" where
  "getActiveSessions sv = sv_activeSessions sv"

text \<open>\<open>Session::start\<close>: its line in the log, and \<open>doRead\<close> posted to the strand.\<close>

definition Session_start :: "ticks \<Rightarrow> nat \<Rightarrow> 'f server \<Rightarrow> 'f server" where
  "Session_start now i sv =
     update_conn i (\<lambda>c. c\<lparr>cn_start := True\<rparr>)
       (server_log now (''Session started. Active: '' @ nat_to_string (unat (getActiveSessions sv))) DEBUG sv)"

definition insert_session :: "ticks \<Rightarrow> config \<Rightarrow> 'f server \<Rightarrow> 'f server" where
  "insert_session now cfg sv =
     (let i = length (sv_conns sv);
          c = \<lparr>cn_session = Session_new (cf_max_keepalive_requests cfg) (cf_enable_keepalive cfg),
               cn_start = False, cn_reading = None, cn_writing = None, cn_waits = 0, cn_closes = 0,
               cn_open = True\<rparr>;
          sv = sv\<lparr>sv_conns := sv_conns sv @ [c], sv_sessions := List.insert i (sv_sessions sv),
                 sv_activeSessions := sv_activeSessions sv + 1\<rparr>
      in Session_start now i sv)"

lemma insert_session_eq:
  "insert_session now cfg sv =
     (let i = length (sv_conns sv);
          c = \<lparr>cn_session = Session_new (cf_max_keepalive_requests cfg) (cf_enable_keepalive cfg),
               cn_start = True, cn_reading = None, cn_writing = None, cn_waits = 0, cn_closes = 0,
               cn_open = True\<rparr>;
          sv = sv\<lparr>sv_conns := sv_conns sv @ [c], sv_sessions := List.insert i (sv_sessions sv),
                 sv_activeSessions := sv_activeSessions sv + 1\<rparr>
      in server_log now (''Session started. Active: '' @ nat_to_string (unat (sv_activeSessions sv))) DEBUG sv)"
  by (simp add: insert_session_def Session_start_def getActiveSessions_def update_conn_def server_log_def Let_def)

definition on_rejected :: "ticks \<Rightarrow> config \<Rightarrow> 'f server \<Rightarrow> 'f server" where
  "on_rejected now cfg sv = doAccept now cfg sv"

text \<open>\<open>close\<close> on each session of \<open>m_sessions\<close>, which posts to its strand.\<close>

definition close_sessions :: "'f server \<Rightarrow> 'f server" where
  "close_sessions sv = fold (\<lambda>i. update_conn i (\<lambda>c. c\<lparr>cn_closes := cn_closes c + 1\<rparr>)) (sv_sessions sv) sv"

text \<open>
  The handler of the signal, in two steps: up to where it waits for \<open>m_sessionsMutex\<close>, and then
  its \<open>checkDrainComplete\<close>.
\<close>

definition on_signal :: "ticks \<Rightarrow> nat \<Rightarrow> 'f server \<Rightarrow> 'f server" where
  "on_signal now signal sv =
     (server_log now (''Shutdown signal received (SIG '' @ nat_to_string signal @ '')'') INFO sv)
       \<lparr>sv_draining := True, sv_drainTimer := True, sv_checks := sv_checks sv + 1\<rparr>"

definition on_drain_timer :: "ticks \<Rightarrow> 'f server \<Rightarrow> 'f server" where
  "on_drain_timer now sv =
     checkDrainComplete now (close_sessions
       (server_log now ''Drain timeout reached, forcing remaining sessions closed'' WARNING sv))"

section \<open>Effects\<close>

text \<open>The effects of a handler that start no processing.\<close>

fun io_effect :: "ticks \<Rightarrow> nat \<Rightarrow> 'f effect \<Rightarrow> 'f server \<Rightarrow> 'f server" where
  "io_effect now i Arm_timer sv = update_conn i (\<lambda>c. c\<lparr>cn_waits := cn_waits c + 1\<rparr>) sv"
| "io_effect now i Cancel_timer sv = sv"
| "io_effect now i (Async_read limit) sv = update_conn i (\<lambda>c. c\<lparr>cn_reading := Some limit\<rparr>) sv"
| "io_effect now i (Async_write res) sv = update_conn i (\<lambda>c. c\<lparr>cn_writing := Some res\<rparr>) sv"
| "io_effect now i Close_socket sv = update_conn i (\<lambda>c. c\<lparr>cn_open := False\<rparr>) sv"
| "io_effect now i (Process req p) sv = sv"
| "io_effect now i End_session sv = HttpServer_endSession now i sv"
| "io_effect now i (Log msg level) sv = server_log now msg level sv"

text \<open>A delivery: \<open>HttpServer::sendResponse\<close> and then \<open>Session::sendResponse\<close>.\<close>

definition deliver :: "'f server_env \<Rightarrow> ticks \<Rightarrow> 'f delivery \<Rightarrow> 'f server \<Rightarrow> 'f server" where
  "deliver env now d sv =
     (let i = dl_session d;
          (response, keepAlive) = HttpServer_sendResponse env d;
          (s, es) = Session_sendResponse response keepAlive (cn_session (sv_conns sv ! i))
      in fold (io_effect now i) es (update_conn i (\<lambda>c. c\<lparr>cn_session := s\<rparr>) sv))"

text \<open>\<open>m_processor.process\<close>; \<^const>\<open>None\<close> is an exception of a handler, which ends the program.\<close>

definition process_request :: "'f server_env \<Rightarrow> files \<Rightarrow> ticks \<Rightarrow> nat \<Rightarrow> 'f request \<Rightarrow> cint \<Rightarrow>
    'f server \<Rightarrow> 'f server option" where
  "process_request env fs now i req priority sv =
     (case RequestProcessor_process (se_beast env) (se_json env) (HttpServer_handle env fs (sv_pool sv))
        (sv_routes sv) now req priority i (sv_pool sv) of
        None \<Rightarrow> None
      | Some (pool, posted, direct) \<Rightarrow>
          Some (fold (deliver env now) direct (sv\<lparr>sv_pool := pool, sv_posted := sv_posted sv @ posted\<rparr>)))"

fun effect :: "'f server_env \<Rightarrow> files \<Rightarrow> ticks \<Rightarrow> nat \<Rightarrow> 'f effect \<Rightarrow> 'f server \<Rightarrow> 'f server option" where
  "effect env fs now i (Process req priority) sv = process_request env fs now i req priority sv"
| "effect env fs now i e sv = Some (io_effect now i e sv)"

fun effects :: "'f server_env \<Rightarrow> files \<Rightarrow> ticks \<Rightarrow> nat \<Rightarrow> 'f effect list \<Rightarrow> 'f server \<Rightarrow> 'f server option" where
  "effects env fs now i [] sv = Some sv"
| "effects env fs now i (e # es) sv = Option.bind (effect env fs now i e sv) (effects env fs now i es)"

text \<open>A handler of a session that starts no processing.\<close>

definition run_handler :: "ticks \<Rightarrow> nat \<Rightarrow> (session \<Rightarrow> session \<times> 'f effect list) \<Rightarrow> 'f server \<Rightarrow> 'f server" where
  "run_handler now i h sv =
     (let (s, es) = h (cn_session (sv_conns sv ! i))
      in fold (io_effect now i) es (update_conn i (\<lambda>c. c\<lparr>cn_session := s\<rparr>) sv))"

section \<open>The running server\<close>

datatype 'f server_event =
    Sv_accept accept_result | Sv_insert | Sv_rejected
  | Sv_start nat | Sv_read nat "'f read_result" files | Sv_written nat write_result
  | Sv_timer nat bool \<comment> \<open>aborted\<close> | Sv_close nat | Sv_deliver nat
  | Sv_worker_pop nat | Sv_worker_execute nat
  | Sv_signal nat | Sv_drain_check | Sv_drain_timer
  | Sv_log_round \<comment> \<open>of the log consumer\<close>

text \<open>The I/O threads, and with the main thread those that run the I/O context.\<close>

definition io_thread_number :: "config \<Rightarrow> nat" where
  "io_thread_number cfg = unat (if cf_io_threads cfg = 0 then 1 else cf_io_threads cfg)"

definition io_thread_count :: "config \<Rightarrow> nat" where
  "io_thread_count cfg = 1 + io_thread_number cfg"

text \<open>
  The handler an event runs; \<^const>\<open>None\<close> if the event is not possible, or ends the program by an
  exception or a division by zero. Once the context is stopped no new handler starts, but one
  that is running goes on, and so do the workers.
\<close>

definition io_event :: "'f server \<Rightarrow> bool \<Rightarrow> 'f server option \<Rightarrow> 'f server option" where
  "io_event sv possible r = (if \<not> sv_stopped sv \<and> possible then r else None)"

definition conn_event :: "'f server \<Rightarrow> nat \<Rightarrow> ('f conn \<Rightarrow> bool) \<Rightarrow> 'f server option \<Rightarrow> 'f server option" where
  "conn_event sv i possible r = io_event sv (i < length (sv_conns sv) \<and> possible (sv_conns sv ! i)) r"

fun at_pop :: "'a worker_pc \<Rightarrow> bool" where
  "at_pop Popping = True"
| "at_pop _ = False"

definition worker_execute :: "'f server_env \<Rightarrow> ticks \<Rightarrow> nat \<Rightarrow> 'f server \<Rightarrow> 'f server option" where
  "worker_execute env now k sv =
     (case wk_pc (tp_workers (sv_pool sv) ! k) of
        Executing t \<Rightarrow> (case HttpTask_execute (se_beast env) t of
            Inl e \<Rightarrow> None
          | Inr (msg, d) \<Rightarrow>
              (let sv = (case msg of None \<Rightarrow> sv | Some m \<Rightarrow> server_log now m ERROR sv)
               in Some (sv\<lparr>sv_pool := worker_executed k (sv_pool sv), sv_posted := sv_posted sv @ [d]\<rparr>)))
      | _ \<Rightarrow> None)"

fun server_next :: "'f server_env \<Rightarrow> ticks \<Rightarrow> 'f server_event \<Rightarrow> 'f server \<Rightarrow> 'f server option" where
  "server_next env now (Sv_accept result) sv =
     io_event sv (sv_pending sv = Some Accept_session \<and>
         (result = Accept_done \<longrightarrow> sv_accepting sv < io_thread_count (se_config env)))
       (Some (on_accept now (se_config env) result (sv\<lparr>sv_pending := None\<rparr>)))"
| "server_next env now Sv_insert sv =
     (if 0 < sv_accepting sv
      then Some (insert_session now (se_config env) (sv\<lparr>sv_accepting := sv_accepting sv - 1\<rparr>)) else None)"
| "server_next env now Sv_rejected sv =
     io_event sv (sv_pending sv = Some Accept_reject)
       (Some (on_rejected now (se_config env) (sv\<lparr>sv_pending := None\<rparr>)))"
| "server_next env now (Sv_start i) sv =
     conn_event sv i cn_start
       (Some (run_handler now i (Session_doRead (se_config env)) (update_conn i (\<lambda>c. c\<lparr>cn_start := False\<rparr>) sv)))"
| "server_next env now (Sv_read i result fs) sv =
     conn_event sv i (\<lambda>c. cn_reading c \<noteq> None)
       (case Session_onRead (se_beast env) (se_config env) result (sv_nonZeroCounter sv) (cn_session (sv_conns sv ! i)) of
          None \<Rightarrow> None
        | Some (s, counter, es) \<Rightarrow>
            effects env fs now i es
              (update_conn i (\<lambda>c. c\<lparr>cn_reading := None, cn_session := s\<rparr>) (sv\<lparr>sv_nonZeroCounter := counter\<rparr>)))"
| "server_next env now (Sv_written i result) sv =
     conn_event sv i (\<lambda>c. cn_writing c \<noteq> None)
       (Some (run_handler now i (Session_onWrite (se_config env) (sv_draining sv) result)
         (update_conn i (\<lambda>c. c\<lparr>cn_writing := None\<rparr>) sv)))"
| "server_next env now (Sv_timer i aborted) sv =
     conn_event sv i (\<lambda>c. 0 < cn_waits c)
       (Some (run_handler now i (Session_onTimeout aborted)
         (update_conn i (\<lambda>c. c\<lparr>cn_waits := cn_waits c - 1\<rparr>) sv)))"
| "server_next env now (Sv_close i) sv =
     conn_event sv i (\<lambda>c. 0 < cn_closes c)
       (Some (run_handler now i Session_close (update_conn i (\<lambda>c. c\<lparr>cn_closes := cn_closes c - 1\<rparr>) sv)))"
| "server_next env now (Sv_deliver k) sv =
     io_event sv (k < length (sv_posted sv))
       (Some (deliver env now (sv_posted sv ! k)
         (sv\<lparr>sv_posted := take k (sv_posted sv) @ drop (Suc k) (sv_posted sv)\<rparr>)))"
| "server_next env now (Sv_worker_pop k) sv =
     (if k < length (tp_workers (sv_pool sv)) \<and> at_pop (wk_pc (tp_workers (sv_pool sv) ! k))
      then map_option (\<lambda>p. sv\<lparr>sv_pool := p\<rparr>) (worker_pop now k (sv_pool sv)) else None)"
| "server_next env now (Sv_worker_execute k) sv =
     (if k < length (tp_workers (sv_pool sv)) then worker_execute env now k sv else None)"
| "server_next env now (Sv_signal signal) sv =
     io_event sv (sv_signalWait sv) (Some (on_signal now signal (sv\<lparr>sv_signalWait := False\<rparr>)))"
| "server_next env now Sv_drain_check sv =
     (if 0 < sv_checks sv then Some (checkDrainComplete now (sv\<lparr>sv_checks := sv_checks sv - 1\<rparr>)) else None)"
| "server_next env now Sv_drain_timer sv =
     io_event sv (sv_drainTimer sv) (Some (on_drain_timer now (sv\<lparr>sv_drainTimer := False\<rparr>)))"
| "server_next env now Sv_log_round sv =
     (if al_thread (sv_logger sv) = Running
      then map_option (\<lambda>l. sv\<lparr>sv_logger := l\<rparr>) (LogConsumer_round (se_localtime env) (sv_logger sv)) else None)"

section \<open>The start\<close>

text \<open>The constructor; opening the log file may throw.\<close>

definition HttpServer_new :: "'f server_env \<Rightarrow> 'f server result" where
  "HttpServer_new env =
     (let cfg = se_config env in
      map_sum id (\<lambda>sink.
         \<lparr>sv_conns = [], sv_sessions = [], sv_activeSessions = 0, sv_signalWait = False,
          sv_draining = False, sv_stopped = False, sv_drainTimer = False, sv_checks = 0,
          sv_pending = None, sv_accepting = 0, sv_routes = [],
          sv_pool = ThreadPool_new (cf_threads cfg) (cf_max_queue_size cfg), sv_posted = [],
          sv_nonZeroCounter = 0, sv_logger = AsyncLogger_setMinLevel (cf_log_level cfg) (AsyncLogger_new sink),
          sv_ioThreads = 0, sv_shutdownDone = False\<rparr>)
       (if cf_log_file_path cfg = [] then Inr (ConsoleSink [])
        else FileSink_new (se_open_append env) (cf_log_file_path cfg)))"

text \<open>
  \<open>setup\<close> and \<open>startAcceptorLoop\<close>; \<^const>\<open>None\<close> is \<open>std::terminate\<close>, for a thread that is started
  twice.
\<close>

definition HttpServer_setup :: "ticks \<Rightarrow> 'f server_env \<Rightarrow> filesystem \<Rightarrow> 'f server \<Rightarrow> 'f server result option" where
  "HttpServer_setup now env fs sv =
     (let cfg = se_config env in
      case LogConsumer_start (sv_logger sv) of
        None \<Rightarrow> None
      | Some logger \<Rightarrow>
          (let sv = server_log now (''Server starting... Compute: '' @ nat_to_string (unat (cf_threads cfg)) @
                 '' threads, I/O: '' @ nat_to_string (unat (cf_io_threads cfg)) @ '' threads'') INFO
                 (sv\<lparr>sv_logger := logger\<rparr>)
           in case HttpServer_regs cfg fs of
                Inl e \<Rightarrow> Some (Inl e)
              | Inr regs \<Rightarrow> (case ThreadPool_start (sv_pool sv) of
                    None \<Rightarrow> None
                  | Some pool \<Rightarrow> Some (Inr (sv\<lparr>sv_routes := build_routes (se_beast env) regs,
                        sv_pool := pool, sv_signalWait := True\<rparr>)))))"

definition startAcceptorLoop :: "ticks \<Rightarrow> 'f server_env \<Rightarrow> 'f server \<Rightarrow> 'f server result" where
  "startAcceptorLoop now env sv =
     (let cfg = se_config env in
      case se_listen env (cf_bind_address cfg) (cf_port cfg) of
        Some e \<Rightarrow> Inl e
      | None \<Rightarrow> Inr ((doAccept now cfg (server_log now (''Server listening on '' @ cf_bind_address cfg @
          '':'' @ nat_to_string (unat (cf_port cfg))) INFO sv))\<lparr>sv_ioThreads := io_thread_number cfg\<rparr>))"

text \<open>\<open>run\<close> up to \<open>m_ioc.run()\<close>, on a new server.\<close>

definition HttpServer_start :: "ticks \<Rightarrow> 'f server_env \<Rightarrow> filesystem \<Rightarrow> 'f server result option" where
  "HttpServer_start now env fs =
     (case HttpServer_new env of
        Inl e \<Rightarrow> Some (Inl e)
      | Inr sv \<Rightarrow> (case HttpServer_setup now env fs sv of
          None \<Rightarrow> None
        | Some (Inl e) \<Rightarrow> Some (Inl e)
        | Some (Inr sv) \<Rightarrow> Some (startAcceptorLoop now env sv)))"

section \<open>Runs\<close>

inductive server_reach :: "'f server_env \<Rightarrow> 'f server \<Rightarrow> bool" for env where
  init: "HttpServer_start now env fs = Some (Inr sv) \<Longrightarrow> server_reach env sv"
| step: "server_reach env sv \<Longrightarrow> server_next env now ev sv = Some sv' \<Longrightarrow> server_reach env sv'"

fun server_trace :: "'f server_env \<Rightarrow> ticks \<Rightarrow> 'f server_event list \<Rightarrow> 'f server \<Rightarrow> 'f server option" where
  "server_trace env now [] sv = Some sv"
| "server_trace env now (ev # evs) sv = Option.bind (server_next env now ev sv) (server_trace env now evs)"

lemma server_trace_reach: "server_reach env sv \<Longrightarrow> server_trace env now evs sv = Some sv' \<Longrightarrow> server_reach env sv'"
proof (induction evs arbitrary: sv)
  case (Cons ev evs)
  then obtain sv1 where "server_next env now ev sv = Some sv1" "server_trace env now evs sv1 = Some sv'"
    by (auto simp: Option.bind_eq_Some_conv)
  then show ?case using Cons.IH server_reach.step [OF Cons.prems(1)] by blast
qed simp

section \<open>What the operations leave alone\<close>

lemmas [simp] = on_rejected_def

lemma at_pop_iff: "at_pop pc \<longleftrightarrow> pc = Popping"
  by (cases pc) simp_all

lemma server_log_simps [simp]:
  "sv_conns (server_log now m l sv) = sv_conns sv" "sv_sessions (server_log now m l sv) = sv_sessions sv"
  "sv_activeSessions (server_log now m l sv) = sv_activeSessions sv"
  "sv_draining (server_log now m l sv) = sv_draining sv" "sv_stopped (server_log now m l sv) = sv_stopped sv"
  "sv_checks (server_log now m l sv) = sv_checks sv" "sv_pending (server_log now m l sv) = sv_pending sv"
  "sv_accepting (server_log now m l sv) = sv_accepting sv" "sv_pool (server_log now m l sv) = sv_pool sv"
  "sv_posted (server_log now m l sv) = sv_posted sv"
  by (simp_all add: server_log_def)

lemma update_conn_simps [simp]:
  "sv_sessions (update_conn i f sv) = sv_sessions sv" "sv_activeSessions (update_conn i f sv) = sv_activeSessions sv"
  "sv_draining (update_conn i f sv) = sv_draining sv" "sv_stopped (update_conn i f sv) = sv_stopped sv"
  "sv_checks (update_conn i f sv) = sv_checks sv" "sv_pending (update_conn i f sv) = sv_pending sv"
  "sv_accepting (update_conn i f sv) = sv_accepting sv" "sv_pool (update_conn i f sv) = sv_pool sv"
  "sv_posted (update_conn i f sv) = sv_posted sv"
  "length (sv_conns (update_conn i f sv)) = length (sv_conns sv)"
  "i < length (sv_conns sv) \<Longrightarrow> sv_conns (update_conn i f sv) ! j = (if i = j then f (sv_conns sv ! i) else sv_conns sv ! j)"
  by (simp_all add: update_conn_def)

lemma checkDrainComplete_simps [simp]:
  "sv_conns (checkDrainComplete now sv) = sv_conns sv" "sv_sessions (checkDrainComplete now sv) = sv_sessions sv"
  "sv_activeSessions (checkDrainComplete now sv) = sv_activeSessions sv"
  "sv_draining (checkDrainComplete now sv) = sv_draining sv"
  "sv_stopped (checkDrainComplete now sv) \<longleftrightarrow> sv_stopped sv \<or> sv_draining sv \<and> sv_activeSessions sv = 0"
  "sv_checks (checkDrainComplete now sv) = sv_checks sv" "sv_pending (checkDrainComplete now sv) = sv_pending sv"
  "sv_accepting (checkDrainComplete now sv) = sv_accepting sv" "sv_pool (checkDrainComplete now sv) = sv_pool sv"
  "sv_posted (checkDrainComplete now sv) = sv_posted sv"
  by (auto simp: checkDrainComplete_def)

lemma endSession_simps [simp]:
  "sv_conns (HttpServer_endSession now i sv) = sv_conns sv"
  "sv_sessions (HttpServer_endSession now i sv) = removeAll i (sv_sessions sv)"
  "sv_activeSessions (HttpServer_endSession now i sv) = sv_activeSessions sv - 1"
  "sv_draining (HttpServer_endSession now i sv) = sv_draining sv"
  "sv_stopped (HttpServer_endSession now i sv) \<longleftrightarrow> sv_stopped sv \<or> sv_draining sv \<and> sv_activeSessions sv - 1 = 0"
  "sv_checks (HttpServer_endSession now i sv) = sv_checks sv"
  "sv_pending (HttpServer_endSession now i sv) = sv_pending sv"
  "sv_accepting (HttpServer_endSession now i sv) = sv_accepting sv"
  "sv_pool (HttpServer_endSession now i sv) = sv_pool sv" "sv_posted (HttpServer_endSession now i sv) = sv_posted sv"
  by (auto simp: HttpServer_endSession_def Let_def)

lemma doAccept_simps [simp]:
  "sv_conns (doAccept now cfg sv) = sv_conns sv" "sv_sessions (doAccept now cfg sv) = sv_sessions sv"
  "sv_activeSessions (doAccept now cfg sv) = sv_activeSessions sv" "sv_draining (doAccept now cfg sv) = sv_draining sv"
  "sv_stopped (doAccept now cfg sv) = sv_stopped sv" "sv_checks (doAccept now cfg sv) = sv_checks sv"
  "sv_accepting (doAccept now cfg sv) = sv_accepting sv" "sv_pool (doAccept now cfg sv) = sv_pool sv"
  "sv_posted (doAccept now cfg sv) = sv_posted sv"
  by (simp_all add: doAccept_def)

lemma io_effect_simps [simp]:
  "length (sv_conns (io_effect now i e sv)) = length (sv_conns sv)"
  "sv_sessions (io_effect now i e sv) = (if e = End_session then removeAll i (sv_sessions sv) else sv_sessions sv)"
  "sv_activeSessions (io_effect now i e sv) =
    (if e = End_session then sv_activeSessions sv - 1 else sv_activeSessions sv)"
  "sv_draining (io_effect now i e sv) = sv_draining sv" "sv_checks (io_effect now i e sv) = sv_checks sv"
  "sv_pending (io_effect now i e sv) = sv_pending sv" "sv_accepting (io_effect now i e sv) = sv_accepting sv"
  "sv_pool (io_effect now i e sv) = sv_pool sv" "sv_posted (io_effect now i e sv) = sv_posted sv"
  by (cases e; simp)+

abbreviation io_effects :: "ticks \<Rightarrow> nat \<Rightarrow> 'f effect list \<Rightarrow> 'f server \<Rightarrow> 'f server" where
  "io_effects now i es \<equiv> fold (io_effect now i) es"

lemma io_effects_simps [simp]:
  "length (sv_conns (io_effects now i es sv)) = length (sv_conns sv)"
  "sv_draining (io_effects now i es sv) = sv_draining sv" "sv_checks (io_effects now i es sv) = sv_checks sv"
  "sv_pending (io_effects now i es sv) = sv_pending sv" "sv_accepting (io_effects now i es sv) = sv_accepting sv"
  "sv_pool (io_effects now i es sv) = sv_pool sv" "sv_posted (io_effects now i es sv) = sv_posted sv"
  by (induction es arbitrary: sv) simp_all

lemma io_effects_sessions:
  "sv_sessions (io_effects now i es sv) = (if ends es = 0 then sv_sessions sv else removeAll i (sv_sessions sv))"
  "sv_activeSessions (io_effects now i es sv) = sv_activeSessions sv - of_nat (ends es)"
  by (induction es arbitrary: sv) (simp_all add: ends_def)

text \<open>The connection of an effect, and the others.\<close>

lemma io_effect_conn:
  assumes "i < length (sv_conns sv)"
  shows "cn_session (sv_conns (io_effect now i e sv) ! j) = cn_session (sv_conns sv ! j)"
    and "cn_start (sv_conns (io_effect now i e sv) ! j) = cn_start (sv_conns sv ! j)"
    and "j \<noteq> i \<Longrightarrow> sv_conns (io_effect now i e sv) ! j = sv_conns sv ! j"
  using assms by (cases e; simp)+

lemma io_effects_conn:
  assumes "i < length (sv_conns sv)"
  shows "cn_session (sv_conns (io_effects now i es sv) ! j) = cn_session (sv_conns sv ! j)"
    and "cn_start (sv_conns (io_effects now i es sv) ! j) = cn_start (sv_conns sv ! j)"
    and "j \<noteq> i \<Longrightarrow> sv_conns (io_effects now i es sv) ! j = sv_conns sv ! j"
  using assms by (induction es arbitrary: sv) (simp_all add: io_effect_conn)

text \<open>The composed operations.\<close>

lemma close_all_simps:
  "sv_accepting (fold (\<lambda>i. update_conn i (f i)) is sv) = sv_accepting sv"
  "sv_pending (fold (\<lambda>i. update_conn i (f i)) is sv) = sv_pending sv"
  "sv_sessions (fold (\<lambda>i. update_conn i (f i)) is sv) = sv_sessions sv"
  "sv_activeSessions (fold (\<lambda>i. update_conn i (f i)) is sv) = sv_activeSessions sv"
  "sv_draining (fold (\<lambda>i. update_conn i (f i)) is sv) = sv_draining sv"
  "sv_stopped (fold (\<lambda>i. update_conn i (f i)) is sv) = sv_stopped sv"
  "sv_checks (fold (\<lambda>i. update_conn i (f i)) is sv) = sv_checks sv"
  "sv_pool (fold (\<lambda>i. update_conn i (f i)) is sv) = sv_pool sv"
  "sv_posted (fold (\<lambda>i. update_conn i (f i)) is sv) = sv_posted sv"
  "length (sv_conns (fold (\<lambda>i. update_conn i (f i)) is sv)) = length (sv_conns sv)"
  by (induction "is" arbitrary: sv) simp_all

lemma close_sessions_simps [simp]:
  "sv_accepting (close_sessions sv) = sv_accepting sv" "sv_pending (close_sessions sv) = sv_pending sv"
  "sv_sessions (close_sessions sv) = sv_sessions sv" "sv_activeSessions (close_sessions sv) = sv_activeSessions sv"
  "sv_draining (close_sessions sv) = sv_draining sv" "sv_stopped (close_sessions sv) = sv_stopped sv"
  "sv_checks (close_sessions sv) = sv_checks sv" "sv_pool (close_sessions sv) = sv_pool sv"
  "sv_posted (close_sessions sv) = sv_posted sv" "length (sv_conns (close_sessions sv)) = length (sv_conns sv)"
  by (simp_all add: close_sessions_def close_all_simps)

text \<open>Closing the sessions changes nothing in a connection but the number of posted closes.\<close>

lemma close_sessions_conn:
  "\<exists>n. sv_conns (close_sessions sv) ! j = (sv_conns sv ! j)\<lparr>cn_closes := n\<rparr>"
proof -
  have "\<exists>n. sv_conns (fold (\<lambda>i. update_conn i (\<lambda>c. c\<lparr>cn_closes := cn_closes c + 1\<rparr>)) is sv) ! j =
      (sv_conns sv ! j)\<lparr>cn_closes := n\<rparr>" for "is"
  proof (induction "is" arbitrary: sv)
    case Nil
    show ?case by (intro exI [of _ "cn_closes (sv_conns sv ! j)"]) simp
  next
    case (Cons i "is")
    let ?sv = "update_conn i (\<lambda>c. c\<lparr>cn_closes := cn_closes c + 1\<rparr>) sv"
    have "\<exists>n. sv_conns ?sv ! j = (sv_conns sv ! j)\<lparr>cn_closes := n\<rparr>"
    proof (cases "i < length (sv_conns sv)")
      case True
      then have "sv_conns ?sv ! j = (sv_conns sv ! j)\<lparr>cn_closes := cn_closes (sv_conns sv ! j) + (if i = j then 1 else 0)\<rparr>"
        by simp
      then show ?thesis by blast
    next
      case False
      then have "sv_conns ?sv ! j = (sv_conns sv ! j)\<lparr>cn_closes := cn_closes (sv_conns sv ! j)\<rparr>"
        by (simp add: update_conn_def list_update_beyond)
      then show ?thesis by blast
    qed
    then obtain m where "sv_conns ?sv ! j = (sv_conns sv ! j)\<lparr>cn_closes := m\<rparr>" by blast
    moreover obtain n where "sv_conns (fold (\<lambda>i. update_conn i (\<lambda>c. c\<lparr>cn_closes := cn_closes c + 1\<rparr>)) is ?sv) ! j =
        (sv_conns ?sv ! j)\<lparr>cn_closes := n\<rparr>"
      using Cons.IH by blast
    ultimately show ?case by (auto intro: exI [of _ n])
  qed
  then show ?thesis by (simp add: close_sessions_def)
qed

lemma insert_session_simps [simp]:
  "sv_conns (insert_session now cfg sv) = sv_conns sv @
    [\<lparr>cn_session = Session_new (cf_max_keepalive_requests cfg) (cf_enable_keepalive cfg), cn_start = True,
      cn_reading = None, cn_writing = None, cn_waits = 0, cn_closes = 0, cn_open = True\<rparr>]"
  "sv_sessions (insert_session now cfg sv) = List.insert (length (sv_conns sv)) (sv_sessions sv)"
  "sv_activeSessions (insert_session now cfg sv) = sv_activeSessions sv + 1"
  "sv_draining (insert_session now cfg sv) = sv_draining sv" "sv_stopped (insert_session now cfg sv) = sv_stopped sv"
  "sv_checks (insert_session now cfg sv) = sv_checks sv" "sv_pending (insert_session now cfg sv) = sv_pending sv"
  "sv_accepting (insert_session now cfg sv) = sv_accepting sv" "sv_pool (insert_session now cfg sv) = sv_pool sv"
  "sv_posted (insert_session now cfg sv) = sv_posted sv"
  by (simp_all add: insert_session_eq Let_def)

section \<open>Steps\<close>

lemma deliver_run_handler:
  "deliver env now d sv = run_handler now (dl_session d)
    (Session_sendResponse (fst (HttpServer_sendResponse env d)) (snd (HttpServer_sendResponse env d))) sv"
  by (simp add: deliver_def run_handler_def Let_def case_prod_beta)

text \<open>A delivery for a session that does not exist would change no connection.\<close>

lemma run_sendResponse_beyond:
  assumes "\<not> i < length (sv_conns sv)"
  shows "run_handler now i (Session_sendResponse res ka) sv = sv"
  using assms by (simp add: run_handler_def Session_sendResponse_def update_conn_def list_update_beyond)

lemma effects_io: "\<forall>e \<in> set es. \<not> is_process e \<Longrightarrow> effects env fs now i es sv = Some (io_effects now i es sv)"
proof (induction es arbitrary: sv)
  case (Cons e es)
  then have "effect env fs now i e sv = Some (io_effect now i e sv)" by (cases e) simp_all
  then show ?case using Cons by simp
qed simp

lemma effects_append:
  "effects env fs now i (xs @ ys) sv = Option.bind (effects env fs now i xs sv) (effects env fs now i ys)"
proof (induction xs arbitrary: sv)
  case (Cons e xs)
  then show ?case by (cases "effect env fs now i e sv") simp_all
qed simp

lemma quiet_effects:
  assumes "\<forall>e \<in> set es. is_quiet e"
  shows "sv_conns (io_effects now i es sv) = sv_conns sv" and "sv_sessions (io_effects now i es sv) = sv_sessions sv"
    and "sv_activeSessions (io_effects now i es sv) = sv_activeSessions sv"
    and "sv_stopped (io_effects now i es sv) = sv_stopped sv"
proof -
  have "sv_conns (io_effect now i e sv) = sv_conns sv \<and> sv_sessions (io_effect now i e sv) = sv_sessions sv \<and>
      sv_activeSessions (io_effect now i e sv) = sv_activeSessions sv \<and>
      sv_stopped (io_effect now i e sv) = sv_stopped sv" if "is_quiet e" for e and sv :: "'a server"
    using that by (cases e) simp_all
  then show "sv_conns (io_effects now i es sv) = sv_conns sv" "sv_sessions (io_effects now i es sv) = sv_sessions sv"
    "sv_activeSessions (io_effects now i es sv) = sv_activeSessions sv"
    "sv_stopped (io_effects now i es sv) = sv_stopped sv"
    using assms by (induction es arbitrary: sv) simp_all
qed

text \<open>What a read event does: only effects of the session, or the processing of a request.\<close>

lemma read_event_cases:
  assumes "server_next env now (Sv_read i result fs) sv = Some sv'"
  obtains (no_request) s es n where "i < length (sv_conns sv)" "cn_reading (sv_conns sv ! i) \<noteq> None"
      "handler_ok (cn_session (sv_conns sv ! i)) (s, es)" "\<forall>limit. Async_read limit \<notin> set es"
      "closed_ended (cn_session (sv_conns sv ! i)) \<Longrightarrow> started es \<le> 1 \<and> (started es = 1 \<or> ss_ended s)"
      "\<forall>e \<in> set es. \<not> is_process e"
      "sv' = io_effects now i es (update_conn i (\<lambda>c. c\<lparr>cn_reading := None, cn_session := s\<rparr>)
        (sv\<lparr>sv_nonZeroCounter := n\<rparr>))"
      "Session_onRead (se_beast env) (se_config env) result (sv_nonZeroCounter sv) (cn_session (sv_conns sv ! i)) =
        Some (s, n, es)"
    | (a_request) req priority quiet n where "i < length (sv_conns sv)" "cn_reading (sv_conns sv ! i) \<noteq> None"
      "result = Read_request req" "\<forall>e \<in> set quiet. is_quiet e"
      "process_request env fs now i req priority (io_effects now i quiet (update_conn i
        (\<lambda>c. c\<lparr>cn_reading := None, cn_session := (cn_session (sv_conns sv ! i))\<lparr>ss_requestCount :=
            ss_requestCount (cn_session (sv_conns sv ! i)) + 1\<rparr>\<rparr>) (sv\<lparr>sv_nonZeroCounter := n\<rparr>))) = Some sv'"
proof -
  have i: "i < length (sv_conns sv)" "cn_reading (sv_conns sv ! i) \<noteq> None"
    using assms by (auto simp: conn_event_def io_event_def split: if_splits)
  obtain s n es where run: "Session_onRead (se_beast env) (se_config env) result (sv_nonZeroCounter sv)
        (cn_session (sv_conns sv ! i)) = Some (s, n, es)"
    and eff: "effects env fs now i es (update_conn i (\<lambda>c. c\<lparr>cn_reading := None, cn_session := s\<rparr>)
        (sv\<lparr>sv_nonZeroCounter := n\<rparr>)) = Some sv'"
    using assms by (auto simp: conn_event_def io_event_def split: if_splits option.splits)
  from run show thesis
  proof (cases rule: onRead_cases)
    case no_request
    then show thesis using i eff run by (intro that(1) [of s es n]) (simp_all add: effects_io)
  next
    case (a_request req priority quiet)
    then show thesis
      using i eff quiet_no_process [OF a_request(3)]
      by (intro that(2) [of req quiet priority n]) (auto simp: effects_append effects_io Option.bind_eq_Some_conv)
  qed
qed

lemma process_request_cases:
  assumes "process_request env fs now i req priority sv = Some sv'"
  obtains pool posted direct where
    "RequestProcessor_process (se_beast env) (se_json env) (HttpServer_handle env fs (sv_pool sv))
        (sv_routes sv) now req priority i (sv_pool sv) = Some (pool, posted, direct)"
    "sv' = fold (deliver env now) direct (sv\<lparr>sv_pool := pool, sv_posted := sv_posted sv @ posted\<rparr>)"
  using assms by (auto simp: process_request_def split: option.splits)

text \<open>The handler of a completed operation of a session, and an event that runs it.\<close>

lemma conn_event_cases:
  assumes "conn_event sv i possible (Some (run_handler now i h (update_conn i f sv))) = Some sv'"
  obtains "i < length (sv_conns sv)" "possible (sv_conns sv ! i)" "\<not> sv_stopped sv"
    "sv' = run_handler now i h (update_conn i f sv)"
  using assms by (auto simp: conn_event_def io_event_def split: if_splits)

lemma new_fields:
  assumes "HttpServer_new env = Inr sv"
  shows "sv_conns sv = []" "sv_sessions sv = []" "sv_activeSessions sv = 0" "sv_posted sv = []"
    "sv_accepting sv = 0" "\<not> sv_draining sv" "\<not> sv_stopped sv" "sv_checks sv = 0" "sv_pending sv = None"
    "sv_pool sv = ThreadPool_new (cf_threads (se_config env)) (cf_max_queue_size (se_config env))"
    "al_thread (sv_logger sv) = No_Thread" "\<not> sv_shutdownDone sv"
  using assms by (auto simp: HttpServer_new_def Let_def map_sum_def AsyncLogger_new_def
      AsyncLogger_setMinLevel_def split: sum.splits)

lemma setup_cases:
  assumes "HttpServer_setup now env fs sv = Some (Inr sv')"
  obtains logger m regs pool where "LogConsumer_start (sv_logger sv) = Some logger"
    "HttpServer_regs (se_config env) fs = Inr regs" "ThreadPool_start (sv_pool sv) = Some pool"
    "sv' = (server_log now m INFO (sv\<lparr>sv_logger := logger\<rparr>))
      \<lparr>sv_routes := build_routes (se_beast env) regs, sv_pool := pool, sv_signalWait := True\<rparr>"
  using assms by (auto simp: HttpServer_setup_def Let_def split: option.splits sum.splits)

lemma start_cases:
  assumes "HttpServer_start now env fs = Some (Inr sv)"
  obtains sv0 logger m m' regs pool where "HttpServer_new env = Inr sv0"
    "LogConsumer_start (sv_logger sv0) = Some logger"
    "HttpServer_regs (se_config env) fs = Inr regs" "ThreadPool_start (sv_pool sv0) = Some pool"
    "sv = (doAccept now (se_config env) (server_log now m INFO ((server_log now m' INFO (sv0\<lparr>sv_logger := logger\<rparr>))
      \<lparr>sv_routes := build_routes (se_beast env) regs, sv_pool := pool, sv_signalWait := True\<rparr>)))
      \<lparr>sv_ioThreads := io_thread_number (se_config env)\<rparr>"
proof -
  obtain sv0 sv1 where new: "HttpServer_new env = Inr sv0" and ready: "HttpServer_setup now env fs sv0 = Some (Inr sv1)"
    and loop: "startAcceptorLoop now env sv1 = Inr sv"
    using assms by (auto simp: HttpServer_start_def split: sum.splits option.splits)
  from loop obtain m where "sv = (doAccept now (se_config env) (server_log now m INFO sv1))
      \<lparr>sv_ioThreads := io_thread_number (se_config env)\<rparr>"
    by (auto simp: startAcceptorLoop_def Let_def split: option.splits)
  with setup_cases [OF ready] new that show thesis by metis
qed

lemma start_fields:
  assumes "HttpServer_start now env fs = Some (Inr sv)"
  shows "sv_conns sv = []" "sv_sessions sv = []" "sv_activeSessions sv = 0" "sv_posted sv = []"
    "sv_accepting sv = 0" "sv_draining sv = False" "sv_stopped sv = False" "sv_checks sv = 0"
    "sv_pending sv = (if cf_max_connections (se_config env) \<le> 0 then Some Accept_reject else Some Accept_session)"
    "ThreadPool_start (ThreadPool_new (cf_threads (se_config env)) (cf_max_queue_size (se_config env))) = Some (sv_pool sv)"
proof -
  from assms obtain sv0 logger m m' regs pool where sv0: "HttpServer_new env = Inr sv0"
    and pool: "ThreadPool_start (sv_pool sv0) = Some pool"
    and sv: "sv = (doAccept now (se_config env) (server_log now m INFO ((server_log now m' INFO (sv0\<lparr>sv_logger := logger\<rparr>))
      \<lparr>sv_routes := build_routes (se_beast env) regs, sv_pool := pool, sv_signalWait := True\<rparr>)))
      \<lparr>sv_ioThreads := io_thread_number (se_config env)\<rparr>"
    by (rule start_cases)
  note fields = new_fields [OF sv0]
  show "sv_conns sv = []" "sv_sessions sv = []" "sv_activeSessions sv = 0" "sv_posted sv = []"
    "sv_accepting sv = 0" "sv_draining sv = False" "sv_stopped sv = False" "sv_checks sv = 0"
    using fields by (simp_all add: sv)
  show "sv_pending sv = (if cf_max_connections (se_config env) \<le> 0 then Some Accept_reject else Some Accept_session)"
    using fields by (simp add: sv doAccept_def)
  show "ThreadPool_start (ThreadPool_new (cf_threads (se_config env)) (cf_max_queue_size (se_config env))) = Some (sv_pool sv)"
    using fields pool by (simp add: sv)
qed

section \<open>Invariants\<close>

locale server_invariant =
  fixes env :: "'f server_env" and I :: "'f server \<Rightarrow> bool"
  assumes start: "HttpServer_start now env fs = Some (Inr sv) \<Longrightarrow> I sv"
    and step: "server_reach env sv \<Longrightarrow> I sv \<Longrightarrow> server_next env now ev sv = Some sv' \<Longrightarrow> I sv'"
begin

lemma holds: "server_reach env sv \<Longrightarrow> I sv"
  by (induction rule: server_reach.induct) (rule start step, assumption+)+

end

end
