(* ===== verification/Server_Example.thy ===== *)
theory Server_Example
  imports Server
begin

text \<open>
  A server with concrete libraries and a concrete file system, and runs of it from the start: the
  instances at which the properties of the server are applied.
\<close>

definition example_config :: config where
  "example_config = (Config_default 2)\<lparr>cf_static_root := ''www'', cf_port := 80, cf_io_threads := 1, cf_max_connections := 1,
     cf_max_queue_size := 2, cf_log_level := ERROR\<rparr>"

definition example_server_env :: "config \<Rightarrow> (string \<times> string) list server_env" where
  "example_server_env cfg = \<lparr>se_beast = example_beast, se_json = example_json, se_to_lower = map ascii_lower,
     se_config = cfg, se_listen = (\<lambda>address port. None), se_open_append = (\<lambda>path. None),
     se_localtime = (\<lambda>t. \<lparr>tm_year = 126, tm_mon = 0, tm_mday = 2, tm_hour = 3, tm_min = 4, tm_sec = 5\<rparr>)\<rparr>"

definition example_run :: "config \<Rightarrow> (string \<times> string) list server_event list \<Rightarrow>
    (string \<times> string) list server option" where
  "example_run cfg evs =
     (case HttpServer_start 0 (example_server_env cfg) example_fs of
        Some (Inr sv) \<Rightarrow> server_trace (example_server_env cfg) 0 evs sv
      | _ \<Rightarrow> None)"

lemma example_run_reach: "example_run cfg evs = Some sv \<Longrightarrow> server_reach (example_server_env cfg) sv"
  by (auto simp: example_run_def intro: server_trace_reach server_reach.init split: option.splits sum.splits)

end
