(* ===== verification/Server_Protocol.thy ===== *)
theory Server_Protocol
  imports Server_Example
begin

text \<open>
  The order of operations on a connection. What is outstanding for a session, wherever it is (its
  start, a read, a task in the pool, a posted delivery, a write), is a token; the handlers pass it
  on, and every session that has not ended holds exactly one.
\<close>

section \<open>The tokens of a session\<close>

definition conn_ops :: "'f conn \<Rightarrow> nat" where
  "conn_ops c = of_bool (cn_start c) + of_bool (cn_reading c \<noteq> None) + of_bool (cn_writing c \<noteq> None)"

definition pool_tasks :: "'a thread_pool \<Rightarrow> 'a multiset" where
  "pool_tasks p = running_tasks p + tq_items (tp_queue p)"

text \<open>The session a task answers.\<close>

definition task_session :: "'f beast \<Rightarrow> 'f http_task \<Rightarrow> nat" where
  "task_session B t = (case ht_doneCallBack t (Response_new B) of Inr d \<Rightarrow> dl_session d | Inl e \<Rightarrow> 0)"

definition elsewhere :: "'f server_env \<Rightarrow> 'f server \<Rightarrow> nat \<Rightarrow> nat" where
  "elsewhere env sv i =
     size (filter_mset (\<lambda>t. task_session (se_beast env) t = i) (pool_tasks (sv_pool sv))) +
     length (filter (\<lambda>d. dl_session d = i) (sv_posted sv))"

definition outstanding :: "'f server_env \<Rightarrow> 'f server \<Rightarrow> nat \<Rightarrow> nat" where
  "outstanding env sv i = conn_ops (sv_conns sv ! i) + elsewhere env sv i"

definition one_token :: "'f server_env \<Rightarrow> 'f server \<Rightarrow> nat \<Rightarrow> bool" where
  "one_token env sv i \<longleftrightarrow> outstanding env sv i \<le> 1 \<and>
     (outstanding env sv i = 1 \<or> ss_ended (cn_session (sv_conns sv ! i))) \<and>
     closed_ended (cn_session (sv_conns sv ! i))"

text \<open>Tasks and deliveries are for sessions that exist.\<close>

definition addressed :: "'f server_env \<Rightarrow> 'f server \<Rightarrow> bool" where
  "addressed env sv \<longleftrightarrow> tq_inv (tp_queue (sv_pool sv)) \<and>
     (\<forall>t \<in># pool_tasks (sv_pool sv). \<exists>req i. i < length (sv_conns sv) \<and>
        t = compute_task (se_beast env) (se_json env) req i) \<and>
     (\<forall>d \<in> set (sv_posted sv). dl_session d < length (sv_conns sv))"

definition protocol :: "'f server_env \<Rightarrow> 'f server \<Rightarrow> bool" where
  "protocol env sv \<longleftrightarrow> addressed env sv \<and> (\<forall>i < length (sv_conns sv). one_token env sv i)"

text \<open>The token of session \<open>i\<close> is in the hands of the running handler.\<close>

definition in_hand :: "'f server_env \<Rightarrow> 'f server \<Rightarrow> nat \<Rightarrow> bool" where
  "in_hand env sv i \<longleftrightarrow> addressed env sv \<and> i < length (sv_conns sv) \<and> outstanding env sv i = 0 \<and>
     closed_ended (cn_session (sv_conns sv ! i)) \<and>
     (\<forall>j < length (sv_conns sv). j \<noteq> i \<longrightarrow> one_token env sv j)"

lemma elsewhere_cong:
  "sv_pool sv' = sv_pool sv \<Longrightarrow> sv_posted sv' = sv_posted sv \<Longrightarrow> elsewhere env sv' i = elsewhere env sv i"
  by (simp add: elsewhere_def)

lemma outstanding_cong:
  "sv_pool sv' = sv_pool sv \<Longrightarrow> sv_posted sv' = sv_posted sv \<Longrightarrow>
    conn_ops (sv_conns sv' ! i) = conn_ops (sv_conns sv ! i) \<Longrightarrow> outstanding env sv' i = outstanding env sv i"
  by (simp add: outstanding_def elsewhere_def)

lemma addressed_cong:
  assumes "addressed env sv" and "sv_pool sv' = sv_pool sv" and "sv_posted sv' = sv_posted sv"
    and "length (sv_conns sv) \<le> length (sv_conns sv')"
  shows "addressed env sv'"
  using assms less_le_trans unfolding addressed_def by metis

lemma one_token_cong:
  "one_token env sv i \<Longrightarrow> sv_pool sv' = sv_pool sv \<Longrightarrow> sv_posted sv' = sv_posted sv \<Longrightarrow>
    conn_ops (sv_conns sv' ! i) = conn_ops (sv_conns sv ! i) \<Longrightarrow>
    cn_session (sv_conns sv' ! i) = cn_session (sv_conns sv ! i) \<Longrightarrow> one_token env sv' i"
  using outstanding_cong [of sv' sv i env] by (simp add: one_token_def)

lemma protocol_cong:
  assumes "protocol env sv" and "sv_pool sv' = sv_pool sv" and "sv_posted sv' = sv_posted sv"
    and "length (sv_conns sv') = length (sv_conns sv)"
    and "\<And>i. i < length (sv_conns sv) \<Longrightarrow> conn_ops (sv_conns sv' ! i) = conn_ops (sv_conns sv ! i) \<and>
      cn_session (sv_conns sv' ! i) = cn_session (sv_conns sv ! i)"
  shows "protocol env sv'"
  using assms one_token_cong addressed_cong order_eq_refl unfolding protocol_def by metis

section \<open>The effects of a handler\<close>

lemma io_effect_ops:
  assumes "i < length (sv_conns sv)" and "\<not> is_process e" and "conn_ops (sv_conns sv ! i) + starts e \<le> 1"
  shows "conn_ops (sv_conns (io_effect now i e sv) ! i) = conn_ops (sv_conns sv ! i) + starts e"
  using assms by (cases e) (simp_all add: conn_ops_def)

lemma io_effects_ops:
  assumes "i < length (sv_conns sv)" and "\<forall>e \<in> set es. \<not> is_process e"
    and "conn_ops (sv_conns sv ! i) + started es \<le> 1"
  shows "conn_ops (sv_conns (io_effects now i es sv) ! i) = conn_ops (sv_conns sv ! i) + started es"
  using assms
proof (induction es arbitrary: sv)
  case (Cons e es)
  have "conn_ops (sv_conns (io_effect now i e sv) ! i) = conn_ops (sv_conns sv ! i) + starts e"
    using Cons.prems by (intro io_effect_ops) (simp_all add: started_def)
  then show ?case
    using Cons.IH [of "io_effect now i e sv"] Cons.prems by (simp add: started_def)
qed (simp add: started_def)

text \<open>A handler that holds the token of its session passes it on, or ends the session.\<close>

lemma passes_on:
  assumes "in_hand env sv i" and "handler_ok (cn_session (sv_conns sv ! i)) (s, es)"
    and "\<forall>e \<in> set es. \<not> is_process e" and "started es \<le> 1" and "started es = 1 \<or> ss_ended s"
  shows "protocol env (io_effects now i es (update_conn i (\<lambda>c. c\<lparr>cn_session := s\<rparr>) sv))"
proof -
  let ?sv = "update_conn i (\<lambda>c. c\<lparr>cn_session := s\<rparr>) sv"
  let ?after = "io_effects now i es ?sv"
  have i: "i < length (sv_conns sv)" "i < length (sv_conns ?sv)" using assms(1) by (simp_all add: in_hand_def)
  have none: "conn_ops (sv_conns sv ! i) = 0" "elsewhere env sv i = 0"
    using assms(1) by (simp_all add: in_hand_def outstanding_def)
  have "conn_ops (sv_conns ?after ! i) = conn_ops (sv_conns ?sv ! i) + started es"
    using assms(3,4) i none by (intro io_effects_ops) (simp_all add: conn_ops_def)
  then have ops: "conn_ops (sv_conns ?after ! i) = started es"
    using none i by (simp add: conn_ops_def)
  have "elsewhere env ?after i = 0" using none by (simp add: elsewhere_cong [of ?after sv])
  moreover have session: "cn_session (sv_conns ?after ! i) = s" using i by (simp add: io_effects_conn(1))
  moreover have "closed_ended s" using assms(1) handler_okD(5) [OF assms(2)] by (simp add: in_hand_def)
  ultimately have here: "one_token env ?after i"
    using ops assms(4,5) by (simp add: one_token_def outstanding_def)
  have "one_token env ?after j" if "j < length (sv_conns sv)" "j \<noteq> i" for j
  proof -
    have "sv_conns ?after ! j = sv_conns sv ! j" using that i by (simp add: io_effects_conn(3))
    then show ?thesis using that assms(1) by - (rule one_token_cong [of env sv], simp_all add: in_hand_def)
  qed
  moreover have "addressed env ?after"
    using assms(1) by - (rule addressed_cong [of env sv], simp_all add: in_hand_def)
  ultimately show ?thesis using here by (auto simp: protocol_def)
qed

context relay
begin

lemma protocol_run: "in_hand env sv i \<Longrightarrow> protocol env (run_handler now i h sv)"
  using passes_on [of env sv i "fst (h (cn_session (sv_conns sv ! i)))" "snd (h (cn_session (sv_conns sv ! i)))" now]
    ok [of "cn_session (sv_conns sv ! i)"] no_process [of "cn_session (sv_conns sv ! i)"]
    relays [of "cn_session (sv_conns sv ! i)"]
  by (simp add: run_handler_def in_hand_def case_prod_beta)

end

text \<open>The other handlers touch no token.\<close>

lemma touches_nothing:
  assumes "protocol env sv" and "i < length (sv_conns sv)"
    and "handler_ok (cn_session (sv_conns sv ! i)) (s, es)"
    and "\<forall>e \<in> set es. \<not> is_process e" and "started es = 0"
  shows "protocol env (io_effects now i es (update_conn i (\<lambda>c. c\<lparr>cn_session := s\<rparr>) sv))"
proof -
  let ?sv = "update_conn i (\<lambda>c. c\<lparr>cn_session := s\<rparr>) sv"
  let ?after = "io_effects now i es ?sv"
  have one: "one_token env sv i" using assms(1,2) by (simp add: protocol_def)
  have same: "conn_ops (sv_conns ?sv ! i) = conn_ops (sv_conns sv ! i)" using assms(2) by (simp add: conn_ops_def)
  have "conn_ops (sv_conns ?after ! i) = conn_ops (sv_conns ?sv ! i) + started es"
    using assms(2,4,5) one same by (intro io_effects_ops) (simp_all add: one_token_def outstanding_def)
  then have "outstanding env ?after i = outstanding env sv i"
    using assms(5) same by (intro outstanding_cong) simp_all
  moreover have "cn_session (sv_conns ?after ! i) = s" using assms(2) by (simp add: io_effects_conn(1))
  ultimately have here: "one_token env ?after i"
    using one handler_okD(5,6) [OF assms(3)] by (auto simp: one_token_def)
  have "one_token env ?after j" if "j < length (sv_conns sv)" "j \<noteq> i" for j
  proof -
    have "sv_conns ?after ! j = sv_conns sv ! j" using that assms(2) by (simp add: io_effects_conn(3))
    then show ?thesis using that assms(1) by - (rule one_token_cong [of env sv], simp_all add: protocol_def)
  qed
  moreover have "addressed env ?after"
    using assms(1) by - (rule addressed_cong [of env sv], simp_all add: protocol_def)
  ultimately show ?thesis using here by (auto simp: protocol_def)
qed

context bystander
begin

lemma protocol_run: "protocol env sv \<Longrightarrow> i < length (sv_conns sv) \<Longrightarrow> protocol env (run_handler now i h sv)"
  using touches_nothing [of env sv i "fst (h (cn_session (sv_conns sv ! i)))" "snd (h (cn_session (sv_conns sv ! i)))" now]
    ok [of "cn_session (sv_conns sv ! i)"] no_process [of "cn_session (sv_conns sv ! i)"]
    starts_nothing [of "cn_session (sv_conns sv ! i)"]
  by (simp add: run_handler_def case_prod_beta)

end

text \<open>A completed operation puts the token of its session into the handler's hands.\<close>

lemma taken:
  assumes "protocol env sv" and "i < length (sv_conns sv)"
    and "conn_ops (f (sv_conns sv ! i)) + 1 = conn_ops (sv_conns sv ! i)"
    and "cn_session (f (sv_conns sv ! i)) = cn_session (sv_conns sv ! i)"
  shows "in_hand env (update_conn i f sv) i"
proof -
  let ?sv = "update_conn i f sv"
  have one: "one_token env sv i" using assms(1,2) by (simp add: protocol_def)
  have "outstanding env ?sv i = 0"
    using one assms(2,3) by (simp add: one_token_def outstanding_def elsewhere_cong [of ?sv sv])
  moreover have "one_token env ?sv j" if "j < length (sv_conns sv)" "j \<noteq> i" for j
    using that assms(1,2) by - (rule one_token_cong [of env sv], simp_all add: protocol_def)
  moreover have "addressed env ?sv" using assms(1) by - (rule addressed_cong [of env sv], simp_all add: protocol_def)
  ultimately show ?thesis using one assms(2,4) by (simp add: in_hand_def one_token_def)
qed

section \<open>Requests\<close>

lemma task_session_compute [simp]: "task_session B (compute_task B' J req i) = i"
  by (simp add: task_session_def compute_task_def createDoneCallback_def sendResponseAsync_def)

lemma pool_tasks_submit:
  assumes "ThreadPool_submit now x pr p = (ok, p')" and "tq_inv (tp_queue p)"
  shows "pool_tasks p' = (if ok then add_mset x (pool_tasks p) else pool_tasks p)" and "tq_inv (tp_queue p')"
proof -
  have "pool_step p (Pe_submit now x pr ok) p'" using assms(1) by (rule pool_step.submit)
  from pool_step_conserves [OF this assms(2)]
  show "pool_tasks p' = (if ok then add_mset x (pool_tasks p) else pool_tasks p)" "tq_inv (tp_queue p')"
    by (cases ok; simp add: pool_tasks_def ac_simps)+
qed

lemma pool_tasks_pop:
  assumes "k < length (tp_workers p)" and "wk_pc (tp_workers p ! k) = Popping"
    and "worker_pop now k p = Some p'" and "tq_inv (tp_queue p)"
  shows "pool_tasks p' = pool_tasks p" and "tq_inv (tp_queue p')"
  using pool_step_conserves [OF pool_step.pop [OF assms(1-3)] assms(4)]
  by (simp_all add: pool_tasks_def ac_simps)

lemma pool_tasks_execute:
  assumes "k < length (tp_workers p)" and "wk_pc (tp_workers p ! k) = Executing x" and "tq_inv (tp_queue p)"
  shows "pool_tasks p = add_mset x (pool_tasks (worker_executed k p))" and "tq_inv (tp_queue (worker_executed k p))"
  using pool_step_conserves [OF pool_step.execute [OF assms(1,2)] assms(3)]
  by (simp_all add: pool_tasks_def ac_simps)

text \<open>Where the token of a request goes: a task in the pool, a posted delivery, or a delivery at once.\<close>

lemma process_outcome:
  assumes "RequestProcessor_process B J handle routes now req priority i pool = Some (pool', posted, direct)"
    and "tq_inv (tp_queue pool)"
  obtains (queued) "pool_tasks pool' = add_mset (compute_task B J req i) (pool_tasks pool)"
      "posted = []" "direct = []" "tq_inv (tp_queue pool')"
    | (refused) d where "pool_tasks pool' = pool_tasks pool" "posted = [d]" "dl_session d = i" "direct = []"
      "tq_inv (tp_queue pool')"
    | (answered) d where "pool' = pool" "posted = []" "direct = [d]" "dl_session d = i"
proof (cases "is_compute req")
  case True
  obtain ok p where sub: "ThreadPool_submit now (compute_task B J req i) priority pool = (ok, p)" by force
  note tasks = pool_tasks_submit [OF sub assms(2)]
  show thesis
  proof (cases ok)
    case True
    then show thesis
      using assms(1) \<open>is_compute req\<close> sub tasks
      by (intro queued) (simp_all add: RequestProcessor_process_def)
  next
    case False
    then show thesis
      using assms(1) \<open>is_compute req\<close> sub tasks
      by (intro refused [of "hd posted"]) (auto simp: RequestProcessor_process_def Let_def sendResponseAsync_def)
  qed
next
  case False
  then show thesis
    using assms(1) by (auto simp: RequestProcessor_process_def Let_def intro: answered split: option.splits)
qed

lemma token_placed:
  assumes "in_hand env sv i" and "length (sv_conns sv') = length (sv_conns sv)"
    and "addressed env sv'" and "\<And>j. sv_conns sv' ! j = sv_conns sv ! j"
    and "\<And>j. elsewhere env sv' j = elsewhere env sv j + of_bool (j = i)"
  shows "protocol env sv'"
  using assms by (auto simp: protocol_def in_hand_def one_token_def outstanding_def)

lemma addressed_queued:
  assumes "addressed env sv" and "i < length (sv_conns sv)" and "tq_inv (tp_queue pool)"
    and "pool_tasks pool = add_mset (compute_task (se_beast env) (se_json env) req i) (pool_tasks (sv_pool sv))"
  shows "addressed env (sv\<lparr>sv_pool := pool\<rparr>)"
  using assms by (auto simp: addressed_def)

lemma protocol_process:
  assumes "process_request env fs now i req priority sv = Some sv'" and "in_hand env sv i"
  shows "protocol env sv'"
  using assms(1)
proof (cases rule: process_request_cases)
  case (1 pool posted direct)
  have addr: "addressed env sv" "i < length (sv_conns sv)" "tq_inv (tp_queue (sv_pool sv))"
    using assms(2) by (simp_all add: in_hand_def addressed_def)
  from 1(1) addr(3) show ?thesis
  proof (cases rule: process_outcome)
    case queued
    have "sv' = sv\<lparr>sv_pool := pool\<rparr>" using 1(2) queued(2,3) by simp
    then show ?thesis
      using addressed_queued [OF addr(1,2) queued(4,1)]
      by (intro token_placed [OF assms(2)]) (simp_all add: elsewhere_def queued(1))
  next
    case (refused d)
    have "sv' = sv\<lparr>sv_pool := pool, sv_posted := sv_posted sv @ [d]\<rparr>" using 1(2) refused(2,4) by simp
    then show ?thesis
      using addr refused
      by (intro token_placed [OF assms(2)]) (auto simp: elsewhere_def addressed_def)
  next
    case (answered d)
    have "sv' = deliver env now d sv" using 1(2) answered by simp
    then show ?thesis
      using assms(2) answered(4) by (simp add: deliver_run_handler sendResponse.protocol_run)
  qed
qed

text \<open>A completed read, and a counted request, in the hands of the handler.\<close>

lemma read_in_hand:
  assumes "protocol env sv" and "i < length (sv_conns sv)" and "cn_reading (sv_conns sv ! i) \<noteq> None"
  shows "in_hand env (update_conn i (\<lambda>c. c\<lparr>cn_reading := None\<rparr>) (sv\<lparr>sv_nonZeroCounter := n\<rparr>)) i"
proof (rule taken)
  show "protocol env (sv\<lparr>sv_nonZeroCounter := n\<rparr>)" by (rule protocol_cong [OF assms(1)]) simp_all
qed (use assms in \<open>simp_all add: conn_ops_def\<close>)

lemma request_in_hand:
  assumes "protocol env sv" and "i < length (sv_conns sv)" and "cn_reading (sv_conns sv ! i) \<noteq> None"
    and "\<forall>e \<in> set quiet. is_quiet e"
  shows "in_hand env (io_effects now i quiet (update_conn i
        (\<lambda>c. c\<lparr>cn_reading := None, cn_session := (cn_session (sv_conns sv ! i))\<lparr>ss_requestCount := m\<rparr>\<rparr>)
        (sv\<lparr>sv_nonZeroCounter := n\<rparr>))) i"
proof -
  let ?sv = "update_conn i (\<lambda>c. c\<lparr>cn_reading := None\<rparr>) (sv\<lparr>sv_nonZeroCounter := n\<rparr>)"
  let ?on = "io_effects now i quiet (update_conn i
      (\<lambda>c. c\<lparr>cn_reading := None, cn_session := (cn_session (sv_conns sv ! i))\<lparr>ss_requestCount := m\<rparr>\<rparr>)
      (sv\<lparr>sv_nonZeroCounter := n\<rparr>))"
  have hand: "in_hand env ?sv i" by (rule read_in_hand [OF assms(1-3)])
  have conns: "sv_conns ?on ! j = (if i = j then (sv_conns ?sv ! j)\<lparr>cn_session := (cn_session (sv_conns sv ! i))
      \<lparr>ss_requestCount := m\<rparr>\<rparr> else sv_conns ?sv ! j)" for j
    using assms(2) by (simp add: quiet_effects(1) [OF assms(4)])
  have "one_token env ?on j" if "j < length (sv_conns sv)" "j \<noteq> i" for j
    using that hand by - (rule one_token_cong [of env ?sv], simp_all add: in_hand_def conns)
  moreover have "outstanding env ?on i = outstanding env ?sv i"
    by (rule outstanding_cong) (simp_all add: conns conn_ops_def)
  moreover have "addressed env ?on"
    using hand by - (rule addressed_cong [of env ?sv], simp_all add: in_hand_def)
  moreover have "closed_ended (cn_session (sv_conns ?on ! i))"
    using hand assms(2) by (simp add: in_hand_def conns closed_ended_def)
  ultimately show ?thesis using hand by (simp add: in_hand_def)
qed

lemma read_session:
  assumes "i < length (sv_conns sv)"
  shows "update_conn i (\<lambda>c. c\<lparr>cn_session := s\<rparr>) (update_conn i (\<lambda>c. c\<lparr>cn_reading := None\<rparr>) sv) =
    update_conn i (\<lambda>c. c\<lparr>cn_reading := None, cn_session := s\<rparr>) sv"
  using assms by (simp add: update_conn_def)

lemma protocol_read:
  assumes "server_next env now (Sv_read i result fs) sv = Some sv'" and "protocol env sv"
  shows "protocol env sv'"
  using assms(1)
proof (cases rule: read_event_cases)
  case (no_request s es n)
  let ?sv = "update_conn i (\<lambda>c. c\<lparr>cn_reading := None\<rparr>) (sv\<lparr>sv_nonZeroCounter := n\<rparr>)"
  have "closed_ended (cn_session (sv_conns sv ! i))"
    using assms(2) no_request(1) by (simp add: protocol_def one_token_def)
  then have "protocol env (io_effects now i es (update_conn i (\<lambda>c. c\<lparr>cn_session := s\<rparr>) ?sv))"
    using no_request read_in_hand [OF assms(2)] by (intro passes_on) simp_all
  then show ?thesis using no_request(1,7) read_session [of i "sv\<lparr>sv_nonZeroCounter := n\<rparr>" s] by simp
next
  case (a_request req priority quiet n)
  then show ?thesis using request_in_hand [OF assms(2)] by (intro protocol_process)
qed

section \<open>The other steps\<close>

lemma filter_length_nth:
  "k < length xs \<Longrightarrow> length (filter P xs) =
    length (filter P (take k xs @ drop (Suc k) xs)) + of_bool (P (xs ! k))"
proof -
  assume "k < length xs"
  then have "xs = take k xs @ xs ! k # drop (Suc k) xs" by (rule id_take_nth_drop)
  then have "filter P xs = filter P (take k xs @ xs ! k # drop (Suc k) xs)" by simp
  then show ?thesis by simp
qed

lemma delivery_in_hand:
  assumes "protocol env sv" and "k < length (sv_posted sv)"
  shows "in_hand env (sv\<lparr>sv_posted := take k (sv_posted sv) @ drop (Suc k) (sv_posted sv)\<rparr>)
    (dl_session (sv_posted sv ! k))"
proof -
  let ?i = "dl_session (sv_posted sv ! k)"
  let ?sv = "sv\<lparr>sv_posted := take k (sv_posted sv) @ drop (Suc k) (sv_posted sv)\<rparr>"
  have addr: "addressed env sv" using assms(1) by (simp add: protocol_def)
  then have i: "?i < length (sv_conns sv)" using assms(2) by (simp add: addressed_def)
  have count: "elsewhere env sv j = elsewhere env ?sv j + of_bool (?i = j)" for j
    using filter_length_nth [OF assms(2)] by (simp add: elsewhere_def)
  have "addressed env ?sv"
    using addr assms(2) by (auto simp: addressed_def dest: in_set_takeD in_set_dropD)
  moreover have "one_token env ?sv j" if "j < length (sv_conns sv)" "j \<noteq> ?i" for j
    using assms(1) that count [of j] by (auto simp: protocol_def one_token_def outstanding_def)
  moreover have "one_token env sv ?i" using assms(1) i by (simp add: protocol_def)
  ultimately show ?thesis
    using count [of ?i] i by (simp add: in_hand_def one_token_def outstanding_def)
qed

lemma protocol_deliver:
  assumes "protocol env sv" and "k < length (sv_posted sv)"
  shows "protocol env (deliver env now (sv_posted sv ! k)
    (sv\<lparr>sv_posted := take k (sv_posted sv) @ drop (Suc k) (sv_posted sv)\<rparr>))"
  using delivery_in_hand [OF assms] by (simp add: deliver_run_handler sendResponse.protocol_run)

lemma HttpTask_execute_compute:
  "\<exists>msg d. HttpTask_execute B (compute_task B J req i) = Inr (msg, d) \<and> dl_session d = i"
  by (auto simp: HttpTask_execute_def compute_task_def createDoneCallback_def sendResponseAsync_def
      split: sum.splits cxx_exn.splits)

lemma token_moved:
  assumes "protocol env sv" and "sv_conns sv' = sv_conns sv" and "addressed env sv'"
    and "\<And>i. elsewhere env sv' i = elsewhere env sv i"
  shows "protocol env sv'"
  using assms by (simp add: protocol_def one_token_def outstanding_def)

lemma protocol_pop:
  assumes "protocol env sv" and "k < length (tp_workers (sv_pool sv))"
    and "wk_pc (tp_workers (sv_pool sv) ! k) = Popping" and "worker_pop now k (sv_pool sv) = Some p"
  shows "protocol env (sv\<lparr>sv_pool := p\<rparr>)"
proof -
  have "addressed env sv" using assms(1) by (simp add: protocol_def)
  moreover from this have "pool_tasks p = pool_tasks (sv_pool sv)" "tq_inv (tp_queue p)"
    using pool_tasks_pop [OF assms(2-4)] by (simp_all add: addressed_def)
  ultimately show ?thesis
    by (intro token_moved [OF assms(1)]) (simp_all add: addressed_def elsewhere_def)
qed

lemma executed:
  assumes "addressed env sv" and "k < length (tp_workers (sv_pool sv))"
    and "worker_execute env now k sv = Some sv'"
  obtains req i d where "i < length (sv_conns sv)" "sv_conns sv' = sv_conns sv"
    "pool_tasks (sv_pool sv) = add_mset (compute_task (se_beast env) (se_json env) req i) (pool_tasks (sv_pool sv'))"
    "tq_inv (tp_queue (sv_pool sv'))" "sv_posted sv' = sv_posted sv @ [d]" "dl_session d = i"
proof -
  have inv: "tq_inv (tp_queue (sv_pool sv))" using assms(1) by (simp add: addressed_def)
  obtain t where pc: "wk_pc (tp_workers (sv_pool sv) ! k) = Executing t"
    using assms(3) by (auto simp: worker_execute_def split: worker_pc.splits)
  note tasks = pool_tasks_execute [OF assms(2) pc inv]
  then obtain req i where t: "t = compute_task (se_beast env) (se_json env) req i" "i < length (sv_conns sv)"
    using assms(1) by (auto simp: addressed_def)
  obtain msg d where run: "HttpTask_execute (se_beast env) t = Inr (msg, d)" "dl_session d = i"
    using HttpTask_execute_compute unfolding t(1) by blast
  define sv1 where "sv1 = (case msg of None \<Rightarrow> sv | Some m \<Rightarrow> server_log now m ERROR sv)"
  have sv': "sv' = sv1\<lparr>sv_pool := worker_executed k (sv_pool sv1), sv_posted := sv_posted sv1 @ [d]\<rparr>"
    using assms(3) pc run(1) by (simp add: worker_execute_def Let_def sv1_def)
  have same: "sv_conns sv1 = sv_conns sv" "sv_pool sv1 = sv_pool sv" "sv_posted sv1 = sv_posted sv"
    by (simp_all add: sv1_def split: option.splits)
  show thesis using that [of i req d] tasks run(2) t by (simp add: sv' same)
qed

lemma protocol_execute:
  assumes "protocol env sv" and "k < length (tp_workers (sv_pool sv))"
    and "worker_execute env now k sv = Some sv'"
  shows "protocol env sv'"
proof -
  have addr: "addressed env sv" using assms(1) by (simp add: protocol_def)
  from addr assms(2,3) show ?thesis
  proof (rule executed)
    fix req i d assume after: "i < length (sv_conns sv)" "sv_conns sv' = sv_conns sv"
      "pool_tasks (sv_pool sv) = add_mset (compute_task (se_beast env) (se_json env) req i) (pool_tasks (sv_pool sv'))"
      "tq_inv (tp_queue (sv_pool sv'))" "sv_posted sv' = sv_posted sv @ [d]" "dl_session d = i"
    then have "addressed env sv'" using addr by (auto simp: addressed_def)
    then show ?thesis using after by (intro token_moved [OF assms(1)]) (simp_all add: elsewhere_def)
  qed
qed

lemma no_token_beyond:
  assumes "addressed env sv"
  shows "elsewhere env sv (length (sv_conns sv)) = 0"
proof -
  have "filter_mset (\<lambda>t. task_session (se_beast env) t = length (sv_conns sv)) (pool_tasks (sv_pool sv)) = {#}"
    using assms by (fastforce simp: addressed_def filter_mset_eq_conv)
  moreover have "filter (\<lambda>d. dl_session d = length (sv_conns sv)) (sv_posted sv) = []"
    using assms by (auto simp: addressed_def filter_empty_conv)
  ultimately show ?thesis by (simp add: elsewhere_def)
qed

lemma protocol_insert:
  assumes "protocol env sv"
  shows "protocol env (insert_session now cfg (sv\<lparr>sv_accepting := n\<rparr>))"
proof -
  let ?new = "insert_session now cfg (sv\<lparr>sv_accepting := n\<rparr>)" and ?i = "length (sv_conns sv)"
  have addr: "addressed env sv" using assms by (simp add: protocol_def)
  have else_same: "elsewhere env ?new j = elsewhere env sv j" for j by (rule elsewhere_cong) simp_all
  have "one_token env ?new ?i"
    using no_token_beyond [OF addr]
    by (simp add: one_token_def outstanding_def else_same conn_ops_def closed_ended_def Session_new_def)
  moreover have "one_token env ?new j" if "j < ?i" for j
    using assms that
    by - (rule one_token_cong [of env sv], simp_all add: protocol_def nth_append)
  moreover have "addressed env ?new"
    using addr by - (rule addressed_cong [of env sv], simp_all)
  ultimately show ?thesis by (auto simp: protocol_def less_Suc_eq)
qed

lemma relay_event:
  assumes "conn_event sv i possible (Some (run_handler now i h (update_conn i f sv))) = Some sv'"
    and "protocol env sv" and "relay h"
    and "\<And>c. possible c \<Longrightarrow> conn_ops (f c) + 1 = conn_ops c" and "\<And>c. cn_session (f c) = cn_session c"
  shows "protocol env sv'"
  using assms(1)
proof (rule conn_event_cases)
  assume i: "i < length (sv_conns sv)" "possible (sv_conns sv ! i)"
    and sv': "sv' = run_handler now i h (update_conn i f sv)"
  show ?thesis
    unfolding sv' by (intro relay.protocol_run [OF assms(3)] taken [OF assms(2) i(1)] assms(4,5) i(2))
qed

lemma bystander_event:
  assumes "conn_event sv i possible (Some (run_handler now i h (update_conn i f sv))) = Some sv'"
    and "protocol env sv" and "bystander h"
    and "\<And>c. conn_ops (f c) = conn_ops c" and "\<And>c. cn_session (f c) = cn_session c"
  shows "protocol env sv'"
  using assms(1)
proof (rule conn_event_cases)
  assume i: "i < length (sv_conns sv)" and sv': "sv' = run_handler now i h (update_conn i f sv)"
  have "protocol env (update_conn i f sv)"
    using i by (intro protocol_cong [OF assms(2)]) (simp_all add: assms(4,5))
  then show ?thesis
    unfolding sv' using i by (intro bystander.protocol_run [OF assms(3)]) simp_all
qed

lemma protocol_step:
  assumes "server_next env now ev sv = Some sv'" and "protocol env sv"
  shows "protocol env sv'"
proof (cases ev)
  case (Sv_read i result fs)
  then show ?thesis using protocol_read assms by blast
next
  case Sv_insert
  then show ?thesis using assms(1) protocol_insert [OF assms(2)] by (auto split: if_splits)
next
  case (Sv_start i)
  show ?thesis
    by (rule relay_event [OF assms(1) [unfolded Sv_start server_next.simps] assms(2)])
      (simp_all add: doRead.relay_axioms conn_ops_def)
next
  case (Sv_written i result)
  show ?thesis
    by (rule relay_event [OF assms(1) [unfolded Sv_written server_next.simps] assms(2)])
      (simp_all add: onWrite.relay_axioms conn_ops_def)
next
  case (Sv_timer i aborted)
  show ?thesis
    by (rule bystander_event [OF assms(1) [unfolded Sv_timer server_next.simps] assms(2)])
      (simp_all add: onTimeout.bystander_axioms conn_ops_def)
next
  case (Sv_close i)
  show ?thesis
    by (rule bystander_event [OF assms(1) [unfolded Sv_close server_next.simps] assms(2)])
      (simp_all add: close.bystander_axioms conn_ops_def)
next
  case (Sv_deliver k)
  then show ?thesis using assms protocol_deliver by (auto simp: io_event_def split: if_splits)
next
  case (Sv_worker_pop k)
  then show ?thesis using assms protocol_pop by (auto simp: at_pop_iff split: if_splits)
next
  case (Sv_worker_execute k)
  then show ?thesis using assms protocol_execute by (auto split: if_splits)
next
  case Sv_drain_timer
  then have "sv' = on_drain_timer now (sv\<lparr>sv_drainTimer := False\<rparr>)"
    using assms(1) by (simp add: io_event_def split: if_splits)
  moreover have "conn_ops (sv_conns (close_sessions s) ! j) = conn_ops (sv_conns s ! j) \<and>
      cn_session (sv_conns (close_sessions s) ! j) = cn_session (sv_conns s ! j)" for j and s :: "'a server"
    using close_sessions_conn [of s j] by (auto simp: conn_ops_def)
  ultimately show ?thesis by (intro protocol_cong [OF assms(2)]) (simp_all add: on_drain_timer_def)
qed (use assms in \<open>auto simp: io_event_def on_accept_def on_signal_def intro: protocol_cong
    split: if_splits accept_result.splits\<close>)

lemma start_pool:
  assumes "HttpServer_start now env fs = Some (Inr sv)"
  shows "tq_inv (tp_queue (sv_pool sv))" and "pool_tasks (sv_pool sv) = {#}"
proof -
  let ?new = "ThreadPool_new (cf_threads (se_config env)) (cf_max_queue_size (se_config env)) :: 'a http_task thread_pool"
  have fresh: "\<forall>w \<in> set (tp_workers ?new). wk_pc w = Not_Started"
    by (simp add: ThreadPool_new_def WorkerThread_new_def)
  have "pool_step ?new Pe_start (sv_pool sv)"
    using start_fields(10) [OF assms] fresh by (rule pool_step.start)
  from pool_step_conserves [OF this]
  show "tq_inv (tp_queue (sv_pool sv))" "pool_tasks (sv_pool sv) = {#}"
    by (simp_all add: tq_inv_new(1) pool_tasks_def) (simp add: tq_items_def TaskQueue_new_def)
qed

lemma protocol_start:
  assumes "HttpServer_start now env fs = Some (Inr sv)"
  shows "protocol env sv"
  using start_pool [OF assms] start_fields [OF assms] by (simp add: protocol_def addressed_def)

interpretation protocol: server_invariant env "protocol env" for env
  by unfold_locales (rule protocol_start, assumption, rule protocol_step)

text \<open>
  C3. Half-duplex, and nothing is lost: in every reachable state a session has at most one operation
  outstanding (its start, a read, a task in the pool, a posted response, or a write), so a
  socket is never read and written, or written twice, at the same time, responses come in the
  order of their requests, and a session that has not ended always has an operation that will
  continue it.
\<close>

theorem HttpServer_one_operation:
  assumes "server_reach env sv" and "i < length (sv_conns sv)"
  shows "outstanding env sv i \<le> 1 \<and>
    (\<not> ss_ended (cn_session (sv_conns sv ! i)) \<longrightarrow> outstanding env sv i = 1)"
  using protocol.holds [OF assms(1)] assms(2) by (auto simp: protocol_def one_token_def)

definition compute_request :: "(string \<times> string) list request" where
  "compute_request = \<lparr>rq_method = Verb_post, rq_target = ''/compute'', rq_fields = [], rq_body = ''[1]''\<rparr>"

definition compute_events :: "(string \<times> string) list server_event list" where
  "compute_events = [Sv_accept Accept_done, Sv_insert, Sv_start 0, Sv_read 0 (Read_request compute_request) (still example_fs),
     Sv_worker_pop 0]"

lemma compute_running:
  "map_option (\<lambda>sv. (length (sv_conns sv), map (\<lambda>c. ss_ended (cn_session c)) (sv_conns sv),
     map (\<lambda>c. (cn_start c, cn_reading c, cn_writing c = None)) (sv_conns sv), length (sv_posted sv)))
   (example_run example_config compute_events) = Some (1, [False], [(False, None, True)], 0)"
  by code_simp

lemma HttpServer_one_operation_witness:
  "\<exists>sv. example_run example_config compute_events = Some sv \<and>
    outstanding (example_server_env example_config) sv 0 = 1 \<and> cn_writing (sv_conns sv ! 0) = None"
proof -
  obtain sv where run: "example_run example_config compute_events = Some sv"
    and sv: "length (sv_conns sv) = 1" "map (\<lambda>c. ss_ended (cn_session c)) (sv_conns sv) = [False]"
      "map (\<lambda>c. (cn_start c, cn_reading c, cn_writing c = None)) (sv_conns sv) = [(False, None, True)]"
    using compute_running by auto
  then obtain c where "sv_conns sv = [c]" by (cases "sv_conns sv") auto
  then show ?thesis
    using HttpServer_one_operation [OF example_run_reach [OF run], of 0] sv run by auto
qed

end
