(* ===== verification/Server_Automaton.thy ===== *)
theory Server_Automaton
  imports Server_Protocol
begin

text \<open>
  The specification of one session as an automaton, and that the server with all its threads,
  tasks and posted handlers implements it: every step of the server leaves a session alone or is
  one transition of its automaton.
\<close>

section \<open>The automaton\<close>

text \<open>
  Where the one operation of a session is; the rest of the state is that of the \<open>Session\<close> object.
\<close>

datatype phase = Starting | Reading | Computing | Answered | Writing | Resting

definition after_answer :: "bool \<Rightarrow> session \<Rightarrow> phase \<times> session" where
  "after_answer keep s = (if ss_closed s then (Resting, s) else (Writing, s\<lparr>ss_keepAlive := keep\<rparr>))"

definition kept_open :: "session \<Rightarrow> bool" where
  "kept_open s \<longleftrightarrow> ss_keepAlive s \<and> ss_enableKeepalive s \<and> ss_requestCount s < ss_maxKeepaliveRequests s"

definition after_start :: "session \<Rightarrow> phase \<times> session" where
  "after_start s = ((if ss_closed s then Resting else Reading), s)"

inductive session_step :: "bool \<Rightarrow> phase \<times> session \<Rightarrow> phase \<times> session \<Rightarrow> bool" for draining where
  begins: "session_step draining (Starting, s) (after_start s)"
| fails: "session_step draining (Reading, s) (Resting, s\<lparr>ss_ended := True\<rparr>)"
| too_large: "session_step draining (Reading, s) (after_answer False s)"
| request_queued: "session_step draining (Reading, s) (Computing, s\<lparr>ss_requestCount := ss_requestCount s + 1\<rparr>)"
| request_refused: "session_step draining (Reading, s) (Answered, s\<lparr>ss_requestCount := ss_requestCount s + 1\<rparr>)"
| request_answered: "session_step draining (Reading, s)
    (after_answer keep (s\<lparr>ss_requestCount := ss_requestCount s + 1\<rparr>))"
| computed: "session_step draining (Computing, s) (Answered, s)"
| answered: "session_step draining (Answered, s) (after_answer keep s)"
| continues: "kept_open s \<Longrightarrow> \<not> draining \<Longrightarrow> session_step draining (Writing, s) (after_start s)"
| finishes: "session_step draining (Writing, s) (Resting, s\<lparr>ss_ended := True\<rparr>)"
| timeout: "session_step draining (ph, s) (ph, s\<lparr>ss_ended := True\<rparr>)"
| closes: "session_step draining (ph, s) (ph, s\<lparr>ss_closed := True, ss_ended := True\<rparr>)"

section \<open>The abstraction\<close>

definition pooled :: "'f server_env \<Rightarrow> 'f server \<Rightarrow> nat \<Rightarrow> nat" where
  "pooled env sv i = size (filter_mset (\<lambda>t. task_session (se_beast env) t = i) (pool_tasks (sv_pool sv)))"

definition posted_for :: "'f server \<Rightarrow> nat \<Rightarrow> nat" where
  "posted_for sv i = length (filter (\<lambda>d. dl_session d = i) (sv_posted sv))"

lemma elsewhere_split: "elsewhere env sv i = pooled env sv i + posted_for sv i"
  by (simp add: elsewhere_def pooled_def posted_for_def)

definition phase_of :: "'f server_env \<Rightarrow> 'f server \<Rightarrow> nat \<Rightarrow> phase" where
  "phase_of env sv i =
     (let c = sv_conns sv ! i in
      if cn_start c then Starting
      else if cn_reading c \<noteq> None then Reading
      else if cn_writing c \<noteq> None then Writing
      else if 0 < pooled env sv i then Computing
      else if 0 < posted_for sv i then Answered
      else Resting)"

definition session_of :: "'f server_env \<Rightarrow> 'f server \<Rightarrow> nat \<Rightarrow> phase \<times> session" where
  "session_of env sv i = (phase_of env sv i, cn_session (sv_conns sv ! i))"

text \<open>Same flags of the connection.\<close>

definition same_ops :: "'f conn \<Rightarrow> 'f conn \<Rightarrow> bool" where
  "same_ops c c' \<longleftrightarrow> cn_start c' = cn_start c \<and> (cn_reading c' = None \<longleftrightarrow> cn_reading c = None) \<and>
     (cn_writing c' = None \<longleftrightarrow> cn_writing c = None)"

lemma phase_cong:
  assumes "same_ops (sv_conns sv ! i) (sv_conns sv' ! i)" and "pooled env sv' i = pooled env sv i"
    and "posted_for sv' i = posted_for sv i"
  shows "phase_of env sv' i = phase_of env sv i"
  using assms by (simp add: phase_of_def same_ops_def Let_def)

lemma pooled_cong: "sv_pool sv' = sv_pool sv \<Longrightarrow> pooled env sv' i = pooled env sv i"
  by (simp add: pooled_def)

lemma posted_cong: "sv_posted sv' = sv_posted sv \<Longrightarrow> posted_for sv' i = posted_for sv i"
  by (simp add: posted_for_def)

lemma session_cong:
  assumes "same_ops (sv_conns sv ! i) (sv_conns sv' ! i)" and "cn_session (sv_conns sv' ! i) = cn_session (sv_conns sv ! i)"
    and "pooled env sv' i = pooled env sv i" and "posted_for sv' i = posted_for sv i"
  shows "session_of env sv' i = session_of env sv i"
  using assms phase_cong [of sv i sv' env] by (simp add: session_of_def)

lemma session_same:
  assumes "sv_conns sv' ! i = sv_conns sv ! i" and "pooled env sv' i = pooled env sv i" and "posted_for sv' i = posted_for sv i"
  shows "session_of env sv' i = session_of env sv i"
  using assms by (intro session_cong) (simp_all add: same_ops_def)

text \<open>In whose hands the token is, the phase is \<^const>\<open>Resting\<close>.\<close>

lemma in_hand_flags:
  assumes "in_hand env sv i"
  shows "\<not> cn_start (sv_conns sv ! i)" and "cn_reading (sv_conns sv ! i) = None"
    and "cn_writing (sv_conns sv ! i) = None" and "pooled env sv i = 0" and "posted_for sv i = 0"
  using assms by (auto simp: in_hand_def outstanding_def conn_ops_def elsewhere_split of_bool_def split: if_splits)

section \<open>Handlers\<close>

text \<open>The phase after the effects of a handler that held the token.\<close>

definition phase_after :: "'f effect list \<Rightarrow> phase" where
  "phase_after es = (if \<exists>n. Async_read n \<in> set es then Reading
     else if \<exists>res. Async_write res \<in> set es then Writing else Resting)"

lemma io_effect_flags:
  assumes "i < length (sv_conns sv)"
  shows "cn_reading (sv_conns (io_effect now i e sv) ! i) = None \<longleftrightarrow>
      cn_reading (sv_conns sv ! i) = None \<and> (\<forall>n. e \<noteq> Async_read n)"
    and "cn_writing (sv_conns (io_effect now i e sv) ! i) = None \<longleftrightarrow>
      cn_writing (sv_conns sv ! i) = None \<and> (\<forall>res. e \<noteq> Async_write res)"
  using assms by (cases e; simp)+

lemma io_effects_flags:
  assumes "i < length (sv_conns sv)"
  shows "cn_reading (sv_conns (io_effects now i es sv) ! i) = None \<longleftrightarrow>
      cn_reading (sv_conns sv ! i) = None \<and> (\<forall>n. Async_read n \<notin> set es)"
    and "cn_writing (sv_conns (io_effects now i es sv) ! i) = None \<longleftrightarrow>
      cn_writing (sv_conns sv ! i) = None \<and> (\<forall>res. Async_write res \<notin> set es)"
  using assms
proof (induction es arbitrary: sv)
  case (Cons e es)
  {
    case 1
    then show ?case
      using Cons.IH(1) [of "io_effect now i e sv"] io_effect_flags(1) [OF 1, of now e] by auto
  next
    case 2
    then show ?case
      using Cons.IH(2) [of "io_effect now i e sv"] io_effect_flags(2) [OF 2, of now e] by auto
  }
qed simp_all

lemma handler_phase:
  assumes "in_hand env sv i" and "sv' = io_effects now i es (update_conn i (\<lambda>c. c\<lparr>cn_session := s\<rparr>) sv)"
  shows "session_of env sv' i = (phase_after es, s)"
    and "j \<noteq> i \<Longrightarrow> session_of env sv' j = session_of env sv j"
proof -
  let ?sv = "update_conn i (\<lambda>c. c\<lparr>cn_session := s\<rparr>) sv"
  have i: "i < length (sv_conns sv)" "i < length (sv_conns ?sv)" using assms(1) by (simp_all add: in_hand_def)
  note flags = in_hand_flags [OF assms(1)]
  have same: "sv_pool sv' = sv_pool sv" "sv_posted sv' = sv_posted sv" by (simp_all add: assms(2))
  have "pooled env sv' i = 0" "posted_for sv' i = 0"
    using flags(4,5) pooled_cong [OF same(1)] posted_cong [OF same(2)] by simp_all
  moreover have "\<not> cn_start (sv_conns sv' ! i)" "cn_session (sv_conns sv' ! i) = s"
    using flags(1) i by (simp_all add: assms(2) io_effects_conn(1,2) [OF i(2)])
  ultimately show "session_of env sv' i = (phase_after es, s)"
    using io_effects_flags [OF i(2), of now es] flags(2,3) i(1)
    by (simp add: session_of_def phase_of_def phase_after_def Let_def flip: assms(2))
  assume "j \<noteq> i"
  then have "sv_conns sv' ! j = sv_conns sv ! j" using i by (simp add: assms(2) io_effects_conn(3))
  then show "session_of env sv' j = session_of env sv j"
    using pooled_cong [OF same(1)] posted_cong [OF same(2)] by (intro session_same) simp_all
qed

lemma run_handler_phase:
  assumes "in_hand env sv i" and "h (cn_session (sv_conns sv ! i)) = (s, es)"
  shows "session_of env (run_handler now i h sv) i = (phase_after es, s)"
    and "j \<noteq> i \<Longrightarrow> session_of env (run_handler now i h sv) j = session_of env sv j"
  using handler_phase [OF assms(1), of "run_handler now i h sv" now es s] assms(2) by (simp_all add: run_handler_def)

text \<open>A handler that starts nothing.\<close>

lemma bystander_phase:
  assumes "i < length (sv_conns sv)" and "h (cn_session (sv_conns sv ! i)) = (s, es)" and "phase_after es = Resting"
  shows "session_of env (run_handler now i h sv) i = (phase_of env sv i, s)"
    and "j \<noteq> i \<Longrightarrow> session_of env (run_handler now i h sv) j = session_of env sv j"
proof -
  let ?sv = "update_conn i (\<lambda>c. c\<lparr>cn_session := s\<rparr>) sv" and ?sv' = "run_handler now i h sv"
  have sv': "?sv' = io_effects now i es ?sv" using assms(2) by (simp add: run_handler_def)
  have i: "i < length (sv_conns ?sv)" using assms(1) by simp
  have same: "sv_pool ?sv' = sv_pool sv" "sv_posted ?sv' = sv_posted sv" by (simp_all add: sv')
  have none: "\<forall>n. Async_read n \<notin> set es" "\<forall>res. Async_write res \<notin> set es"
    using assms(3) by (auto simp: phase_after_def split: if_splits)
  have "cn_start (sv_conns ?sv' ! i) = cn_start (sv_conns sv ! i)"
    using assms(1) by (simp add: sv' io_effects_conn(2) [OF i])
  then have "same_ops (sv_conns sv ! i) (sv_conns ?sv' ! i)"
    using io_effects_flags [OF i, of now es] none assms(1) by (simp add: same_ops_def sv')
  then have "phase_of env ?sv' i = phase_of env sv i"
    using pooled_cong [OF same(1)] posted_cong [OF same(2)] by (intro phase_cong) simp_all
  moreover have "cn_session (sv_conns ?sv' ! i) = s" using assms(1) by (simp add: sv' io_effects_conn(1) [OF i])
  ultimately show "session_of env ?sv' i = (phase_of env sv i, s)" by (simp add: session_of_def)
  assume "j \<noteq> i"
  then have "sv_conns ?sv' ! j = sv_conns sv ! j" using i assms(1) by (simp add: sv' io_effects_conn(3))
  then show "session_of env ?sv' j = session_of env sv j"
    using pooled_cong [OF same(1)] posted_cong [OF same(2)] by (intro session_same) simp_all
qed

text \<open>What the handlers do, as transitions.\<close>

lemma doRead_after: "Session_doRead cfg s = (s', es) \<Longrightarrow> (phase_after es, s') = after_start s"
  by (auto simp: Session_doRead_def phase_after_def after_start_def split: if_splits)

lemma sendResponse_after:
  "Session_sendResponse res keep s = (s', es) \<Longrightarrow> (phase_after es, s') = after_answer keep s"
  by (auto simp: Session_sendResponse_def phase_after_def after_answer_def split: if_splits)

lemma phase_after_skip [simp]:
  "phase_after (Log m l # es) = phase_after es" "phase_after (Cancel_timer # es) = phase_after es"
  "phase_after (Close_socket # es) = phase_after es" "phase_after (End_session # es) = phase_after es"
  "phase_after [] = Resting"
  by (simp_all add: phase_after_def)

lemma endSession_after:
  "Session_endSession s = (s', es) \<Longrightarrow> phase_after es = Resting \<and> s' = s\<lparr>ss_ended := True\<rparr>"
  by (auto simp: Session_endSession_def split: if_splits)

lemma onWrite_after:
  assumes "Session_onWrite cfg draining w s = (s', es)"
  shows "session_step draining (Writing, s) (phase_after es, s')"
proof (cases "w = Write_done \<and> kept_open s \<and> \<not> draining")
  case True
  then obtain es1 where "Session_doRead cfg s = (s', es1)" "es = Log ''Keep-Alive: continue'' DEBUG # es1"
    using assms by (auto simp: Session_onWrite_def kept_open_def Let_def split: prod.splits)
  moreover have "session_step draining (Writing, s) (after_start s)" using True by (simp add: continues)
  ultimately show ?thesis using doRead_after [of cfg s s' es1] by simp
next
  case False
  then obtain m l es1 where "Session_endSession s = (s', es1)" "es = Log m l # es1"
    using assms by (cases w) (auto simp: Session_onWrite_def kept_open_def Let_def split: prod.splits if_splits)
  then show ?thesis using endSession_after finishes by fastforce
qed

lemma onTimeout_after:
  assumes "Session_onTimeout aborted s = (s', es)"
  shows "phase_after es = Resting" and "s' = (if aborted then s else s\<lparr>ss_ended := True\<rparr>)"
  using assms by (auto simp: Session_onTimeout_def Session_endSession_def Let_def split: if_splits)

lemma close_after:
  assumes "Session_close s = (s', es)"
  shows "phase_after es = Resting" and "s' = (if ss_closed s then s else s\<lparr>ss_closed := True, ss_ended := True\<rparr>)"
  using assms by (auto simp: Session_close_def Session_endSession_def Let_def split: if_splits)

lemma onRead_after:
  assumes "Session_onRead B cfg result n s = Some (s', n', es)" and "\<forall>e \<in> set es. \<not> is_process e"
  shows "session_step draining (Reading, s) (phase_after es, s')"
proof (cases result)
  case (Read_request req)
  then show ?thesis
    using assms by (auto simp: Session_onRead_def Let_def split: option.splits prod.splits)
next
  case (Read_error e)
  show ?thesis
  proof (cases "e = Body_limit")
    case True
    then obtain res es1 where "Session_sendResponse res False s = (s', es1)"
      "es = [Cancel_timer, read_error_log Body_limit] @ es1"
      using assms(1) Read_error by (auto simp: Session_onRead_def Let_def split: prod.splits)
    then show ?thesis using sendResponse_after [of res False s s' es1] by (simp add: read_error_log_def too_large)
  next
    case False
    then obtain es1 where "Session_endSession s = (s', es1)" "es = [Cancel_timer, read_error_log e] @ es1"
      using assms(1) Read_error by (auto simp: Session_onRead_def Let_def split: prod.splits read_error.splits)
    then show ?thesis
      using endSession_after [of s s' es1] by (simp add: read_error_log_def fails split: read_error.splits)
  qed
qed

section \<open>The steps of the server\<close>

text \<open>Where the one token of a session is, its phase.\<close>

lemma phase_found:
  assumes "one_token env sv i"
  shows "cn_start (sv_conns sv ! i) \<Longrightarrow> phase_of env sv i = Starting"
    and "cn_reading (sv_conns sv ! i) \<noteq> None \<Longrightarrow> phase_of env sv i = Reading"
    and "cn_writing (sv_conns sv ! i) \<noteq> None \<Longrightarrow> phase_of env sv i = Writing"
    and "0 < pooled env sv i \<Longrightarrow> phase_of env sv i = Computing"
    and "0 < posted_for sv i \<Longrightarrow> phase_of env sv i = Answered"
  using assms
  by (auto simp: one_token_def outstanding_def conn_ops_def elsewhere_split phase_of_def Let_def of_bool_def
      split: if_splits)

definition advances :: "'f server_env \<Rightarrow> 'f server \<Rightarrow> 'f server \<Rightarrow> nat \<Rightarrow> bool" where
  "advances env sv sv' i \<longleftrightarrow> session_of env sv' i = session_of env sv i \<or>
     session_step (sv_draining sv) (session_of env sv i) (session_of env sv' i)"

lemma session_of_same_fields:
  "sv_conns sv' = sv_conns sv \<Longrightarrow> sv_pool sv' = sv_pool sv \<Longrightarrow> sv_posted sv' = sv_posted sv \<Longrightarrow>
    session_of env sv' i = session_of env sv i"
  by (intro session_same) (simp_all add: pooled_def posted_for_def)

lemma advances_same:
  "sv_conns sv' = sv_conns sv \<Longrightarrow> sv_pool sv' = sv_pool sv \<Longrightarrow> sv_posted sv' = sv_posted sv \<Longrightarrow> advances env sv sv' i"
  unfolding advances_def by (intro disjI1 session_of_same_fields)

lemma session_of_elsewhere:
  "i < length (sv_conns sv) \<Longrightarrow> j \<noteq> i \<Longrightarrow> session_of env (update_conn i f sv) j = session_of env sv j"
  by (intro session_same) (simp_all add: pooled_def posted_for_def)

lemma relay_advances:
  assumes "protocol env sv" and "i < length (sv_conns sv)"
    and "conn_ops (f (sv_conns sv ! i)) + 1 = conn_ops (sv_conns sv ! i)"
    and "cn_session (f (sv_conns sv ! i)) = cn_session (sv_conns sv ! i)"
    and "h (cn_session (sv_conns sv ! i)) = (s, es)"
    and "session_step (sv_draining sv) (session_of env sv i) (phase_after es, s)"
  shows "advances env sv (run_handler now i h (update_conn i f sv)) j"
proof -
  have hand: "in_hand env (update_conn i f sv) i" by (rule taken) (use assms in simp_all)
  have run: "h (cn_session (sv_conns (update_conn i f sv) ! i)) = (s, es)" using assms(2,4,5) by simp
  show ?thesis
  proof (cases "j = i")
    case True
    then show ?thesis using run_handler_phase(1) [where h = h, OF hand run] assms(6) by (simp add: advances_def)
  next
    case False
    then show ?thesis
      using run_handler_phase(2) [where h = h, OF hand run False] session_of_elsewhere [OF assms(2) False]
      by (simp add: advances_def)
  qed
qed

lemma bystander_advances:
  assumes "i < length (sv_conns sv)" and "same_ops (sv_conns sv ! i) (f (sv_conns sv ! i))"
    and "cn_session (f (sv_conns sv ! i)) = cn_session (sv_conns sv ! i)"
    and "h (cn_session (sv_conns sv ! i)) = (s, es)" and "phase_after es = Resting"
    and "\<And>ph. s \<noteq> cn_session (sv_conns sv ! i) \<Longrightarrow>
      session_step (sv_draining sv) (ph, cn_session (sv_conns sv ! i)) (ph, s)"
  shows "advances env sv (run_handler now i h (update_conn i f sv)) j"
proof -
  let ?sv = "update_conn i f sv"
  have run: "i < length (sv_conns ?sv)" "h (cn_session (sv_conns ?sv ! i)) = (s, es)" using assms(1,3,4) by simp_all
  have same: "session_of env ?sv i = session_of env sv i"
    using assms(1-3) by (intro session_cong) (simp_all add: pooled_def posted_for_def)
  show ?thesis
  proof (cases "j = i")
    case True
    then show ?thesis
      using bystander_phase(1) [where h = h, OF run assms(5)] same assms(6) [of "phase_of env sv i"]
      by (cases "s = cn_session (sv_conns sv ! i)") (simp_all add: advances_def session_of_def)
  next
    case False
    then show ?thesis
      using bystander_phase(2) [where h = h, OF run assms(5) False] session_of_elsewhere [OF assms(1) False]
      by (simp add: advances_def)
  qed
qed

text \<open>The events of a session.\<close>

lemma start_advances:
  assumes "server_next env now (Sv_start i) sv = Some sv'" and "protocol env sv"
  shows "advances env sv sv' j"
  using assms(1) unfolding server_next.simps
proof (rule conn_event_cases)
  assume i: "i < length (sv_conns sv)" "cn_start (sv_conns sv ! i)"
    and sv': "sv' = run_handler now i (Session_doRead (se_config env)) (update_conn i (\<lambda>c. c\<lparr>cn_start := False\<rparr>) sv)"
  obtain s and es :: "'a effect list" where run: "Session_doRead (se_config env) (cn_session (sv_conns sv ! i)) = (s, es)" by force
  have "one_token env sv i" using assms(2) i(1) by (simp add: protocol_def)
  then have "session_of env sv i = (Starting, cn_session (sv_conns sv ! i))"
    using phase_found(1) i(2) by (simp add: session_of_def)
  then have "session_step (sv_draining sv) (session_of env sv i) (phase_after es, s)"
    using begins doRead_after [OF run] by simp
  then show ?thesis
    unfolding sv' using i by (intro relay_advances [where h = "Session_doRead (se_config env)", OF assms(2) i(1) _ _ run]) (simp_all add: conn_ops_def)
qed

lemma written_advances:
  assumes "server_next env now (Sv_written i result) sv = Some sv'" and "protocol env sv"
  shows "advances env sv sv' j"
  using assms(1) unfolding server_next.simps
proof (rule conn_event_cases)
  let ?h = "Session_onWrite (se_config env) (sv_draining sv) result"
  assume i: "i < length (sv_conns sv)" "cn_writing (sv_conns sv ! i) \<noteq> None"
    and sv': "sv' = run_handler now i ?h (update_conn i (\<lambda>c. c\<lparr>cn_writing := None\<rparr>) sv)"
  obtain s and es :: "'a effect list" where run: "?h (cn_session (sv_conns sv ! i)) = (s, es)" by force
  have "one_token env sv i" using assms(2) i(1) by (simp add: protocol_def)
  then have "session_of env sv i = (Writing, cn_session (sv_conns sv ! i))"
    using phase_found(3) i(2) by (simp add: session_of_def)
  then have "session_step (sv_draining sv) (session_of env sv i) (phase_after es, s)"
    using onWrite_after [OF run] by simp
  then show ?thesis
    unfolding sv' using i by (intro relay_advances [where h = "Session_onWrite (se_config env) (sv_draining sv) result", OF assms(2) i(1) _ _ run]) (simp_all add: conn_ops_def)
qed

lemma timer_advances:
  assumes "server_next env now (Sv_timer i aborted) sv = Some sv'"
  shows "advances env sv sv' j"
  using assms unfolding server_next.simps
proof (rule conn_event_cases)
  assume i: "i < length (sv_conns sv)"
    and sv': "sv' = run_handler now i (Session_onTimeout aborted) (update_conn i (\<lambda>c. c\<lparr>cn_waits := cn_waits c - 1\<rparr>) sv)"
  obtain s and es :: "'a effect list" where run: "Session_onTimeout aborted (cn_session (sv_conns sv ! i)) = (s, es)" by force
  show ?thesis
    unfolding sv' using onTimeout_after [OF run] timeout
    by (intro bystander_advances [where h = "Session_onTimeout aborted", OF i _ _ run]) (auto simp: same_ops_def split: if_splits)
qed

lemma close_advances:
  assumes "server_next env now (Sv_close i) sv = Some sv'"
  shows "advances env sv sv' j"
  using assms unfolding server_next.simps
proof (rule conn_event_cases)
  assume i: "i < length (sv_conns sv)"
    and sv': "sv' = run_handler now i Session_close (update_conn i (\<lambda>c. c\<lparr>cn_closes := cn_closes c - 1\<rparr>) sv)"
  obtain s and es :: "'a effect list" where run: "Session_close (cn_session (sv_conns sv ! i)) = (s, es)" by force
  show ?thesis
    unfolding sv' using close_after [OF run] closes
    by (intro bystander_advances [where h = "Session_close", OF i _ _ run]) (auto simp: same_ops_def split: if_splits)
qed

text \<open>A request: to the pool, or refused, or answered at once.\<close>

lemma process_phases:
  assumes "process_request env fs now i req priority sv = Some sv'" and "in_hand env sv i"
  defines "s \<equiv> cn_session (sv_conns sv ! i)"
  shows "session_of env sv' i \<in> {(Computing, s), (Answered, s), after_answer True s, after_answer False s}"
    and "j \<noteq> i \<Longrightarrow> session_of env sv' j = session_of env sv j"
proof -
  note flags = in_hand_flags [OF assms(2)]
  have inv: "tq_inv (tp_queue (sv_pool sv))" using assms(2) by (simp add: in_hand_def addressed_def)
  from assms(1) obtain pool posted direct where proc: "RequestProcessor_process (se_beast env) (se_json env)
        (HttpServer_handle env fs (sv_pool sv)) (sv_routes sv) now req priority i (sv_pool sv) = Some (pool, posted, direct)"
    and sv': "sv' = fold (deliver env now) direct (sv\<lparr>sv_pool := pool, sv_posted := sv_posted sv @ posted\<rparr>)"
    by (rule process_request_cases)
  have "session_of env sv' i \<in> {(Computing, s), (Answered, s), after_answer True s, after_answer False s} \<and>
      (j \<noteq> i \<longrightarrow> session_of env sv' j = session_of env sv j)" for j
    using proc inv
  proof (cases rule: process_outcome)
    case queued
    then have "sv' = sv\<lparr>sv_pool := pool\<rparr>" using sv' by simp
    moreover have "pooled env (sv\<lparr>sv_pool := pool\<rparr>) j = pooled env sv j + of_bool (j = i)" for j
      using queued(1) by (simp add: pooled_def)
    moreover have "j \<noteq> i \<Longrightarrow> session_of env (sv\<lparr>sv_pool := pool\<rparr>) j = session_of env sv j"
      using calculation(2) [of j] by (intro session_same) (simp_all add: posted_for_def)
    ultimately show ?thesis using flags by (simp add: session_of_def phase_of_def s_def)
  next
    case (refused d)
    then have "sv' = sv\<lparr>sv_pool := pool, sv_posted := sv_posted sv @ [d]\<rparr>" using sv' by simp
    moreover have "pooled env (sv\<lparr>sv_pool := pool, sv_posted := sv_posted sv @ [d]\<rparr>) j = pooled env sv j"
      "posted_for (sv\<lparr>sv_pool := pool, sv_posted := sv_posted sv @ [d]\<rparr>) j = posted_for sv j + of_bool (j = i)" for j
      using refused by (simp_all add: pooled_def posted_for_def)
    moreover have "j \<noteq> i \<Longrightarrow> session_of env (sv\<lparr>sv_pool := pool, sv_posted := sv_posted sv @ [d]\<rparr>) j = session_of env sv j"
      using calculation(2,3) [of j] by (intro session_same) simp_all
    ultimately show ?thesis using flags by (simp add: session_of_def phase_of_def s_def)
  next
    case (answered d)
    define res keep where "res = fst (HttpServer_sendResponse env d)" and "keep = snd (HttpServer_sendResponse env d)"
    have after: "sv' = run_handler now i (Session_sendResponse res keep) sv"
      using answered sv' by (simp add: deliver_run_handler res_def keep_def)
    obtain s' es where run: "Session_sendResponse res keep (cn_session (sv_conns sv ! i)) = (s', es)" by force
    have "session_of env sv' i = after_answer keep s"
      using run_handler_phase(1) [where h = "Session_sendResponse res keep", OF assms(2) run] sendResponse_after [OF run]
      by (simp add: after s_def)
    moreover have "j \<noteq> i \<Longrightarrow> session_of env sv' j = session_of env sv j"
      unfolding after by (rule run_handler_phase(2) [where h = "Session_sendResponse res keep", OF assms(2) run])
    ultimately show ?thesis by (cases keep) simp_all
  qed
  then show "session_of env sv' i \<in> {(Computing, s), (Answered, s), after_answer True s, after_answer False s}"
    "j \<noteq> i \<Longrightarrow> session_of env sv' j = session_of env sv j"
    by blast+
qed

lemma request_steps:
  assumes "r \<in> {(Computing, s1), (Answered, s1), after_answer True s1, after_answer False s1}"
    and "s1 = s\<lparr>ss_requestCount := ss_requestCount s + 1\<rparr>"
  shows "session_step draining (Reading, s) r"
  using assms by (auto intro: request_queued request_refused request_answered)

lemma read_advances:
  assumes "server_next env now (Sv_read i result fs) sv = Some sv'" and "protocol env sv"
  shows "advances env sv sv' j"
  using assms(1)
proof (cases rule: read_event_cases)
  case (no_request s es n)
  let ?sv = "update_conn i (\<lambda>c. c\<lparr>cn_reading := None\<rparr>) (sv\<lparr>sv_nonZeroCounter := n\<rparr>)"
  have "one_token env sv i" using assms(2) no_request(1) by (simp add: protocol_def)
  then have before: "session_of env sv i = (Reading, cn_session (sv_conns sv ! i))"
    using phase_found(2) no_request(2) by (simp add: session_of_def)
  have sv': "sv' = io_effects now i es (update_conn i (\<lambda>c. c\<lparr>cn_session := s\<rparr>) ?sv)"
    using no_request(7) read_session [of i "sv\<lparr>sv_nonZeroCounter := n\<rparr>" s] no_request(1) by simp
  note after = handler_phase [OF read_in_hand [OF assms(2) no_request(1,2), of n] sv']
  show ?thesis
  proof (cases "j = i")
    case True
    then show ?thesis using after(1) onRead_after [OF no_request(8,6)] before by (simp add: advances_def)
  next
    case False
    have "session_of env (sv\<lparr>sv_nonZeroCounter := n\<rparr>) j = session_of env sv j"
      by (rule session_of_same_fields) simp_all
    then show ?thesis
      using after(2) [OF False] session_of_elsewhere [of i "sv\<lparr>sv_nonZeroCounter := n\<rparr>" j] no_request(1) False
      by (simp add: advances_def)
  qed
next
  case (a_request req priority quiet n)
  let ?s = "(cn_session (sv_conns sv ! i))\<lparr>ss_requestCount := ss_requestCount (cn_session (sv_conns sv ! i)) + 1\<rparr>"
  let ?on = "io_effects now i quiet (update_conn i (\<lambda>c. c\<lparr>cn_reading := None, cn_session := ?s\<rparr>) (sv\<lparr>sv_nonZeroCounter := n\<rparr>))"
  have "one_token env sv i" using assms(2) a_request(1) by (simp add: protocol_def)
  then have before: "session_of env sv i = (Reading, cn_session (sv_conns sv ! i))"
    using phase_found(2) a_request(2) by (simp add: session_of_def)
  have s: "cn_session (sv_conns ?on ! i) = ?s" using a_request(1) by (simp add: quiet_effects(1) [OF a_request(4)])
  note after = process_phases [OF a_request(5) request_in_hand [OF assms(2) a_request(1,2,4)], unfolded s]
  show ?thesis
  proof (cases "j = i")
    case True
    then show ?thesis using request_steps [OF after(1) refl] before by (simp add: advances_def)
  next
    case False
    have "session_of env ?on j = session_of env sv j"
      using a_request(1) False
      by (intro session_same) (simp_all add: quiet_effects(1) [OF a_request(4)] pooled_def posted_for_def)
    then show ?thesis using after(2) [OF False] by (simp add: advances_def)
  qed
qed

text \<open>The delivery of a response, and the workers.\<close>

lemma deliver_advances:
  assumes "k < length (sv_posted sv)" and "protocol env sv"
  shows "advances env sv (deliver env now (sv_posted sv ! k)
    (sv\<lparr>sv_posted := take k (sv_posted sv) @ drop (Suc k) (sv_posted sv)\<rparr>)) j"
proof -
  define d i where "d = sv_posted sv ! k" and "i = dl_session d"
  let ?sv = "sv\<lparr>sv_posted := take k (sv_posted sv) @ drop (Suc k) (sv_posted sv)\<rparr>"
  let ?h = "Session_sendResponse (fst (HttpServer_sendResponse env d)) (snd (HttpServer_sendResponse env d))"
  have hand: "in_hand env ?sv i" using delivery_in_hand [OF assms(2,1)] by (simp add: i_def d_def)
  have count: "posted_for sv j = posted_for ?sv j + of_bool (i = j)" for j
    using filter_length_nth [OF assms(1)] by (simp add: posted_for_def i_def d_def)
  have "i < length (sv_conns sv)" using hand by (simp add: in_hand_def)
  then have "one_token env sv i" using assms(2) by (simp add: protocol_def)
  then have before: "session_of env sv i = (Answered, cn_session (sv_conns sv ! i))"
    using phase_found(5) [of env sv i] count [of i] by (simp add: session_of_def)
  obtain s and es :: "'a effect list" where run: "?h (cn_session (sv_conns ?sv ! i)) = (s, es)" by force
  have sv': "deliver env now d ?sv = run_handler now i ?h ?sv" by (simp add: deliver_run_handler i_def)
  have "advances env sv (run_handler now i ?h ?sv) j"
  proof (cases "j = i")
    case True
    then show ?thesis
      using run_handler_phase(1) [where h = ?h, OF hand run] sendResponse_after [OF run] before answered
      by (simp add: advances_def)
  next
    case False
    have "session_of env ?sv j = session_of env sv j"
      using count [of j] False by (intro session_same) (simp_all add: pooled_def)
    then show ?thesis using run_handler_phase(2) [where h = ?h, OF hand run False] by (simp add: advances_def)
  qed
  then show ?thesis by (simp only: sv' flip: d_def)
qed

lemma pop_advances:
  assumes "protocol env sv" and "k < length (tp_workers (sv_pool sv))"
    and "wk_pc (tp_workers (sv_pool sv) ! k) = Popping" and "worker_pop now k (sv_pool sv) = Some p"
  shows "advances env sv (sv\<lparr>sv_pool := p\<rparr>) j"
proof -
  have "pool_tasks p = pool_tasks (sv_pool sv)"
    using pool_tasks_pop(1) [OF assms(2-4)] assms(1) by (simp add: protocol_def addressed_def)
  then have "session_of env (sv\<lparr>sv_pool := p\<rparr>) j = session_of env sv j"
    by (intro session_same) (simp_all add: pooled_def posted_for_def)
  then show ?thesis by (simp add: advances_def)
qed

lemma execute_advances:
  assumes "protocol env sv" and "k < length (tp_workers (sv_pool sv))"
    and "worker_execute env now k sv = Some sv'"
  shows "advances env sv sv' j"
proof -
  have "addressed env sv" using assms(1) by (simp add: protocol_def)
  from this assms(2,3) show ?thesis
  proof (rule executed)
    fix req i d assume after: "i < length (sv_conns sv)" "sv_conns sv' = sv_conns sv"
      "pool_tasks (sv_pool sv) = add_mset (compute_task (se_beast env) (se_json env) req i) (pool_tasks (sv_pool sv'))"
      "sv_posted sv' = sv_posted sv @ [d]" "dl_session d = i"
    have count: "pooled env sv j = pooled env sv' j + of_bool (i = j)"
      "posted_for sv' j = posted_for sv j + of_bool (i = j)" for j
      using after by (simp_all add: pooled_def posted_for_def)
    show ?thesis
    proof (cases "j = i")
      case True
      have token: "one_token env sv i" using assms(1) after(1) by (simp add: protocol_def)
      then have before: "session_of env sv i = (Computing, cn_session (sv_conns sv ! i))"
        using phase_found(4) [of env sv i] count(1) [of i] by (simp add: session_of_def)
      have "one_token env sv' i"
        using protocol_execute [OF assms] after(1,2) by (simp add: protocol_def)
      then have "session_of env sv' i = (Answered, cn_session (sv_conns sv ! i))"
        using phase_found(5) [of env sv' i] count(2) [of i] after(2) by (simp add: session_of_def)
      then show ?thesis using True before computed by (simp add: advances_def)
    next
      case False
      then have "session_of env sv' j = session_of env sv j"
        using count [of j] after(2) by (intro session_same) simp_all
      then show ?thesis by (simp add: advances_def)
    qed
  qed
qed

section \<open>The refinement\<close>

lemma insert_advances:
  assumes "j < length (sv_conns sv)"
  shows "advances env sv (insert_session now cfg (sv\<lparr>sv_accepting := n\<rparr>)) j"
proof -
  have "session_of env (insert_session now cfg (sv\<lparr>sv_accepting := n\<rparr>)) j = session_of env sv j"
    using assms by (intro session_same) (simp_all add: nth_append pooled_def posted_for_def)
  then show ?thesis by (simp add: advances_def)
qed

lemma drain_timer_advances: "advances env sv (on_drain_timer now (sv\<lparr>sv_drainTimer := False\<rparr>)) j"
proof -
  define sv1 where "sv1 = server_log now ''Drain timeout reached, forcing remaining sessions closed'' WARNING
    (sv\<lparr>sv_drainTimer := False\<rparr>)"
  have sv1: "sv_conns sv1 = sv_conns sv" "sv_pool sv1 = sv_pool sv" "sv_posted sv1 = sv_posted sv"
    by (simp_all add: sv1_def)
  obtain n where "sv_conns (close_sessions sv1) ! j = (sv_conns sv1 ! j)\<lparr>cn_closes := n\<rparr>"
    using close_sessions_conn by blast
  then have "session_of env (checkDrainComplete now (close_sessions sv1)) j = session_of env sv j"
    by (intro session_cong) (simp_all add: same_ops_def sv1 pooled_def posted_for_def)
  then show ?thesis by (simp add: advances_def on_drain_timer_def sv1_def)
qed

lemma step_advances:
  assumes "server_next env now ev sv = Some sv'" and "protocol env sv" and "j < length (sv_conns sv)"
  shows "advances env sv sv' j"
proof (cases ev)
  case Sv_insert
  then show ?thesis using assms insert_advances by (auto split: if_splits)
next
  case (Sv_start i)
  then show ?thesis using assms start_advances by blast
next
  case (Sv_read i result fs)
  then show ?thesis using assms read_advances by blast
next
  case (Sv_written i result)
  then show ?thesis using assms written_advances by blast
next
  case (Sv_timer i aborted)
  then show ?thesis using assms timer_advances by blast
next
  case (Sv_close i)
  then show ?thesis using assms close_advances by blast
next
  case (Sv_deliver k)
  then show ?thesis using assms deliver_advances by (auto simp: io_event_def split: if_splits)
next
  case (Sv_worker_pop k)
  then show ?thesis using assms pop_advances by (auto simp: at_pop_iff split: if_splits)
next
  case (Sv_worker_execute k)
  then show ?thesis using assms execute_advances by (auto split: if_splits)
next
  case Sv_drain_timer
  then show ?thesis using assms drain_timer_advances by (auto simp: io_event_def split: if_splits)
qed (use assms(1) in \<open>auto simp: io_event_def on_accept_def on_signal_def intro!: advances_same
    split: if_splits accept_result.splits\<close>)

text \<open>Only the insertion makes a session, and it makes it as the automaton starts.\<close>

lemma conns_length:
  assumes "server_next env now ev sv = Some sv'" and "\<not> length (sv_conns sv') = length (sv_conns sv)"
  shows "ev = Sv_insert"
proof (cases ev)
  case (Sv_read i result fs)
  have "length (sv_conns (fold (deliver env now) ds sv)) = length (sv_conns sv)" for ds and sv :: "'a server"
    by (induction ds arbitrary: sv) (simp_all add: deliver_def Let_def case_prod_beta)
  note kept = this
  have "length (sv_conns sv') = length (sv_conns sv)"
    using assms(1) [unfolded Sv_read]
  proof (cases rule: read_event_cases)
    case (a_request req priority quiet n)
    from a_request(5) show ?thesis by (cases rule: process_request_cases) (simp add: kept)
  qed simp
  then show ?thesis using assms(2) by contradiction
qed (use assms in \<open>auto simp: io_event_def conn_event_def on_accept_def on_signal_def on_drain_timer_def run_handler_def
    deliver_def worker_execute_def Let_def case_prod_beta split: if_splits accept_result.splits worker_pc.splits
      sum.splits option.splits\<close>)

text \<open>
  C2. The server implements one automaton per session: every step of any thread leaves a session as
  it is or is one transition of its automaton (\<open>begins\<close>, a request queued, refused or answered at
  once, \<open>computed\<close>, \<open>answered\<close>, \<open>continues\<close>, \<open>finishes\<close>, a failed read, a timeout, a close), and a
  new session begins in the first phase with the limits of the configuration.
\<close>

theorem HttpServer_refines_automaton:
  assumes "server_reach env sv" and "server_next env now ev sv = Some sv'" and "i < length (sv_conns sv')"
  shows "if i < length (sv_conns sv)
    then session_of env sv' i = session_of env sv i \<or>
      session_step (sv_draining sv) (session_of env sv i) (session_of env sv' i)
    else session_of env sv' i = (Starting,
      Session_new (cf_max_keepalive_requests (se_config env)) (cf_enable_keepalive (se_config env)))"
proof (cases "i < length (sv_conns sv)")
  case True
  then show ?thesis
    using step_advances [OF assms(2) protocol.holds [OF assms(1)]] by (simp add: advances_def)
next
  case False
  then have "ev = Sv_insert" using conns_length [OF assms(2)] assms(3) by auto
  then have sv': "sv' = insert_session now (se_config env) (sv\<lparr>sv_accepting := sv_accepting sv - 1\<rparr>)"
    using assms(2) by (simp split: if_splits)
  then have "i = length (sv_conns sv)" using assms(3) False by simp
  then show ?thesis using False by (simp add: sv' session_of_def phase_of_def)
qed

text \<open>A request for a page that no route has, answered at once: reading, and then writing.\<close>

definition page_request :: "(string \<times> string) list request" where
  "page_request = \<lparr>rq_method = Verb_get, rq_target = ''/page'', rq_fields = [], rq_body = []\<rparr>"

definition page_events :: "(string \<times> string) list server_event list" where
  "page_events = [Sv_accept Accept_done, Sv_insert, Sv_start 0]"

lemma page_run:
  "map_option (\<lambda>sv. map (\<lambda>c. (cn_start c, cn_reading c = None)) (sv_conns sv))
    (example_run example_config page_events) = Some [(False, False)]"
  "map_option (\<lambda>sv. map (\<lambda>c. (cn_start c, cn_reading c = None, cn_writing c = None)) (sv_conns sv))
    (Option.bind (example_run example_config page_events)
      (server_next (example_server_env example_config) 0 (Sv_read 0 (Read_request page_request) (still example_fs)))) =
    Some [(False, True, False)]"
  by code_simp+

lemma HttpServer_refines_automaton_witness:
  "\<exists>sv sv'. example_run example_config page_events = Some sv \<and>
    fst (session_of (example_server_env example_config) sv 0) = Reading \<and>
    fst (session_of (example_server_env example_config) sv' 0) = Writing \<and>
    session_step (sv_draining sv) (session_of (example_server_env example_config) sv 0)
      (session_of (example_server_env example_config) sv' 0)"
proof -
  let ?env = "example_server_env example_config"
  obtain sv where run: "example_run example_config page_events = Some sv"
    and before: "map (\<lambda>c. (cn_start c, cn_reading c = None)) (sv_conns sv) = [(False, False)]"
    using page_run(1) by auto
  obtain sv' where step: "server_next ?env 0 (Sv_read 0 (Read_request page_request) (still example_fs)) sv = Some sv'"
    and after: "map (\<lambda>c. (cn_start c, cn_reading c = None, cn_writing c = None)) (sv_conns sv') = [(False, True, False)]"
    using page_run(2) run by auto
  have phases: "fst (session_of ?env sv 0) = Reading" "fst (session_of ?env sv' 0) = Writing"
    using before after by (auto simp: session_of_def phase_of_def map_eq_Cons_conv)
  then have "session_of ?env sv' 0 \<noteq> session_of ?env sv 0" by auto
  moreover have "0 < length (sv_conns sv)" "0 < length (sv_conns sv')"
    using arg_cong [OF before, of length] arg_cong [OF after, of length] by simp_all
  ultimately have "session_step (sv_draining sv) (session_of ?env sv 0) (session_of ?env sv' 0)"
    using HttpServer_refines_automaton [OF example_run_reach [OF run] step, of 0] by simp
  then show ?thesis using run phases by blast
qed

end
