(* ===== verification/Server_Keepalive.thy ===== *)
theory Server_Keepalive
  imports Server_Protocol
begin

text \<open>
  The keep-alive limit: how many requests the server takes from one connection, whatever the
  client, the workers and the other connections do.
\<close>

section \<open>The limit\<close>

text \<open>The requests a connection may have, and what holds of a session that reads one.\<close>

definition request_limit :: "config \<Rightarrow> nat" where
  "request_limit cfg = (if cf_enable_keepalive cfg then max 1 (unat (cf_max_keepalive_requests cfg)) else 1)"

definition may_serve :: "session \<Rightarrow> bool" where
  "may_serve s \<longleftrightarrow> ss_requestCount s = 0 \<or>
     ss_enableKeepalive s \<and> ss_requestCount s < ss_maxKeepaliveRequests s"

definition within_keepalive :: "config \<Rightarrow> 'f conn \<Rightarrow> bool" where
  "within_keepalive cfg c \<longleftrightarrow> served (cn_session c) \<le> request_limit cfg \<and>
     (cn_start c \<or> cn_reading c \<noteq> None \<longrightarrow> may_serve (cn_session c)) \<and>
     ss_maxKeepaliveRequests (cn_session c) = cf_max_keepalive_requests cfg \<and>
     ss_enableKeepalive (cn_session c) = cf_enable_keepalive cfg"

definition keepalive :: "'f server_env \<Rightarrow> 'f server \<Rightarrow> bool" where
  "keepalive env sv \<longleftrightarrow> (\<forall>c \<in> set (sv_conns sv). within_keepalive (se_config env) c)"

lemma keepalive_nth:
  "keepalive env sv \<longleftrightarrow> (\<forall>i < length (sv_conns sv). within_keepalive (se_config env) (sv_conns sv ! i))"
  by (simp add: keepalive_def all_set_conv_all_nth)

lemma served_next:
  assumes "may_serve (cn_session c)" and "within_keepalive cfg c"
  shows "unat (ss_requestCount (cn_session c) + 1) \<le> request_limit cfg"
proof (cases "ss_requestCount (cn_session c) = 0")
  case True
  then show ?thesis by (simp add: request_limit_def)
next
  case False
  then have "ss_enableKeepalive (cn_session c)"
    and less: "ss_requestCount (cn_session c) < ss_maxKeepaliveRequests (cn_session c)"
    using assms(1) by (simp_all add: may_serve_def)
  moreover from less have "unat (ss_requestCount (cn_session c) + 1) \<le> unat (ss_maxKeepaliveRequests (cn_session c))"
    by (metis inc_le word_le_nat_alt)
  ultimately show ?thesis using assms(2) by (simp add: within_keepalive_def request_limit_def)
qed

lemma io_effects_reading:
  assumes "i < length (sv_conns sv)" and "cn_reading (sv_conns (io_effects now i es sv) ! i) \<noteq> None"
  shows "cn_reading (sv_conns sv ! i) \<noteq> None \<or> (\<exists>n. Async_read n \<in> set es)"
  using assms
proof (induction es arbitrary: sv)
  case (Cons e es)
  have "cn_reading (sv_conns (io_effect now i e sv) ! i) \<noteq> None \<Longrightarrow>
      cn_reading (sv_conns sv ! i) \<noteq> None \<or> (\<exists>n. e = Async_read n)"
    using Cons.prems(1) by (cases e) auto
  then show ?case using Cons.IH [of "io_effect now i e sv"] Cons.prems by auto
qed simp

lemma keepalive_handler:
  assumes "keepalive env sv" and "i < length (sv_conns sv)"
    and "handler_ok (cn_session (sv_conns sv ! i)) (s, es)"
    and "\<And>n. Async_read n \<in> set es \<Longrightarrow> may_serve s"
  shows "keepalive env (io_effects now i es (update_conn i (\<lambda>c. c\<lparr>cn_session := s\<rparr>) sv))"
  unfolding keepalive_nth
proof (intro allI impI)
  let ?sv = "update_conn i (\<lambda>c. c\<lparr>cn_session := s\<rparr>) sv"
  let ?after = "io_effects now i es ?sv"
  fix j assume j: "j < length (sv_conns ?after)"
  show "within_keepalive (se_config env) (sv_conns ?after ! j)"
  proof (cases "j = i")
    case True
    have before: "within_keepalive (se_config env) (sv_conns sv ! i)" using assms(1,2) by (simp add: keepalive_nth)
    have i: "i < length (sv_conns ?sv)" using assms(2) by simp
    have may: "may_serve s = may_serve (cn_session (sv_conns sv ! i))"
      using handler_okD(2-4) [OF assms(3)] by (simp add: may_serve_def)
    have "cn_start (sv_conns ?after ! i) = cn_start (sv_conns sv ! i)" "cn_session (sv_conns ?after ! i) = s"
      using assms(2) by (simp_all add: io_effects_conn(1,2) [OF i])
    moreover have "may_serve s" if "cn_reading (sv_conns ?after ! i) \<noteq> None"
      using io_effects_reading [OF i that] assms(2,4) before may by (auto simp: within_keepalive_def)
    ultimately show ?thesis
      using True before may handler_okD(2-4) [OF assms(3)] by (auto simp: within_keepalive_def served_def)
  next
    case False
    then have "sv_conns ?after ! j = sv_conns sv ! j" using assms(2) by (simp add: io_effects_conn(3))
    then show ?thesis using assms(1) j by (simp add: keepalive_nth)
  qed
qed

context session_handler
begin

lemma keepalive_run:
  assumes "keepalive env sv" and "i < length (sv_conns sv)"
    and "\<And>n. Async_read n \<in> set (snd (h (cn_session (sv_conns sv ! i)))) \<Longrightarrow>
      may_serve (fst (h (cn_session (sv_conns sv ! i))))"
  shows "keepalive env (run_handler now i h sv)"
  using keepalive_handler [OF assms(1,2), of "fst (h (cn_session (sv_conns sv ! i)))"
      "snd (h (cn_session (sv_conns sv ! i)))" now] ok [of "cn_session (sv_conns sv ! i)"] assms(3)
  by (simp add: run_handler_def case_prod_beta)

end

lemma handler_reads:
  "fst (Session_doRead cfg s) = s"
  "Async_read n \<notin> set (snd (Session_sendResponse res ka s))"
  "Async_read n \<in> set (snd (Session_onWrite cfg dr w s)) \<Longrightarrow> may_serve (fst (Session_onWrite cfg dr w s))"
  "Async_read n \<notin> set (snd (Session_onTimeout aborted s))"
  "Async_read n \<notin> set (snd (Session_close s))"
  by (auto simp: session_defs may_serve_def split: write_result.splits if_splits)

lemma keepalive_deliver: "keepalive env sv \<Longrightarrow> keepalive env (deliver env now d sv)"
  unfolding deliver_run_handler
  by (cases "dl_session d < length (sv_conns sv)")
    (auto intro!: sendResponse.keepalive_run simp: handler_reads run_sendResponse_beyond)

lemma keepalive_update:
  assumes "keepalive env sv" and "\<And>c. within_keepalive (se_config env) c \<Longrightarrow> within_keepalive (se_config env) (f c)"
  shows "keepalive env (update_conn i f sv)"
  using assms by (cases "i < length (sv_conns sv)") (auto simp: keepalive_nth update_conn_def nth_list_update)

lemma keepalive_same: "keepalive env sv \<Longrightarrow> sv_conns sv' = sv_conns sv \<Longrightarrow> keepalive env sv'"
  by (simp add: keepalive_def)

lemma keepalive_deliver_all: "keepalive env sv \<Longrightarrow> keepalive env (fold (deliver env now) ds sv)"
  by (induction ds arbitrary: sv) (simp_all add: keepalive_deliver)

lemma keepalive_process:
  assumes "process_request env fs now i req priority sv = Some sv'" and "keepalive env sv"
  shows "keepalive env sv'"
  using assms(1)
proof (cases rule: process_request_cases)
  case (1 pool posted direct)
  have "keepalive env (sv\<lparr>sv_pool := pool, sv_posted := sv_posted sv @ posted\<rparr>)"
    by (rule keepalive_same [OF assms(2)]) simp
  then show ?thesis using 1(2) keepalive_deliver_all by blast
qed

lemma keepalive_read:
  assumes "server_next env now (Sv_read i result fs) sv = Some sv'" and "keepalive env sv" and "protocol env sv"
  shows "keepalive env sv'"
  using assms(1)
proof (cases rule: read_event_cases)
  case (no_request s es n)
  let ?sv = "update_conn i (\<lambda>c. c\<lparr>cn_reading := None\<rparr>) (sv\<lparr>sv_nonZeroCounter := n\<rparr>)"
  have "keepalive env ?sv"
    by (intro keepalive_update keepalive_same [OF assms(2)]) (auto simp: within_keepalive_def)
  then have "keepalive env (io_effects now i es (update_conn i (\<lambda>c. c\<lparr>cn_session := s\<rparr>) ?sv))"
    using no_request by (intro keepalive_handler) simp_all
  moreover have "update_conn i (\<lambda>c. c\<lparr>cn_session := s\<rparr>) ?sv =
      update_conn i (\<lambda>c. c\<lparr>cn_reading := None, cn_session := s\<rparr>) (sv\<lparr>sv_nonZeroCounter := n\<rparr>)"
    using no_request(1) by (simp add: update_conn_def)
  ultimately show ?thesis using no_request(7) by simp
next
  case (a_request req priority quiet n)
  let ?c = "sv_conns sv ! i"
  let ?on = "update_conn i (\<lambda>c. c\<lparr>cn_reading := None, cn_session := (cn_session ?c)\<lparr>ss_requestCount :=
      ss_requestCount (cn_session ?c) + 1\<rparr>\<rparr>) (sv\<lparr>sv_nonZeroCounter := n\<rparr>)"
  have c: "within_keepalive (se_config env) ?c" using assms(2) a_request(1) by (simp add: keepalive_nth)
  have "one_token env sv i" using assms(3) a_request(1) by (simp add: protocol_def)
  then have "\<not> cn_start ?c" using a_request(2) by (auto simp: one_token_def outstanding_def conn_ops_def)
  moreover have "may_serve (cn_session ?c)" using c a_request(2) by (simp add: within_keepalive_def)
  then have "unat (ss_requestCount (cn_session ?c) + 1) \<le> request_limit (se_config env)"
    using c by (rule served_next)
  ultimately have "within_keepalive (se_config env) (sv_conns ?on ! i)"
    using c a_request(1) by (simp add: within_keepalive_def served_def)
  then have "keepalive env ?on"
    using assms(2) a_request(1) by (simp add: keepalive_nth)
  then have "keepalive env (io_effects now i quiet ?on)"
    by (rule keepalive_same) (rule quiet_effects(1) [OF a_request(4)])
  then show ?thesis using a_request(5) keepalive_process by blast
qed

lemma keepalive_event:
  assumes "conn_event sv i possible (Some (run_handler now i h (update_conn i f sv))) = Some sv'"
    and "keepalive env sv" and "session_handler h"
    and "\<And>c. within_keepalive (se_config env) c \<Longrightarrow> within_keepalive (se_config env) (f c)"
    and "\<And>c n. possible c \<Longrightarrow> within_keepalive (se_config env) c \<Longrightarrow>
      Async_read n \<in> set (snd (h (cn_session (f c)))) \<Longrightarrow> may_serve (fst (h (cn_session (f c))))"
  shows "keepalive env sv'"
  using assms(1)
proof (rule conn_event_cases)
  assume i: "i < length (sv_conns sv)" "possible (sv_conns sv ! i)"
    and sv': "sv' = run_handler now i h (update_conn i f sv)"
  have "within_keepalive (se_config env) (sv_conns sv ! i)" using assms(2) i(1) by (simp add: keepalive_nth)
  then show ?thesis
    unfolding sv' using i assms(5)
    by (intro session_handler.keepalive_run [OF assms(3)] keepalive_update [OF assms(2) assms(4)]) simp_all
qed

lemma keepalive_insert:
  "keepalive env sv \<Longrightarrow> keepalive env (insert_session now (se_config env) (sv\<lparr>sv_accepting := n\<rparr>))"
  by (auto simp: keepalive_def within_keepalive_def Session_new_def served_def may_serve_def)

lemma keepalive_close_sessions: "keepalive env sv \<Longrightarrow> keepalive env (close_sessions sv)"
  unfolding keepalive_nth
proof (intro allI impI)
  fix j assume "\<forall>i < length (sv_conns sv). within_keepalive (se_config env) (sv_conns sv ! i)"
    "j < length (sv_conns (close_sessions sv))"
  then have "within_keepalive (se_config env) (sv_conns sv ! j)" by simp
  then show "within_keepalive (se_config env) (sv_conns (close_sessions sv) ! j)"
    using close_sessions_conn [of sv j] by (auto simp: within_keepalive_def)
qed

lemma keepalive_step:
  assumes "server_next env now ev sv = Some sv'" and "keepalive env sv" and "protocol env sv"
  shows "keepalive env sv'"
proof (cases ev)
  case (Sv_read i result fs)
  then show ?thesis using keepalive_read assms by blast
next
  case Sv_insert
  then show ?thesis using assms(1) keepalive_insert [OF assms(2)] by (auto split: if_splits)
next
  case (Sv_start i)
  show ?thesis
    by (rule keepalive_event [OF assms(1) [unfolded Sv_start server_next.simps] assms(2) doRead.session_handler_axioms])
      (simp_all add: within_keepalive_def handler_reads(1))
next
  case (Sv_written i result)
  show ?thesis
    by (rule keepalive_event [OF assms(1) [unfolded Sv_written server_next.simps] assms(2) onWrite.session_handler_axioms])
      (auto simp: within_keepalive_def intro: handler_reads(3))
next
  case (Sv_timer i aborted)
  show ?thesis
    by (rule keepalive_event [OF assms(1) [unfolded Sv_timer server_next.simps] assms(2) onTimeout.session_handler_axioms])
      (auto simp: within_keepalive_def handler_reads(4))
next
  case (Sv_close i)
  show ?thesis
    by (rule keepalive_event [OF assms(1) [unfolded Sv_close server_next.simps] assms(2) close.session_handler_axioms])
      (auto simp: within_keepalive_def handler_reads(5))
next
  case (Sv_deliver k)
  have "keepalive env (sv\<lparr>sv_posted := ds\<rparr>)" for ds by (rule keepalive_same [OF assms(2)]) simp
  then show ?thesis
    using Sv_deliver assms(1) by (auto simp: io_event_def intro!: keepalive_deliver split: if_splits)
next
  case (Sv_worker_execute k)
  then show ?thesis
    using assms by (auto simp: worker_execute_def Let_def intro: keepalive_same
        split: if_splits worker_pc.splits sum.splits option.splits)
next
  case Sv_drain_timer
  then have "sv_conns sv' = sv_conns (close_sessions (server_log now
      ''Drain timeout reached, forcing remaining sessions closed'' WARNING (sv\<lparr>sv_drainTimer := False\<rparr>)))"
    using assms(1) by (auto simp: io_event_def on_drain_timer_def split: if_splits)
  moreover have "keepalive env (server_log now
      ''Drain timeout reached, forcing remaining sessions closed'' WARNING (sv\<lparr>sv_drainTimer := False\<rparr>))"
    by (rule keepalive_same [OF assms(2)]) simp
  ultimately show ?thesis using keepalive_close_sessions keepalive_same by blast
qed (use assms in \<open>auto simp: io_event_def on_accept_def on_signal_def intro: keepalive_same
    split: if_splits accept_result.splits\<close>)

interpretation keepalive: server_invariant env "keepalive env" for env
proof
  fix now fs and sv :: "'a server"
  assume "HttpServer_start now env fs = Some (Inr sv)"
  then show "keepalive env sv" by (simp add: keepalive_def start_fields)
next
  fix sv now ev and sv' :: "'a server"
  assume "server_reach env sv" "keepalive env sv" "server_next env now ev sv = Some sv'"
  then show "keepalive env sv'" using keepalive_step protocol.holds by blast
qed

section \<open>The requests that are read\<close>

text \<open>A run with its events, and the requests that its events read from a connection.\<close>

inductive server_events :: "'f server_env \<Rightarrow> 'f server_event list \<Rightarrow> 'f server \<Rightarrow> bool" for env where
  init: "HttpServer_start now env fs = Some (Inr sv) \<Longrightarrow> server_events env [] sv"
| step: "server_events env evs sv \<Longrightarrow> server_next env now ev sv = Some sv' \<Longrightarrow> server_events env (evs @ [ev]) sv'"

lemma events_reach: "server_events env evs sv \<Longrightarrow> server_reach env sv"
  by (induction rule: server_events.induct) (auto intro: server_reach.intros)

fun reads_request :: "nat \<Rightarrow> 'f server_event \<Rightarrow> bool" where
  "reads_request i (Sv_read j (Read_request req) fs) \<longleftrightarrow> j = i"
| "reads_request i _ \<longleftrightarrow> False"

definition requests_read :: "nat \<Rightarrow> 'f server_event list \<Rightarrow> nat" where
  "requests_read i evs = length (filter (reads_request i) evs)"

lemma requests_read_snoc: "requests_read i (evs @ [ev]) = requests_read i evs + of_bool (reads_request i ev)"
  by (simp add: requests_read_def)

text \<open>The counters of the sessions; a session that does not exist has had no request.\<close>

definition tally :: "'f server \<Rightarrow> nat \<Rightarrow> nat" where
  "tally sv i = (if i < length (sv_conns sv) then served (cn_session (sv_conns sv ! i)) else 0)"

lemma tally_same: "sv_conns sv' = sv_conns sv \<Longrightarrow> tally sv' = tally sv"
  by (simp add: tally_def fun_eq_iff)

lemma tally_fields:
  "tally (sv\<lparr>sv_posted := ds\<rparr>) = tally sv"
  "tally (sv\<lparr>sv_pool := p\<rparr>) = tally sv"
  by (rule tally_same; simp)+

lemma tally_update:
  "(\<And>c. ss_requestCount (cn_session (f c)) = ss_requestCount (cn_session c)) \<Longrightarrow> tally (update_conn i f sv) = tally sv"
  by (cases "i < length (sv_conns sv)")
    (simp_all add: tally_def fun_eq_iff served_def update_conn_def nth_list_update list_update_beyond)

lemma tally_io_effects: "i < length (sv_conns sv) \<Longrightarrow> tally (io_effects now i es sv) = tally sv"
  by (simp add: tally_def fun_eq_iff io_effects_conn(1))

context session_handler
begin

lemma tally_run: "i < length (sv_conns sv) \<Longrightarrow> tally (run_handler now i h sv) = tally sv"
  using handler_okD(2) [of "cn_session (sv_conns sv ! i)" "fst (h (cn_session (sv_conns sv ! i)))"
      "snd (h (cn_session (sv_conns sv ! i)))"] ok [of "cn_session (sv_conns sv ! i)"]
  by (auto simp: run_handler_def case_prod_beta tally_io_effects tally_def fun_eq_iff served_def)

end

lemma tally_event:
  assumes "conn_event sv i possible (Some (run_handler now i h (update_conn i f sv))) = Some sv'"
    and "session_handler h" and "\<And>c. cn_session (f c) = cn_session c"
  shows "tally sv' = tally sv"
  using assms(1)
proof (rule conn_event_cases)
  assume "i < length (sv_conns sv)" "sv' = run_handler now i h (update_conn i f sv)"
  then show ?thesis using session_handler.tally_run [OF assms(2)] assms(3) by (simp add: tally_update)
qed

lemma tally_deliver: "tally (deliver env now d sv) = tally sv"
  unfolding deliver_run_handler
  by (cases "dl_session d < length (sv_conns sv)") (simp_all add: sendResponse.tally_run run_sendResponse_beyond)

lemma tally_deliver_all: "tally (fold (deliver env now) ds sv) = tally sv"
  by (induction ds arbitrary: sv) (simp_all add: tally_deliver)

lemma tally_close_sessions: "tally (close_sessions sv) = tally sv"
proof -
  have "tally (fold (\<lambda>i. update_conn i (\<lambda>c. c\<lparr>cn_closes := cn_closes c + 1\<rparr>)) is s) = tally s" for "is" and s :: "'a server"
    by (induction "is" arbitrary: s) (simp_all add: tally_update)
  then show ?thesis by (simp add: close_sessions_def)
qed

lemma less_not_max: "(k :: 'a :: len word) < m \<Longrightarrow> k + 1 \<noteq> 0"
  by (metis eq_neg_iff_add_eq_0 word_order.extremum_strict)

text \<open>Reading a request adds one to the counter of its session, which does not wrap.\<close>

lemma tally_request:
  assumes "server_next env now (Sv_read i (Read_request req) fs) sv = Some sv'" and "keepalive env sv"
  shows "tally sv' j = tally sv j + of_bool (j = i)"
  using assms(1)
proof (cases rule: read_event_cases)
  case (no_request s es n)
  then show ?thesis by (auto simp: Session_onRead_def Let_def split: option.splits prod.splits)
next
  case (a_request req' priority quiet n)
  let ?c = "sv_conns sv ! i"
  let ?on = "update_conn i (\<lambda>c. c\<lparr>cn_reading := None, cn_session := (cn_session ?c)\<lparr>ss_requestCount :=
      ss_requestCount (cn_session ?c) + 1\<rparr>\<rparr>) (sv\<lparr>sv_nonZeroCounter := n\<rparr>)"
  have "may_serve (cn_session ?c)"
    using assms(2) a_request(1,2) by (simp add: keepalive_nth within_keepalive_def)
  then have "ss_requestCount (cn_session ?c) + 1 \<noteq> 0"
    using less_not_max [of "ss_requestCount (cn_session ?c)"] by (auto simp: may_serve_def)
  then have "unat (ss_requestCount (cn_session ?c) + 1) = unat (ss_requestCount (cn_session ?c)) + 1"
    using unatSuc [of "ss_requestCount (cn_session ?c)"] by (simp add: add.commute)
  then have "tally ?on j = tally sv j + of_bool (j = i)"
    using a_request(1) by (cases "j = i") (simp_all add: tally_def served_def)
  moreover have "tally sv' = tally ?on"
    using a_request(5)
  proof (cases rule: process_request_cases)
    case (1 pool posted direct)
    have "sv_conns (io_effects now i quiet ?on) = sv_conns ?on" by (rule quiet_effects(1) [OF a_request(4)])
    then have "tally (io_effects now i quiet ?on) = tally ?on" by (rule tally_same)
    then show ?thesis by (simp add: 1(2) tally_deliver_all tally_fields)
  qed
  ultimately show ?thesis by simp
qed

lemma tally_step:
  assumes "server_next env now ev sv = Some sv'" and "keepalive env sv"
  shows "tally sv' i = tally sv i + of_bool (reads_request i ev)"
proof (cases ev)
  case (Sv_read j result fs)
  show ?thesis
  proof (cases result)
    case (Read_request req)
    show ?thesis
      using tally_request [OF assms(1) [unfolded Sv_read Read_request] assms(2), of i]
      by (simp add: Sv_read Read_request eq_commute)
  next
    case (Read_error e)
    from assms(1) [unfolded Sv_read Read_error] show ?thesis
    proof (cases rule: read_event_cases)
      case (no_request s es n)
      have "ss_requestCount s = ss_requestCount (cn_session (sv_conns sv ! j))"
        using handler_okD(2) [OF no_request(3)] .
      then have "tally (update_conn j (\<lambda>c. c\<lparr>cn_reading := None, cn_session := s\<rparr>) (sv\<lparr>sv_nonZeroCounter := n\<rparr>)) = tally sv"
        using no_request(1) by (auto simp: tally_def fun_eq_iff served_def)
      then show ?thesis using no_request(1,7) Sv_read Read_error by (simp add: tally_io_effects)
    qed (simp add: Sv_read Read_error)
  qed
next
  case Sv_insert
  then show ?thesis
    using assms(1) by (auto simp: tally_def nth_append served_def Session_new_def less_Suc_eq split: if_splits)
next
  case (Sv_start j)
  have "tally sv' = tally sv"
    by (rule tally_event [OF assms(1) [unfolded Sv_start server_next.simps] doRead.session_handler_axioms]) simp
  then show ?thesis by (simp add: Sv_start)
next
  case (Sv_written j result)
  have "tally sv' = tally sv"
    by (rule tally_event [OF assms(1) [unfolded Sv_written server_next.simps] onWrite.session_handler_axioms]) simp
  then show ?thesis by (simp add: Sv_written)
next
  case (Sv_timer j aborted)
  have "tally sv' = tally sv"
    by (rule tally_event [OF assms(1) [unfolded Sv_timer server_next.simps] onTimeout.session_handler_axioms]) simp
  then show ?thesis by (simp add: Sv_timer)
next
  case (Sv_close j)
  have "tally sv' = tally sv"
    by (rule tally_event [OF assms(1) [unfolded Sv_close server_next.simps] close.session_handler_axioms]) simp
  then show ?thesis by (simp add: Sv_close)
next
  case (Sv_deliver k)
  have "sv' = deliver env now (sv_posted sv ! k)
      (sv\<lparr>sv_posted := take k (sv_posted sv) @ drop (Suc k) (sv_posted sv)\<rparr>)"
    using assms(1) [unfolded Sv_deliver server_next.simps io_event_def] by (simp split: if_splits)
  then show ?thesis by (simp add: tally_deliver tally_fields Sv_deliver)
next
  case Sv_drain_timer
  then have "sv_conns sv' = sv_conns (close_sessions (server_log now
      ''Drain timeout reached, forcing remaining sessions closed'' WARNING (sv\<lparr>sv_drainTimer := False\<rparr>)))"
    using assms(1) by (auto simp: io_event_def on_drain_timer_def split: if_splits)
  then have "tally sv' = tally (close_sessions (server_log now
      ''Drain timeout reached, forcing remaining sessions closed'' WARNING (sv\<lparr>sv_drainTimer := False\<rparr>)))"
    by (rule tally_same)
  also have "\<dots> = tally sv" by (simp only: tally_close_sessions) (rule tally_same, simp)
  finally have "tally sv' = tally sv" .
  then show ?thesis by (simp add: Sv_drain_timer)
next
  case (Sv_worker_execute k)
  then have "sv_conns sv' = sv_conns sv"
    using assms(1) by (auto simp: worker_execute_def Let_def split: if_splits worker_pc.splits sum.splits option.splits)
  then show ?thesis by (simp add: tally_same [of sv' sv] Sv_worker_execute)
qed (use assms(1) in \<open>auto simp: io_event_def on_accept_def on_rejected_def on_signal_def
    intro!: tally_same [THEN fun_cong] split: if_splits accept_result.splits\<close>)

lemma requests_counted: "server_events env evs sv \<Longrightarrow> requests_read i evs = tally sv i"
proof (induction rule: server_events.induct)
  case (init now fs sv)
  then show ?case by (simp add: requests_read_def tally_def start_fields)
next
  case (step evs sv now ev sv')
  have "tally sv' i = tally sv i + of_bool (reads_request i ev)"
    by (rule tally_step [OF step.hyps(2) keepalive.holds [OF events_reach [OF step.hyps(1)]]])
  then show ?case using step.IH by (simp add: requests_read_snoc)
qed

text \<open>
  C25. The keep-alive limit holds on every connection: in every run of the server, however long, the
  requests read from one connection are at most \<open>max_keepalive_requests\<close> with keep-alive enabled
  (but one, if that is 0), and at most one with keep-alive disabled; the session's own counter is
  their number.
\<close>

theorem HttpServer_keepalive_limit:
  assumes "server_events env evs sv"
  shows "requests_read i evs \<le>
      (if cf_enable_keepalive (se_config env) then max 1 (unat (cf_max_keepalive_requests (se_config env))) else 1) \<and>
    (i < length (sv_conns sv) \<longrightarrow> unat (ss_requestCount (cn_session (sv_conns sv ! i))) = requests_read i evs)"
proof -
  have "tally sv i \<le> request_limit (se_config env)"
    using keepalive.holds [OF events_reach [OF assms]] by (simp add: tally_def keepalive_nth within_keepalive_def)
  then show ?thesis
    using requests_counted [OF assms, of i] by (simp add: tally_def served_def request_limit_def)
qed

definition keepalive_config :: config where
  "keepalive_config = example_config\<lparr>cf_max_keepalive_requests := 2\<rparr>"

definition get_request :: "(string \<times> string) list request" where
  "get_request = \<lparr>rq_method = Verb_get, rq_target = ''/'', rq_fields = [], rq_body = []\<rparr>"

definition two_requests :: "(string \<times> string) list server_event list" where
  "two_requests = [Sv_accept Accept_done, Sv_insert, Sv_start 0,
     Sv_read 0 (Read_request get_request) (still example_fs), Sv_written 0 Write_done,
     Sv_read 0 (Read_request get_request) (still example_fs), Sv_written 0 Write_done]"

lemma two_requests_served:
  "map_option (\<lambda>sv. map (\<lambda>c. (ss_requestCount (cn_session c), ss_ended (cn_session c), cn_reading c)) (sv_conns sv))
     (example_run keepalive_config two_requests) = Some [(2, True, None)]"
  by code_simp

lemma trace_events:
  "server_events env evs0 sv \<Longrightarrow> server_trace env now evs sv = Some sv' \<Longrightarrow> server_events env (evs0 @ evs) sv'"
proof (induction evs arbitrary: evs0 sv)
  case (Cons ev evs)
  then obtain sv1 where "server_next env now ev sv = Some sv1" "server_trace env now evs sv1 = Some sv'"
    by (auto simp: Option.bind_eq_Some_conv)
  then show ?case using Cons.IH [OF server_events.step [OF Cons.prems(1)]] by simp
qed simp

lemma example_run_events: "example_run cfg evs = Some sv \<Longrightarrow> server_events (example_server_env cfg) evs sv"
  using trace_events [OF server_events.init, of 0 "example_server_env cfg" example_fs _ 0 evs]
  by (auto simp: example_run_def split: option.splits sum.splits)

lemma HttpServer_keepalive_limit_witness:
  "\<exists>sv. example_run keepalive_config two_requests = Some sv \<and> requests_read 0 two_requests = 2 \<and>
    requests_read 0 two_requests \<le> max 1 (unat (cf_max_keepalive_requests keepalive_config)) \<and>
    unat (ss_requestCount (cn_session (sv_conns sv ! 0))) = 2"
proof -
  obtain sv c where run: "example_run keepalive_config two_requests = Some sv" and c: "sv_conns sv = [c]"
    using two_requests_served by (auto simp: map_eq_Cons_conv)
  have "cf_enable_keepalive keepalive_config" "requests_read 0 two_requests = 2" by code_simp+
  then show ?thesis
    using HttpServer_keepalive_limit [OF example_run_events [OF run], of 0] c run
    by (simp add: example_server_env_def)
qed

end
