(* ===== verification/Server_Responses.thy ===== *)
theory Server_Responses
  imports Server_Keepalive
begin

text \<open>
  The responses that reach a socket: which headers they carry, that Content-Length is the size of
  the body on every path, and when the connection is kept.
\<close>

section \<open>Headers\<close>

definition framed :: "'f beast \<Rightarrow> 'f response \<Rightarrow> bool" where
  "framed B res \<longleftrightarrow> response_field B ''Content-Length'' res = Some (nat_to_string (length (rs_body res)))"

definition labelled :: "'f server_env \<Rightarrow> 'f response \<Rightarrow> bool" where
  "labelled env res \<longleftrightarrow>
     response_field (se_beast env) ''Server'' res = Some (cf_server_name (se_config env)) \<and>
     (cf_cors_allow_origin (se_config env) \<noteq> [] \<longrightarrow>
        response_field (se_beast env) ''Access-Control-Allow-Origin'' res = Some (cf_cors_allow_origin (se_config env)))"

lemma framed_makeResponse: "beast_laws B \<Longrightarrow> framed B (makeResponse B res st body ct)"
  by (simp add: framed_def makeResponse_fields)

lemma framed_prepare: "beast_laws B \<Longrightarrow> framed B (prepare_payload B res)"
  by (simp add: framed_def prepare_payload_fields)

lemma same_name_simps [simp]:
  "\<not> same_name ''Content-Length'' ''Server''" "\<not> same_name ''Content-Length'' ''Access-Control-Allow-Origin''"
  "\<not> same_name ''Server'' ''Access-Control-Allow-Origin''" "same_name n n"
  "\<not> same_name ''Server'' ''Content-Type''" "\<not> same_name ''Server'' ''Content-Length''"
  "\<not> same_name ''Server'' ''Transfer-Encoding''"
  by (simp_all add: same_name_def ascii_lower_def)

lemma sendResponse_header:
  assumes "beast_laws (se_beast env)"
  shows "framed (se_beast env) (dl_response d) \<Longrightarrow> framed (se_beast env) (fst (HttpServer_sendResponse env d))"
    and "labelled env (fst (HttpServer_sendResponse env d))"
  using beast_lawsD(5) [OF assms]
  by (simp_all add: framed_def labelled_def HttpServer_sendResponse_def Let_def response_field_def)

text \<open>
  What \<open>HttpServer::sendResponse\<close> adds: the status, the body and Content-Length stay, \<open>Server\<close>
  is the configured name, and the CORS header is set exactly when an origin is configured and
  otherwise as the handler left it. The connection is kept only for a request, whose
  \<open>Connection\<close> field is missing or not \<open>close\<close>, with keep-alive enabled.
\<close>

theorem HttpServer_sendResponse_headers:
  assumes "beast_laws (se_beast env)" and "HttpServer_sendResponse env d = (res, keep)"
  shows "rs_result res = rs_result (dl_response d) \<and> rs_body res = rs_body (dl_response d) \<and>
    response_field (se_beast env) ''Content-Length'' res =
      response_field (se_beast env) ''Content-Length'' (dl_response d) \<and>
    response_field (se_beast env) ''Server'' res = Some (cf_server_name (se_config env)) \<and>
    response_field (se_beast env) ''Access-Control-Allow-Origin'' res =
      (if cf_cors_allow_origin (se_config env) = []
       then response_field (se_beast env) ''Access-Control-Allow-Origin'' (dl_response d)
       else Some (cf_cors_allow_origin (se_config env))) \<and>
    (keep \<longleftrightarrow> cf_enable_keepalive (se_config env) \<and> (\<exists>req. dl_request d = Some req \<and>
       (bst_find (se_beast env) ''Connection'' (rq_fields req) = None \<or>
        (\<exists>v. bst_find (se_beast env) ''Connection'' (rq_fields req) = Some v \<and> se_to_lower env v \<noteq> ''close''))))"
proof -
  have "\<not> same_name ''Access-Control-Allow-Origin'' ''Server''" by (simp add: same_name_def ascii_lower_def)
  then show ?thesis
    using assms(2) beast_lawsD(5) [OF assms(1)]
    by (auto simp: HttpServer_sendResponse_def HttpServer_isKeepAlive_def Let_def response_field_def
        split: option.splits)
qed

section \<open>What is written\<close>

definition writes :: "'f server \<Rightarrow> 'f response set" where
  "writes sv = {res. \<exists>c \<in> set (sv_conns sv). cn_writing c = Some res}"

definition written_by :: "'f effect list \<Rightarrow> 'f response set" where
  "written_by es = {res. Async_write res \<in> set es}"

lemma writes_update_conn:
  assumes "\<And>c res. cn_writing (f c) = Some res \<Longrightarrow> cn_writing c = Some res \<or> res \<in> W"
  shows "writes (update_conn i f sv) \<subseteq> writes sv \<union> W"
proof (cases "i < length (sv_conns sv)")
  case True
  then have "sv_conns sv ! i \<in> set (sv_conns sv)" by simp
  moreover have "set (sv_conns (update_conn i f sv)) \<subseteq> insert (f (sv_conns sv ! i)) (set (sv_conns sv))"
    by (simp add: update_conn_def set_update_subset_insert)
  ultimately show ?thesis using assms by (fastforce simp: writes_def)
next
  case False
  then show ?thesis by (auto simp: writes_def update_conn_def list_update_beyond)
qed

lemma writes_kept: "(\<And>c. cn_writing (f c) = None \<or> cn_writing (f c) = cn_writing c) \<Longrightarrow>
    writes (update_conn i f sv) \<subseteq> writes sv"
  using writes_update_conn [of f "{}"] by (metis option.distinct(1) sup_bot.right_neutral)

lemma writes_cong: "sv_conns sv' = sv_conns sv \<Longrightarrow> writes sv' = writes sv"
  by (simp add: writes_def)

lemma writes_io_effect: "writes (io_effect now i e sv) \<subseteq> writes sv \<union> written_by [e]"
proof (cases e)
  case (Async_write res)
  have "writes (update_conn i (\<lambda>c. c\<lparr>cn_writing := Some res\<rparr>) sv) \<subseteq> writes sv \<union> {res}"
    by (rule writes_update_conn) simp
  then show ?thesis using Async_write by (simp add: written_by_def)
next
  case End_session
  then show ?thesis by (simp add: writes_cong [of "HttpServer_endSession now i sv" sv])
next
  case (Log m l)
  then show ?thesis by (simp add: writes_cong [of "server_log now m l sv" sv])
qed (use writes_kept [of _ i sv] in \<open>simp_all add: le_supI1\<close>)

lemma writes_io_effects: "writes (io_effects now i es sv) \<subseteq> writes sv \<union> written_by es"
proof (induction es arbitrary: sv)
  case (Cons e es)
  have "written_by (e # es) = written_by [e] \<union> written_by es" by (auto simp: written_by_def)
  then show ?case using Cons.IH [of "io_effect now i e sv"] writes_io_effect [of now i e sv] by auto
qed (simp add: written_by_def)

lemma writes_run_handler:
  "writes (run_handler now i h sv) \<subseteq> writes sv \<union> written_by (snd (h (cn_session (sv_conns sv ! i))))"
proof -
  have "writes (update_conn i (\<lambda>c. c\<lparr>cn_session := s\<rparr>) sv) \<subseteq> writes sv" for s
    by (rule writes_kept) simp
  then show ?thesis
    using writes_io_effects [of now i "snd (h (cn_session (sv_conns sv ! i)))"]
    by (fastforce simp: run_handler_def case_prod_beta)
qed

text \<open>Which handlers write.\<close>

lemma handler_writes:
  "written_by (snd (Session_doRead cfg s)) = {}"
  "written_by (snd (Session_sendResponse res ka s)) \<subseteq> {res}"
  "written_by (snd (Session_onWrite cfg dr w s)) = {}"
  "written_by (snd (Session_onTimeout aborted s)) = {}"
  "written_by (snd (Session_close s)) = {}"
  by (auto simp: session_defs written_by_def split: write_result.splits)

lemma writes_deliver:
  "writes (deliver env now d sv) \<subseteq> writes sv \<union> {fst (HttpServer_sendResponse env d)}"
  unfolding deliver_run_handler using writes_run_handler handler_writes(2) by fast

lemma onRead_writes:
  assumes "Session_onRead B cfg result n s = Some (s', n', es)" and "beast_laws B" and "Async_write res \<in> set es"
  shows "framed B res \<and> rs_result res = Payload_too_large"
  using assms
  by (auto simp: Session_onRead_def session_defs request_priority_def sample_priority_def framed_makeResponse
      split: read_result.splits read_error.splits option.splits sum.splits if_splits)

section \<open>Every response is framed\<close>

text \<open>What may be on its way to a socket: a complete response, or the 413 of the body limit.\<close>

definition sendable :: "'f server_env \<Rightarrow> 'f response \<Rightarrow> bool" where
  "sendable env res \<longleftrightarrow> framed (se_beast env) res \<and> (labelled env res \<or> rs_result res = Payload_too_large)"

definition framing :: "'f server_env \<Rightarrow> 'f server \<Rightarrow> bool" where
  "framing env sv \<longleftrightarrow> (\<forall>res \<in> writes sv. sendable env res) \<and>
     (\<forall>d \<in> set (sv_posted sv). framed (se_beast env) (dl_response d))"

lemma framing_same:
  "framing env sv \<Longrightarrow> sv_conns sv' = sv_conns sv \<Longrightarrow> sv_posted sv' = sv_posted sv \<Longrightarrow> framing env sv'"
  using writes_cong [of sv' sv] by (simp add: framing_def)

lemma framing_writes:
  "framing env sv \<Longrightarrow> writes sv' \<subseteq> writes sv \<union> W \<Longrightarrow> \<forall>res \<in> W. sendable env res \<Longrightarrow>
    sv_posted sv' = sv_posted sv \<Longrightarrow> framing env sv'"
  by (auto simp: framing_def)

lemma framing_fewer:
  "framing env sv \<Longrightarrow> writes sv' \<subseteq> writes sv \<Longrightarrow> sv_posted sv' = sv_posted sv \<Longrightarrow> framing env sv'"
  by (auto simp: framing_def)

lemma framing_update:
  "framing env sv \<Longrightarrow> (\<And>c. cn_writing (f c) = None \<or> cn_writing (f c) = cn_writing c) \<Longrightarrow>
    framing env (update_conn i f sv)"
  by (rule framing_fewer) (simp_all add: writes_kept)

lemma framing_deliver:
  assumes "beast_laws (se_beast env)" and "framing env sv" and "framed (se_beast env) (dl_response d)"
  shows "framing env (deliver env now d sv)"
  using writes_deliver
  by (rule framing_writes [OF assms(2)])
    (use sendResponse_header [OF assms(1), of d] assms(3) in \<open>simp_all add: sendable_def deliver_run_handler\<close>,
      simp add: run_handler_def case_prod_beta)

lemma compute_framed:
  assumes "beast_laws B" and "HttpTask_execute B (compute_task B J req i) = Inr (msg, d)"
  shows "framed B (dl_response d)"
proof -
  have try_framed: "framed B res" if "compute_try B J req = Some res" for res
    using that framed_makeResponse [OF assms(1)]
    by (auto simp: compute_try_def makeJsonError_def makeJsonSuccess_def Let_def split: option.splits if_splits)
  have "framed B res" if "createComputeStrategy B J req = Inr res" for res
    using that try_framed framed_makeResponse [OF assms(1)]
    by (auto simp: createComputeStrategy_def makeJsonError_def Let_def split: option.splits)
  then show ?thesis
    using assms(2) framed_makeResponse [OF assms(1)]
    by (auto simp: HttpTask_execute_def compute_task_def createDoneCallback_def sendResponseAsync_def Let_def
        split: sum.splits cxx_exn.splits)
qed

lemma process_framed:
  assumes "beast_laws B"
    and "RequestProcessor_process B J handle routes now req priority i pool = Some (pool', posted, direct)"
  shows "\<forall>d \<in> set posted \<union> set direct. framed B (dl_response d)"
  using assms(2) framed_makeResponse [OF assms(1)] framed_prepare [OF assms(1)]
  by (auto simp: RequestProcessor_process_def sendResponseAsync_def Let_def
      split: if_splits option.splits prod.splits)

lemma framing_deliver_all:
  assumes "beast_laws (se_beast env)"
  shows "framing env sv \<Longrightarrow> \<forall>d \<in> set ds. framed (se_beast env) (dl_response d) \<Longrightarrow>
    framing env (fold (deliver env now) ds sv)"
  by (induction ds arbitrary: sv) (simp_all add: framing_deliver [OF assms])

lemma framing_process:
  assumes "beast_laws (se_beast env)" and "process_request env fs now i req priority sv = Some sv'"
    and "framing env sv"
  shows "framing env sv'"
  using assms(2)
proof (cases rule: process_request_cases)
  case (1 pool posted direct)
  note framed = process_framed [OF assms(1) 1(1)]
  have "framing env (sv\<lparr>sv_pool := pool, sv_posted := sv_posted sv @ posted\<rparr>)"
    using assms(3) framed writes_cong [of "sv\<lparr>sv_pool := pool, sv_posted := sv_posted sv @ posted\<rparr>" sv]
    by (auto simp: framing_def)
  then show ?thesis using 1(2) framed framing_deliver_all [OF assms(1)] by simp
qed

lemma framing_read:
  assumes "beast_laws (se_beast env)" and "server_next env now (Sv_read i result fs) sv = Some sv'"
    and "framing env sv"
  shows "framing env sv'"
proof -
  obtain s n es where i: "i < length (sv_conns sv)"
    and run: "Session_onRead (se_beast env) (se_config env) result (sv_nonZeroCounter sv)
        (cn_session (sv_conns sv ! i)) = Some (s, n, es)"
    and eff: "effects env fs now i es (update_conn i (\<lambda>c. c\<lparr>cn_reading := None, cn_session := s\<rparr>)
        (sv\<lparr>sv_nonZeroCounter := n\<rparr>)) = Some sv'"
    using assms(2) by (auto simp: conn_event_def io_event_def split: if_splits option.splits)
  let ?sv = "update_conn i (\<lambda>c. c\<lparr>cn_reading := None, cn_session := s\<rparr>) (sv\<lparr>sv_nonZeroCounter := n\<rparr>)"
  have start: "framing env ?sv"
    by (intro framing_update) (rule framing_same [OF assms(3)], simp_all)
  have sent: "\<forall>res \<in> written_by es. sendable env res"
    using onRead_writes [OF run assms(1)] by (simp add: written_by_def sendable_def)
  have io: "framing env (io_effects now i xs ?sv)" if "set xs \<subseteq> set es" for xs
    using sent that
    by (intro framing_writes [OF start writes_io_effects]) (auto simp: written_by_def)
  from run show ?thesis
  proof (cases rule: onRead_cases)
    case no_request
    then show ?thesis using eff io [of es] by (simp add: effects_io)
  next
    case (a_request req priority quiet)
    then have "process_request env fs now i req priority (io_effects now i quiet ?sv) = Some sv'"
      using eff quiet_no_process [OF a_request(3)]
      by (auto simp: effects_append effects_io Option.bind_eq_Some_conv)
    moreover have "framing env (io_effects now i quiet ?sv)" using a_request(2) by (intro io) auto
    ultimately show ?thesis by (rule framing_process [OF assms(1)])
  qed
qed

lemma framing_event:
  assumes "conn_event sv i possible (Some (run_handler now i h (update_conn i f sv))) = Some sv'"
    and "framing env sv" and "\<And>c. cn_writing (f c) = None \<or> cn_writing (f c) = cn_writing c"
    and "\<And>s. written_by (snd (h s)) = {}"
  shows "framing env sv'"
  using assms(1)
proof (rule conn_event_cases)
  assume sv': "sv' = run_handler now i h (update_conn i f sv)"
  have "framing env (update_conn i f sv)" using assms(2,3) by (rule framing_update)
  then show ?thesis
    unfolding sv' using writes_run_handler
    by (rule framing_writes) (simp_all add: assms(4), simp add: run_handler_def case_prod_beta)
qed

lemma framing_step:
  assumes "server_next env now ev sv = Some sv'" and "framing env sv" and "addressed env sv"
    and "beast_laws (se_beast env)"
  shows "framing env sv'"
proof (cases ev)
  case (Sv_read i result fs)
  then show ?thesis using framing_read assms by blast
next
  case Sv_insert
  then have "writes sv' \<subseteq> writes sv" "sv_posted sv' = sv_posted sv"
    using assms(1) by (auto simp: writes_def split: if_splits)
  then show ?thesis by (rule framing_fewer [OF assms(2)])
next
  case (Sv_start i)
  show ?thesis
    by (rule framing_event [OF assms(1) [unfolded Sv_start server_next.simps] assms(2)])
      (simp_all add: handler_writes)
next
  case (Sv_written i result)
  show ?thesis
    by (rule framing_event [OF assms(1) [unfolded Sv_written server_next.simps] assms(2)])
      (simp_all add: handler_writes)
next
  case (Sv_timer i aborted)
  show ?thesis
    by (rule framing_event [OF assms(1) [unfolded Sv_timer server_next.simps] assms(2)])
      (simp_all add: handler_writes)
next
  case (Sv_close i)
  show ?thesis
    by (rule framing_event [OF assms(1) [unfolded Sv_close server_next.simps] assms(2)])
      (simp_all add: handler_writes)
next
  case (Sv_deliver k)
  let ?sv = "sv\<lparr>sv_posted := take k (sv_posted sv) @ drop (Suc k) (sv_posted sv)\<rparr>"
  have k: "k < length (sv_posted sv)" "sv' = deliver env now (sv_posted sv ! k) ?sv"
    using Sv_deliver assms(1) by (simp_all add: io_event_def split: if_splits)
  have "framing env ?sv"
    using assms(2) writes_cong [of ?sv sv] by (auto simp: framing_def dest: in_set_takeD in_set_dropD)
  moreover have "framed (se_beast env) (dl_response (sv_posted sv ! k))"
    using assms(2) k(1) by (simp add: framing_def)
  ultimately show ?thesis unfolding k(2) by (rule framing_deliver [OF assms(4)])
next
  case (Sv_worker_execute k)
  obtain t msg d where pc: "wk_pc (tp_workers (sv_pool sv) ! k) = Executing t" "k < length (tp_workers (sv_pool sv))"
    and run: "HttpTask_execute (se_beast env) t = Inr (msg, d)"
    and sv': "sv_conns sv' = sv_conns sv" "sv_posted sv' = sv_posted sv @ [d]"
    using Sv_worker_execute assms(1)
    by (auto simp: worker_execute_def Let_def split: if_splits worker_pc.splits sum.splits option.splits)
  have "t \<in># pool_tasks (sv_pool sv)"
    using pool_tasks_execute(1) [OF pc(2,1)] assms(3) by (simp add: addressed_def)
  then obtain req j where "t = compute_task (se_beast env) (se_json env) req j"
    using assms(3) by (auto simp: addressed_def)
  then have "framed (se_beast env) (dl_response d)" using compute_framed [OF assms(4)] run by blast
  then show ?thesis using assms(2) sv' writes_cong [OF sv'(1)] by (simp add: framing_def)
next
  case Sv_drain_timer
  have "writes (close_sessions s) \<subseteq> writes s" for s :: "'a server"
  proof
    fix res assume "res \<in> writes (close_sessions s)"
    then obtain j where j: "j < length (sv_conns s)" "cn_writing (sv_conns (close_sessions s) ! j) = Some res"
      by (auto simp: writes_def in_set_conv_nth)
    then have "cn_writing (sv_conns s ! j) = Some res" using close_sessions_conn [of s j] by auto
    then show "res \<in> writes s" using nth_mem [OF j(1)] by (auto simp: writes_def)
  qed
  moreover have "sv' = on_drain_timer now (sv\<lparr>sv_drainTimer := False\<rparr>)"
    using Sv_drain_timer assms(1) by (simp add: io_event_def split: if_splits)
  ultimately have "writes sv' \<subseteq> writes sv" "sv_posted sv' = sv_posted sv"
    by (fastforce simp: on_drain_timer_def writes_def)+
  then show ?thesis by (rule framing_fewer [OF assms(2)])
qed (use assms in \<open>auto simp: io_event_def on_accept_def on_signal_def intro: framing_same
    split: if_splits accept_result.splits\<close>)

lemma framing_reach:
  assumes "server_reach env sv" and "beast_laws (se_beast env)"
  shows "framing env sv"
  using assms(1)
proof (induction rule: server_reach.induct)
  case (init now fs sv)
  then show ?case by (simp add: framing_def writes_def start_fields)
next
  case (step sv now ev sv')
  then have "addressed env sv" using protocol.holds by (auto simp: protocol_def)
  then show ?case using framing_step step assms(2) by blast
qed

text \<open>
  C24. Every response the server ever writes is well framed: its Content-Length is the size of its
  body, whether it comes from a handler, a worker, the full queue, or the body limit; and but for
  the 413s it carries the configured \<open>Server\<close> and CORS headers.
\<close>

theorem HttpServer_responses_framed:
  assumes "server_reach env sv" and "beast_laws (se_beast env)"
    and "c \<in> set (sv_conns sv)" and "cn_writing c = Some res"
  shows "response_field (se_beast env) ''Content-Length'' res = Some (nat_to_string (length (rs_body res))) \<and>
    (rs_result res \<noteq> Payload_too_large \<longrightarrow>
       response_field (se_beast env) ''Server'' res = Some (cf_server_name (se_config env)) \<and>
       (cf_cors_allow_origin (se_config env) \<noteq> [] \<longrightarrow>
          response_field (se_beast env) ''Access-Control-Allow-Origin'' res = Some (cf_cors_allow_origin (se_config env))))"
proof -
  have "res \<in> writes sv" using assms(3,4) by (auto simp: writes_def)
  then have "sendable env res" using framing_reach [OF assms(1,2)] by (simp add: framing_def)
  then show ?thesis by (auto simp: sendable_def framed_def labelled_def)
qed

definition first_request :: "(string \<times> string) list server_event list" where
  "first_request = [Sv_accept Accept_done, Sv_insert, Sv_start 0, Sv_read 0 (Read_request get_request) (still example_fs)]"

lemma first_request_written:
  "map_option (\<lambda>sv. map (\<lambda>c. map_option (\<lambda>res. (rs_result res, rs_body res)) (cn_writing c)) (sv_conns sv))
     (example_run example_config first_request) = Some [Some (Not_found, ''404 Not Found'')]"
  by code_simp

lemma HttpServer_responses_framed_witness:
  "\<exists>sv c res. example_run example_config first_request = Some sv \<and> sv_conns sv = [c] \<and>
    cn_writing c = Some res \<and> rs_result res = Not_found \<and>
    response_field example_beast ''Content-Length'' res = Some (nat_to_string (length ''404 Not Found'')) \<and>
    response_field example_beast ''Server'' res = Some ''PriorityHttpServer/2.0''"
proof -
  obtain sv c res where run: "example_run example_config first_request = Some sv"
    and c: "sv_conns sv = [c]" "cn_writing c = Some res" "rs_result res = Not_found" "rs_body res = ''404 Not Found''"
    using first_request_written by (auto simp: map_eq_Cons_conv)
  have env: "se_beast (example_server_env example_config) = example_beast"
    "cf_server_name (se_config (example_server_env example_config)) = ''PriorityHttpServer/2.0''"
    by (simp_all add: example_server_env_def example_config_def Config_default_def)
  show ?thesis
    using HttpServer_responses_framed [OF example_run_reach [OF run], of c res] c run
    unfolding env by (intro exI [of _ sv] exI [of _ c] exI [of _ res]) (simp add: example_beast_laws)
qed

lemma HttpServer_sendResponse_headers_witness:
  "\<exists>res. HttpServer_sendResponse (example_server_env example_config)
      \<lparr>dl_session = 0, dl_response = makeResponse example_beast (Response_new example_beast) Ok ''x'' ''text/plain'',
       dl_request = Some \<lparr>rq_method = Verb_get, rq_target = ''/'', rq_fields = [(''connection'', ''Close'')], rq_body = []\<rparr>\<rparr> =
    (res, False) \<and> rs_body res = ''x'' \<and> response_field example_beast ''Access-Control-Allow-Origin'' res = Some ''*''"
proof -
  let ?d = "\<lparr>dl_session = 0, dl_response = makeResponse example_beast (Response_new example_beast) Ok ''x'' ''text/plain'',
       dl_request = Some \<lparr>rq_method = Verb_get, rq_target = ''/'', rq_fields = [(''connection'', ''Close'')], rq_body = []\<rparr>\<rparr>"
  let ?env = "example_server_env example_config"
  obtain res keep where run: "HttpServer_sendResponse ?env ?d = (res, keep)" by force
  moreover have "bst_find (se_beast ?env) ''Connection'' [(''connection'', ''Close'')] = Some ''Close''"
    "se_to_lower ?env ''Close'' = ''close''"
    by code_simp+
  moreover have "cf_cors_allow_origin (se_config ?env) = ''*''" "se_beast ?env = example_beast"
    by (simp_all add: example_server_env_def example_config_def Config_default_def)
  ultimately show ?thesis
    using HttpServer_sendResponse_headers [OF _ run] example_beast_laws by auto
qed

end
