(* ===== verification/Server_Sessions.thy ===== *)
theory Server_Sessions
  imports Server_Example
begin

text \<open>
  The sessions of the server: \<open>m_sessions\<close> and \<open>m_activeSessions\<close> count the sessions that have not
  ended, the connection limit holds up to the accepts in flight, and a drain stops the I/O
  context when the last session ends.
\<close>

section \<open>The sessions are counted\<close>

definition sessions_counted :: "'f server \<Rightarrow> bool" where
  "sessions_counted sv \<longleftrightarrow> distinct (sv_sessions sv) \<and>
     set (sv_sessions sv) = {i. i < length (sv_conns sv) \<and> \<not> ss_ended (cn_session (sv_conns sv ! i))} \<and>
     sv_activeSessions sv = of_nat (length (sv_sessions sv))"

lemma counted_same:
  assumes "sessions_counted sv" and "sv_sessions sv' = sv_sessions sv"
    and "sv_activeSessions sv' = sv_activeSessions sv" and "length (sv_conns sv') = length (sv_conns sv)"
    and "\<And>j. j < length (sv_conns sv) \<Longrightarrow>
      ss_ended (cn_session (sv_conns sv' ! j)) = ss_ended (cn_session (sv_conns sv ! j))"
  shows "sessions_counted sv'"
  using assms by (auto simp: sessions_counted_def)

lemma length_removeAll_distinct: "distinct xs \<Longrightarrow> x \<in> set xs \<Longrightarrow> Suc (length (removeAll x xs)) = length xs"
  by (metis One_nat_def Suc_pred distinct_remove1_removeAll length_pos_if_in_set length_remove1)

text \<open>A handler of session \<open>i\<close> that sets \<open>m_ended\<close> and calls \<open>endSession\<close> together, or neither.\<close>

lemma counted_handler:
  assumes "sessions_counted sv" and "i < length (sv_conns sv)"
    and "handler_ok (cn_session (sv_conns sv ! i)) (s, es)"
  shows "sessions_counted (io_effects now i es (update_conn i (\<lambda>c. c\<lparr>cn_session := s\<rparr>) sv))"
proof -
  let ?sv = "update_conn i (\<lambda>c. c\<lparr>cn_session := s\<rparr>) sv"
  have i: "i < length (sv_conns ?sv)" using assms(2) by simp
  show ?thesis
  proof (cases "ss_ended s \<and> \<not> ss_ended (cn_session (sv_conns sv ! i))")
    case True
    then have "ends es = 1" using assms(3) by (simp add: handler_ok_def)
    moreover have "i \<in> set (sv_sessions sv)" using assms(1,2) True by (auto simp: sessions_counted_def)
    then have "Suc (length (removeAll i (sv_sessions sv))) = length (sv_sessions sv)"
      using assms(1) by (intro length_removeAll_distinct) (simp_all add: sessions_counted_def)
    then have "(of_nat (length (sv_sessions sv)) :: size_t) - 1 = of_nat (length (removeAll i (sv_sessions sv)))"
      by (metis add_diff_cancel_left' of_nat_Suc)
    ultimately show ?thesis
      using assms(1,2) True
      by (auto simp: sessions_counted_def io_effects_sessions io_effects_conn(1) [OF i] distinct_removeAll)
  next
    case False
    then have "ends es = 0" "ss_ended s = ss_ended (cn_session (sv_conns sv ! i))"
      using assms(3) by (auto simp: handler_ok_def)
    then show ?thesis
      using assms(2)
      by (intro counted_same [OF assms(1)]) (simp_all add: io_effects_sessions io_effects_conn(1) [OF i])
  qed
qed

context session_handler
begin

lemma counted:
  assumes "sessions_counted sv" and "i < length (sv_conns sv)"
  shows "sessions_counted (run_handler now i h sv)"
  using counted_handler [OF assms, of _ _ now] ok [of "cn_session (sv_conns sv ! i)"]
  by (cases "h (cn_session (sv_conns sv ! i))") (simp add: run_handler_def)

lemma counted_event:
  assumes "conn_event sv i possible (Some (run_handler now i h (update_conn i f sv))) = Some sv'"
    and "sessions_counted sv" and "\<And>c. cn_session (f c) = cn_session c"
  shows "sessions_counted sv'"
  using assms(1)
proof (rule conn_event_cases)
  assume i: "i < length (sv_conns sv)" and sv': "sv' = run_handler now i h (update_conn i f sv)"
  have "sessions_counted (update_conn i f sv)"
    using i by (intro counted_same [OF assms(2)]) (simp_all add: assms(3))
  then show ?thesis unfolding sv' using i by (intro counted) simp_all
qed

end

lemma counted_deliver: "sessions_counted sv \<Longrightarrow> sessions_counted (deliver env now d sv)"
  unfolding deliver_run_handler
  by (cases "dl_session d < length (sv_conns sv)") (simp_all add: sendResponse.counted run_sendResponse_beyond)

lemma counted_deliver_all: "sessions_counted sv \<Longrightarrow> sessions_counted (fold (deliver env now) ds sv)"
  by (induction ds arbitrary: sv) (simp_all add: counted_deliver)

lemma counted_process:
  assumes "process_request env fs now i req priority sv = Some sv'" and "sessions_counted sv"
  shows "sessions_counted sv'"
  using assms(1)
proof (cases rule: process_request_cases)
  case (1 pool posted direct)
  have "sessions_counted (sv\<lparr>sv_pool := pool, sv_posted := sv_posted sv @ posted\<rparr>)"
    by (rule counted_same [OF assms(2)]) simp_all
  then show ?thesis using 1(2) counted_deliver_all by blast
qed

lemma counted_read:
  assumes "server_next env now (Sv_read i result fs) sv = Some sv'" and "sessions_counted sv"
  shows "sessions_counted sv'"
  using assms(1)
proof (cases rule: read_event_cases)
  case (no_request s es n)
  let ?sv = "update_conn i (\<lambda>c. c\<lparr>cn_reading := None\<rparr>) (sv\<lparr>sv_nonZeroCounter := n\<rparr>)"
  have "sessions_counted ?sv"
    using no_request(1) by (intro counted_same [OF assms(2)]) simp_all
  then have "sessions_counted (io_effects now i es (update_conn i (\<lambda>c. c\<lparr>cn_session := s\<rparr>) ?sv))"
    using no_request(1,3) by (intro counted_handler) simp_all
  moreover have "update_conn i (\<lambda>c. c\<lparr>cn_session := s\<rparr>) ?sv =
      update_conn i (\<lambda>c. c\<lparr>cn_reading := None, cn_session := s\<rparr>) (sv\<lparr>sv_nonZeroCounter := n\<rparr>)"
    using no_request(1) by (simp add: update_conn_def)
  ultimately show ?thesis using no_request(7) by simp
next
  case (a_request req priority quiet n)
  show ?thesis
    using a_request(1)
    by (intro counted_process [OF a_request(5)] counted_same [OF assms(2)])
      (simp_all add: quiet_effects(1-4) [OF a_request(4)])
qed

lemma counted_insert:
  assumes "sessions_counted sv"
  shows "sessions_counted (insert_session now cfg (sv\<lparr>sv_accepting := n\<rparr>))"
proof -
  let ?i = "length (sv_conns sv)" and ?new = "insert_session now cfg (sv\<lparr>sv_accepting := n\<rparr>)"
  have new: "?i \<notin> set (sv_sessions sv)" using assms by (simp add: sessions_counted_def)
  then have "set (sv_sessions ?new) = insert ?i (set (sv_sessions sv))" by (simp add: List.insert_def)
  also have "\<dots> = {j. j < length (sv_conns ?new) \<and> \<not> ss_ended (cn_session (sv_conns ?new ! j))}"
  proof -
    have "{j. j < Suc ?i \<and> P j} = (if P ?i then insert ?i {j. j < ?i \<and> P j} else {j. j < ?i \<and> P j})" for P
      by (auto simp: less_Suc_eq)
    moreover have "{j. j < ?i \<and> \<not> ss_ended (cn_session (sv_conns ?new ! j))} =
        {j. j < ?i \<and> \<not> ss_ended (cn_session (sv_conns sv ! j))}"
      by (intro Collect_cong conj_cong refl) (simp add: nth_append)
    ultimately show ?thesis
      using assms by (simp add: sessions_counted_def Session_new_def)
  qed
  finally have "set (sv_sessions ?new) = {j. j < length (sv_conns ?new) \<and> \<not> ss_ended (cn_session (sv_conns ?new ! j))}" .
  moreover have "distinct (sv_sessions ?new)" using assms by (simp add: sessions_counted_def)
  moreover have "sv_activeSessions ?new = of_nat (length (sv_sessions ?new))"
    using assms new by (simp add: sessions_counted_def List.insert_def)
  ultimately show ?thesis unfolding sessions_counted_def by blast
qed

lemma counted_step:
  assumes "server_next env now ev sv = Some sv'" and "sessions_counted sv"
  shows "sessions_counted sv'"
proof (cases ev)
  case (Sv_read i result fs)
  then show ?thesis using counted_read assms by blast
next
  case Sv_insert
  then show ?thesis using assms(1) counted_insert [OF assms(2)] by (auto split: if_splits)
next
  case (Sv_start i)
  show ?thesis by (rule doRead.counted_event [OF assms(1) [unfolded Sv_start server_next.simps] assms(2)]) simp
next
  case (Sv_written i result)
  show ?thesis by (rule onWrite.counted_event [OF assms(1) [unfolded Sv_written server_next.simps] assms(2)]) simp
next
  case (Sv_timer i aborted)
  show ?thesis by (rule onTimeout.counted_event [OF assms(1) [unfolded Sv_timer server_next.simps] assms(2)]) simp
next
  case (Sv_close i)
  show ?thesis by (rule close.counted_event [OF assms(1) [unfolded Sv_close server_next.simps] assms(2)]) simp
next
  case (Sv_deliver k)
  then show ?thesis
    using assms by (auto simp: io_event_def intro!: counted_deliver intro: counted_same split: if_splits)
next
  case (Sv_worker_execute k)
  then show ?thesis
    using assms
    by (auto simp: worker_execute_def Let_def intro: counted_same
        split: if_splits worker_pc.splits sum.splits option.splits)
next
  case Sv_drain_timer
  then have "sv' = on_drain_timer now (sv\<lparr>sv_drainTimer := False\<rparr>)"
    using assms(1) by (simp add: io_event_def split: if_splits)
  moreover have "ss_ended (cn_session (sv_conns (close_sessions s) ! j)) = ss_ended (cn_session (sv_conns s ! j))"
    for j and s :: "'a server"
    using close_sessions_conn [of s j] by auto
  ultimately show ?thesis by (intro counted_same [OF assms(2)]) (simp_all add: on_drain_timer_def)
qed (use assms in \<open>auto simp: io_event_def on_accept_def on_signal_def intro: counted_same
    split: if_splits accept_result.splits\<close>)

interpretation sessions: server_invariant env sessions_counted for env
  by unfold_locales (simp add: sessions_counted_def start_fields, rule counted_step)

text \<open>
  C15. Every session ends once: in every reachable state \<open>m_sessions\<close> holds exactly the sessions that
  have not ended, each once, and \<open>m_activeSessions\<close> is their number; so the counter never goes
  below zero, and neither a timeout, an error, the end of the keep-alive nor a forced close is
  counted twice.
\<close>

theorem HttpServer_sessions_counted:
  assumes "server_reach env sv"
  shows "distinct (sv_sessions sv) \<and>
    set (sv_sessions sv) = {i. i < length (sv_conns sv) \<and> \<not> ss_ended (cn_session (sv_conns sv ! i))} \<and>
    sv_activeSessions sv = of_nat (length (sv_sessions sv))"
  using sessions.holds [OF assms] by (simp add: sessions_counted_def)

lemma example_session:
  "map_option (\<lambda>sv. (sv_sessions sv, sv_draining sv, sv_checks sv))
     (example_run example_config [Sv_accept Accept_done, Sv_insert, Sv_start 0]) = Some ([0], False, 0)"
  by code_simp

lemma HttpServer_sessions_counted_witness:
  "\<exists>sv. example_run example_config [Sv_accept Accept_done, Sv_insert, Sv_start 0] = Some sv \<and>
    sv_activeSessions sv = 1 \<and> \<not> ss_ended (cn_session (sv_conns sv ! 0))"
proof -
  obtain sv where run: "example_run example_config [Sv_accept Accept_done, Sv_insert, Sv_start 0] = Some sv"
    and one: "sv_sessions sv = [0]"
    using example_session by auto
  from HttpServer_sessions_counted [OF example_run_reach [OF run]] one
  show ?thesis using run by (intro exI [of _ sv]) auto
qed

section \<open>The connection limit\<close>

text \<open>Steps that accept nothing: they only take sessions away.\<close>

definition no_accept :: "'f server \<Rightarrow> 'f server \<Rightarrow> bool" where
  "no_accept sv sv' \<longleftrightarrow> sv_accepting sv' = sv_accepting sv \<and> sv_pending sv' = sv_pending sv \<and>
     length (sv_sessions sv') \<le> length (sv_sessions sv)"

lemma no_accept_refl: "no_accept sv sv"
  by (simp add: no_accept_def)

lemma no_accept_trans: "no_accept sv sv1 \<Longrightarrow> no_accept sv1 sv2 \<Longrightarrow> no_accept sv sv2"
  by (simp add: no_accept_def)

lemma no_accept_io: "no_accept sv (io_effects now i es sv)"
  using length_filter_le by (auto simp: no_accept_def io_effects_sessions removeAll_filter_not_eq)

context session_handler
begin

lemma no_accept_run: "no_accept sv (run_handler now i h sv)"
proof -
  have "no_accept sv (update_conn i (\<lambda>c. c\<lparr>cn_session := s\<rparr>) sv)" for s
    by (simp add: no_accept_def)
  then show ?thesis
    by (auto simp: run_handler_def split: prod.splits intro: no_accept_trans no_accept_io)
qed

lemma no_accept_event:
  assumes "conn_event sv i possible (Some (run_handler now i h (update_conn i f sv))) = Some sv'"
  shows "no_accept sv sv'"
  using assms
proof (rule conn_event_cases)
  have "no_accept sv (update_conn i f sv)" by (simp add: no_accept_def)
  moreover assume "sv' = run_handler now i h (update_conn i f sv)"
  ultimately show ?thesis using no_accept_run no_accept_trans by blast
qed

end

lemma no_accept_deliver: "no_accept sv (fold (deliver env now) ds sv)"
proof (induction ds arbitrary: sv)
  case (Cons d ds)
  have "no_accept sv (deliver env now d sv)" unfolding deliver_run_handler by (rule sendResponse.no_accept_run)
  then show ?case using Cons.IH [of "deliver env now d sv"] by (simp add: no_accept_trans)
qed (simp add: no_accept_refl)

lemma no_accept_process:
  assumes "process_request env fs now i req priority sv = Some sv'"
  shows "no_accept sv sv'"
  using assms
proof (cases rule: process_request_cases)
  case (1 pool posted direct)
  have "no_accept sv (sv\<lparr>sv_pool := pool, sv_posted := sv_posted sv @ posted\<rparr>)" by (simp add: no_accept_def)
  then show ?thesis using 1(2) no_accept_trans no_accept_deliver by blast
qed

lemma no_accept_read:
  assumes "server_next env now (Sv_read i result fs) sv = Some sv'"
  shows "no_accept sv sv'"
  using assms
proof (cases rule: read_event_cases)
  case (no_request s es n)
  let ?sv = "update_conn i (\<lambda>c. c\<lparr>cn_reading := None, cn_session := s\<rparr>) (sv\<lparr>sv_nonZeroCounter := n\<rparr>)"
  have "no_accept sv ?sv" by (simp add: no_accept_def)
  then show ?thesis unfolding no_request(7) using no_accept_io by (rule no_accept_trans)
next
  case (a_request req priority quiet n)
  let ?sv = "update_conn i
        (\<lambda>c. c\<lparr>cn_reading := None, cn_session := (cn_session (sv_conns sv ! i))\<lparr>ss_requestCount :=
            ss_requestCount (cn_session (sv_conns sv ! i)) + 1\<rparr>\<rparr>) (sv\<lparr>sv_nonZeroCounter := n\<rparr>)"
  have "no_accept sv ?sv" by (simp add: no_accept_def)
  then have "no_accept sv (io_effects now i quiet ?sv)" using no_accept_io by (rule no_accept_trans)
  then show ?thesis using no_accept_process [OF a_request(5)] by (rule no_accept_trans)
qed

fun accept_event :: "'f server_event \<Rightarrow> bool" where
  "accept_event (Sv_accept result) = True"
| "accept_event Sv_insert = True"
| "accept_event Sv_rejected = True"
| "accept_event _ = False"

lemma no_accept_step:
  assumes "server_next env now ev sv = Some sv'" and "\<not> accept_event ev"
  shows "no_accept sv sv'"
proof (cases ev)
  case (Sv_read i result fs)
  then show ?thesis using no_accept_read assms(1) by blast
next
  case (Sv_start i)
  show ?thesis by (rule doRead.no_accept_event [OF assms(1) [unfolded Sv_start server_next.simps]])
next
  case (Sv_written i result)
  show ?thesis by (rule onWrite.no_accept_event [OF assms(1) [unfolded Sv_written server_next.simps]])
next
  case (Sv_timer i aborted)
  show ?thesis by (rule onTimeout.no_accept_event [OF assms(1) [unfolded Sv_timer server_next.simps]])
next
  case (Sv_close i)
  show ?thesis by (rule close.no_accept_event [OF assms(1) [unfolded Sv_close server_next.simps]])
next
  case (Sv_deliver k)
  have "no_accept sv (sv\<lparr>sv_posted := ds\<rparr>)" for ds by (simp add: no_accept_def)
  then have "no_accept sv (deliver env now d (sv\<lparr>sv_posted := ds\<rparr>))" for d ds
    unfolding deliver_run_handler using sendResponse.no_accept_run no_accept_trans by blast
  then show ?thesis
    using Sv_deliver assms(1) by (auto simp: io_event_def split: if_splits)
qed (use assms in \<open>auto simp: io_event_def Let_def no_accept_def worker_execute_def on_signal_def on_drain_timer_def
    split: if_splits worker_pc.splits sum.splits option.splits\<close>)

definition within_limit :: "'f server_env \<Rightarrow> 'f server \<Rightarrow> bool" where
  "within_limit env sv \<longleftrightarrow> sv_accepting sv \<le> io_thread_count (se_config env) \<and>
     length (sv_sessions sv) + sv_accepting sv + (if sv_pending sv = Some Accept_session then 1 else 0) \<le>
       unat (cf_max_connections (se_config env)) + io_thread_count (se_config env)"

lemma doAccept_within:
  assumes "sv_pending sv = None" and "sv_activeSessions sv = of_nat (length (sv_sessions sv))"
    and "unat (cf_max_connections cfg) + io_thread_count cfg < 2 ^ 64"
    and "length (sv_sessions sv) + n \<le> unat (cf_max_connections cfg) + io_thread_count cfg"
    and "n \<le> io_thread_count cfg"
  shows "length (sv_sessions sv) + n +
      (if sv_pending (doAccept now cfg sv) = Some Accept_session then 1 else 0) \<le>
    unat (cf_max_connections cfg) + io_thread_count cfg"
proof (cases "sv_pending (doAccept now cfg sv) = Some Accept_session")
  case True
  then have "sv_activeSessions sv < cf_max_connections cfg"
    using assms(1) by (auto simp: doAccept_def not_le split: if_splits)
  then have "unat (of_nat (length (sv_sessions sv)) :: size_t) < unat (cf_max_connections cfg)"
    using assms(2) by (simp add: word_less_nat_alt)
  moreover have "unat (of_nat (length (sv_sessions sv)) :: size_t) = length (sv_sessions sv)"
    using assms(3,4) by (simp add: unsigned_of_nat take_bit_nat_eq_self)
  ultimately show ?thesis using assms(5) by simp
qed (use assms(4) in simp)

lemma within_limit_step:
  assumes "server_next env now ev sv = Some sv'" and "within_limit env sv" and "sessions_counted sv"
    and "unat (cf_max_connections (se_config env)) + io_thread_count (se_config env) < 2 ^ 64"
  shows "within_limit env sv'"
proof (cases "accept_event ev")
  case False
  then show ?thesis
    using no_accept_step [OF assms(1)] assms(2) by (auto simp: no_accept_def within_limit_def)
next
  case True
  let ?cfg = "se_config env"
  have count: "sv_activeSessions sv = of_nat (length (sv_sessions sv))"
    using assms(3) by (simp add: sessions_counted_def)
  have again: "within_limit env (doAccept now ?cfg (server_log now m l (sv\<lparr>sv_pending := None\<rparr>)))"
    "within_limit env (doAccept now ?cfg (sv\<lparr>sv_pending := None\<rparr>))" for m l
    using assms(2) count
      doAccept_within [of "server_log now m l (sv\<lparr>sv_pending := None\<rparr>)" ?cfg "sv_accepting sv" now]
      doAccept_within [of "sv\<lparr>sv_pending := None\<rparr>" ?cfg "sv_accepting sv" now] assms(4)
    by (simp_all add: within_limit_def split: if_splits)
  from True show ?thesis
  proof (cases ev rule: accept_event.cases)
    case (1 result)
    show ?thesis
    proof (cases result)
      case Accept_done
      then have step: "sv' = (doAccept now ?cfg (sv\<lparr>sv_pending := None\<rparr>))\<lparr>sv_accepting := sv_accepting sv + 1\<rparr>"
        and room: "sv_pending sv = Some Accept_session" "sv_accepting sv < io_thread_count ?cfg"
        using assms(1) 1 by (auto simp: io_event_def on_accept_def split: if_splits)
      show ?thesis
        using doAccept_within [of "sv\<lparr>sv_pending := None\<rparr>" ?cfg "sv_accepting sv + 1" now] room count
          assms(2,4) by (simp add: step within_limit_def)
    qed (use assms(1,2) 1 again in \<open>auto simp: io_event_def on_accept_def within_limit_def split: if_splits\<close>)
  next
    case 2
    then have "0 < sv_accepting sv" "sv' = insert_session now ?cfg (sv\<lparr>sv_accepting := sv_accepting sv - 1\<rparr>)"
      using assms(1) by (simp_all split: if_splits)
    then show ?thesis using assms(2) by (auto simp: within_limit_def List.insert_def)
  next
    case 3
    then show ?thesis using assms(1) again(2) by (simp add: io_event_def split: if_splits)
  qed simp_all
qed

lemma within_limit_reach:
  assumes "server_reach env sv"
    and "unat (cf_max_connections (se_config env)) + io_thread_count (se_config env) < 2 ^ 64"
  shows "within_limit env sv"
  using assms(1)
proof (induction rule: server_reach.induct)
  case (init now fs sv)
  then show ?case
    by (auto simp: within_limit_def start_fields io_thread_count_def)
next
  case (step sv now ev sv')
  then show ?case using within_limit_step sessions.holds assms(2) by blast
qed

text \<open>
  C32. The connection limit, as far as the code keeps it: however accepts, requests and ends of
  sessions interleave, the sessions and the accepted connections on their way to becoming one are
  never more than \<open>max_connections\<close> and the threads that run handlers together.
\<close>

theorem HttpServer_connection_limit:
  assumes "server_reach env sv"
    and "unat (cf_max_connections (se_config env)) + io_thread_count (se_config env) < 2 ^ 64"
  shows "length (sv_sessions sv) + sv_accepting sv \<le>
    unat (cf_max_connections (se_config env)) + io_thread_count (se_config env)"
  using within_limit_reach [OF assms] by (simp add: within_limit_def split: if_splits)

lemma HttpServer_connection_limit_witness:
  "\<exists>sv. example_run example_config [Sv_accept Accept_done, Sv_insert, Sv_start 0] = Some sv \<and>
    length (sv_sessions sv) + sv_accepting sv \<le> 3"
proof -
  obtain sv where run: "example_run example_config [Sv_accept Accept_done, Sv_insert, Sv_start 0] = Some sv"
    using example_session by auto
  have "unat (cf_max_connections example_config) = 1" "io_thread_count example_config = 2" by code_simp+
  then show ?thesis
    using HttpServer_connection_limit [OF example_run_reach [OF run]] run
    by (simp add: example_server_env_def)
qed

text \<open>
  The bound is not \<open>max_connections\<close>: an accept handler starts the next accept before it counts
  its own session.
\<close>

lemma accepts_run:
  assumes "sv_pending sv = Some Accept_session" and "\<not> sv_stopped sv" and "\<not> sv_draining sv"
    and "sv_activeSessions sv < cf_max_connections (se_config env)"
    and "sv_accepting sv + n \<le> io_thread_count (se_config env)"
  shows "\<exists>sv'. server_trace env now (replicate n (Sv_accept Accept_done)) sv = Some sv' \<and>
    sv_accepting sv' = sv_accepting sv + n \<and> sv_sessions sv' = sv_sessions sv"
  using assms
proof (induction n arbitrary: sv)
  case (Suc n)
  let ?sv = "(doAccept now (se_config env) (sv\<lparr>sv_pending := None\<rparr>))\<lparr>sv_accepting := sv_accepting sv + 1\<rparr>"
  have "server_next env now (Sv_accept Accept_done) sv = Some ?sv"
    using Suc.prems by (simp add: io_event_def on_accept_def)
  moreover have "sv_pending ?sv = Some Accept_session"
    using Suc.prems by (simp add: doAccept_def not_le)
  then have "\<exists>sv'. server_trace env now (replicate n (Sv_accept Accept_done)) ?sv = Some sv' \<and>
      sv_accepting sv' = sv_accepting ?sv + n \<and> sv_sessions sv' = sv_sessions ?sv"
    using Suc.prems by (intro Suc.IH) simp_all
  ultimately show ?case by auto
qed simp

lemma inserts_run:
  assumes "n \<le> sv_accepting sv" and "sessions_counted sv"
  shows "\<exists>sv'. server_trace env now (replicate n Sv_insert) sv = Some sv' \<and>
    length (sv_sessions sv') = length (sv_sessions sv) + n"
  using assms
proof (induction n arbitrary: sv)
  case (Suc n)
  let ?sv = "insert_session now (se_config env) (sv\<lparr>sv_accepting := sv_accepting sv - 1\<rparr>)"
  have "\<exists>sv'. server_trace env now (replicate n Sv_insert) ?sv = Some sv' \<and>
      length (sv_sessions sv') = length (sv_sessions ?sv) + n"
    using Suc.prems by (intro Suc.IH counted_insert) simp_all
  moreover have "length (sv_conns sv) \<notin> set (sv_sessions sv)"
    using Suc.prems(2) by (simp add: sessions_counted_def)
  ultimately show ?case using Suc.prems(1) by (simp add: List.insert_def)
qed simp

text \<open>
  C33. \<open>max_connections\<close> is exceeded: whatever its value (other than 0), there can be as many sessions
  at once as there are threads that run the I/O context.
\<close>

theorem HttpServer_limit_exceeded:
  assumes "HttpServer_start now env fs = Some (Inr sv)" and "cf_max_connections (se_config env) \<noteq> 0"
    and "n \<le> io_thread_count (se_config env)"
  shows "\<exists>sv'. server_reach env sv' \<and> length (sv_sessions sv') = n"
proof -
  note fields = start_fields [OF assms(1)]
  have "0 < cf_max_connections (se_config env)" using assms(2) by (simp add: word_gt_0)
  then obtain sv1 where one: "server_trace env now (replicate n (Sv_accept Accept_done)) sv = Some sv1"
      "sv_accepting sv1 = n" "sv_sessions sv1 = []"
    using accepts_run [of sv env n now] fields assms(2,3) by auto
  have reach: "server_reach env sv1"
    using server_reach.init [OF assms(1)] one(1) by (rule server_trace_reach)
  obtain sv2 where "server_trace env now (replicate n Sv_insert) sv1 = Some sv2" "length (sv_sessions sv2) = n"
    using inserts_run [of n sv1 env now] one sessions.holds [OF reach] by auto
  then show ?thesis using server_trace_reach [OF reach] by blast
qed

lemma HttpServer_limit_exceeded_witness:
  "unat (cf_max_connections example_config) = 1 \<and>
    (\<exists>sv. server_reach (example_server_env example_config) sv \<and> length (sv_sessions sv) = 2)"
proof -
  have conf: "unat (cf_max_connections example_config) = 1" "io_thread_count example_config = 2"
    "se_config (example_server_env example_config) = example_config"
    by (code_simp, code_simp, simp add: example_server_env_def)
  obtain sv where "HttpServer_start 0 (example_server_env example_config) example_fs = Some (Inr sv)"
    using example_session by (auto simp: example_run_def split: option.splits sum.splits)
  moreover have "cf_max_connections example_config \<noteq> 0" using conf(1) by auto
  ultimately show ?thesis using HttpServer_limit_exceeded [of 0 _ example_fs sv 2] conf by simp
qed

section \<open>The end of a drain\<close>

definition drain_inv :: "'f server \<Rightarrow> bool" where
  "drain_inv sv \<longleftrightarrow> (sv_draining sv \<longrightarrow> sv_sessions sv = [] \<longrightarrow> sv_activeSessions sv = 0 \<longrightarrow>
     sv_checks sv = 0 \<longrightarrow> sv_stopped sv)"

lemma drain_same:
  "drain_inv sv \<Longrightarrow> sv_draining sv' = sv_draining sv \<Longrightarrow> sv_sessions sv' = sv_sessions sv \<Longrightarrow>
    sv_activeSessions sv' = sv_activeSessions sv \<Longrightarrow> sv_checks sv' = sv_checks sv \<Longrightarrow>
    sv_stopped sv' = sv_stopped sv \<Longrightarrow> drain_inv sv'"
  by (simp add: drain_inv_def)

lemma drain_io_effect: "drain_inv sv \<Longrightarrow> drain_inv (io_effect now i e sv)"
  by (cases e) (auto simp: drain_inv_def)

lemma drain_io_effects: "drain_inv sv \<Longrightarrow> drain_inv (io_effects now i es sv)"
  by (induction es arbitrary: sv) (simp_all add: drain_io_effect)

lemma drain_update_conn: "drain_inv (update_conn i f sv) = drain_inv sv"
  by (simp add: drain_inv_def)

lemma drain_run_handler: "drain_inv sv \<Longrightarrow> drain_inv (run_handler now i h sv)"
  by (auto simp: run_handler_def drain_update_conn split: prod.splits intro: drain_io_effects)

lemma drain_deliver_all: "drain_inv sv \<Longrightarrow> drain_inv (fold (deliver env now) ds sv)"
  by (induction ds arbitrary: sv) (simp_all add: deliver_run_handler drain_run_handler)

lemma drain_process: "process_request env fs now i req p sv = Some sv' \<Longrightarrow> drain_inv sv \<Longrightarrow> drain_inv sv'"
  by (erule process_request_cases) (auto intro!: drain_deliver_all intro: drain_same)

lemma drain_event:
  assumes "conn_event sv i possible (Some (run_handler now i h (update_conn i f sv))) = Some sv'"
    and "drain_inv sv"
  shows "drain_inv sv'"
  using assms(1)
proof (rule conn_event_cases)
  assume "sv' = run_handler now i h (update_conn i f sv)"
  then show ?thesis using assms(2) by (simp add: drain_run_handler drain_update_conn)
qed

lemma drain_read:
  assumes "server_next env now (Sv_read i result fs) sv = Some sv'" and "drain_inv sv"
  shows "drain_inv sv'"
  using assms(1)
proof (cases rule: read_event_cases)
  case (no_request s es n)
  have "drain_inv (sv\<lparr>sv_nonZeroCounter := n\<rparr>)" by (rule drain_same [OF assms(2)]) simp_all
  then show ?thesis using no_request(7) by (simp add: drain_io_effects drain_update_conn)
next
  case (a_request req priority quiet n)
  have "drain_inv (sv\<lparr>sv_nonZeroCounter := n\<rparr>)" by (rule drain_same [OF assms(2)]) simp_all
  then show ?thesis by (intro drain_process [OF a_request(5)] drain_io_effects) (simp add: drain_update_conn)
qed

lemma drain_step:
  assumes "server_next env now ev sv = Some sv'" and "drain_inv sv"
  shows "drain_inv sv'"
proof (cases ev)
  case (Sv_read i result fs)
  then show ?thesis using drain_read assms by blast
next
  case (Sv_start i)
  show ?thesis by (rule drain_event [OF assms(1) [unfolded Sv_start server_next.simps] assms(2)])
next
  case (Sv_written i result)
  show ?thesis by (rule drain_event [OF assms(1) [unfolded Sv_written server_next.simps] assms(2)])
next
  case (Sv_timer i aborted)
  show ?thesis by (rule drain_event [OF assms(1) [unfolded Sv_timer server_next.simps] assms(2)])
next
  case (Sv_close i)
  show ?thesis by (rule drain_event [OF assms(1) [unfolded Sv_close server_next.simps] assms(2)])
next
  case (Sv_deliver k)
  have "drain_inv (sv\<lparr>sv_posted := ds\<rparr>)" for ds by (rule drain_same [OF assms(2)]) simp_all
  then show ?thesis
    using Sv_deliver assms(1) by (auto simp: io_event_def deliver_run_handler drain_run_handler split: if_splits)
next
  case Sv_insert
  then have "sv_sessions sv' \<noteq> []" using assms(1) by (auto simp: List.insert_def split: if_splits)
  then show ?thesis by (simp add: drain_inv_def)
next
  case (Sv_worker_execute k)
  then show ?thesis
    using assms by (auto simp: worker_execute_def Let_def intro: drain_same
        split: if_splits worker_pc.splits sum.splits option.splits)
next
  case (Sv_accept result)
  then show ?thesis
    using assms by (auto simp: io_event_def on_accept_def intro: drain_same split: if_splits accept_result.splits)
next
  case (Sv_signal n)
  then have "sv_checks sv' \<noteq> 0" using assms(1) by (auto simp: io_event_def on_signal_def split: if_splits)
  then show ?thesis by (simp add: drain_inv_def)
next
  case Sv_drain_check
  then show ?thesis using assms(1) by (auto simp: drain_inv_def split: if_splits)
next
  case Sv_drain_timer
  then show ?thesis
    using assms(1) by (auto simp: io_event_def on_drain_timer_def drain_inv_def split: if_splits)
qed (use assms in \<open>auto simp: io_event_def intro: drain_same split: if_splits\<close>)

interpretation drain: server_invariant env drain_inv for env
  by unfold_locales (simp add: drain_inv_def start_fields, rule drain_step)

text \<open>
  A graceful shutdown ends by itself: once the signal has been handled and no session is left,
  the I/O context is stopped, whichever of the last session, the signal handler and the drain
  timer came last.
\<close>

theorem HttpServer_drain_stops:
  assumes "server_reach env sv" and "sv_draining sv" and "sv_sessions sv = []" and "sv_checks sv = 0"
  shows "sv_stopped sv"
proof -
  have "sv_activeSessions sv = 0"
    using sessions.holds [OF assms(1)] assms(3) by (simp add: sessions_counted_def)
  then show ?thesis using drain.holds [OF assms(1)] assms(2-4) by (simp add: drain_inv_def)
qed

lemma HttpServer_drain_stops_witness:
  "\<exists>sv. example_run example_config
      [Sv_accept Accept_done, Sv_insert, Sv_start 0, Sv_signal 2, Sv_drain_check, Sv_read 0 (Read_error Eof) (still example_fs)] =
      Some sv \<and> sv_stopped sv"
proof -
  let ?evs = "[Sv_accept Accept_done, Sv_insert, Sv_start 0, Sv_signal 2, Sv_drain_check, Sv_read 0 (Read_error Eof) (still example_fs)]"
  have "map_option (\<lambda>sv. (sv_sessions sv, sv_draining sv, sv_checks sv)) (example_run example_config ?evs) =
      Some ([], True, 0)"
    by code_simp
  then obtain sv where run: "example_run example_config ?evs = Some sv"
    and sv: "sv_draining sv" "sv_sessions sv = []" "sv_checks sv = 0" by auto
  then show ?thesis using HttpServer_drain_stops [OF example_run_reach [OF run] sv] by blast
qed

end
