(* ===== verification/Server_Shutdown.thy ===== *)
theory Server_Shutdown
  imports Server_Responses Server_Sessions
begin

text \<open>
  The end of the server: the forced end of a drain, and \<open>HttpServer::shutdown\<close>, which joins the
  I/O threads, drains the pool within its timeout and flushes the log.
\<close>

section \<open>The procedure\<close>

definition abandoned_message :: "nat \<Rightarrow> string" where
  "abandoned_message abandonedWorkers = ''Warning: '' @ nat_to_string abandonedWorkers @
     '' worker thread(s) did not finish within drain_timeout_sec and were abandoned (detached) '' @
     [CHR 0xE2, CHR 0x80, CHR 0x94] @ '' server is exiting anyway''"

definition shutdown_messages :: "ticks \<Rightarrow> nat \<Rightarrow> 'f server \<Rightarrow> 'f server" where
  "shutdown_messages t abandonedWorkers sv =
     (let sv = (if abandonedWorkers > 0 then server_log t (abandoned_message abandonedWorkers) WARNING sv else sv)
      in server_log t ''Server stopped.'' INFO (server_log t ''Shutting down logger...'' INFO sv))"

text \<open>
  The loop of each worker ends at the time \<open>done_at\<close> gives for it, or never; the log consumer runs
  \<open>rounds\<close> rounds beside the last join. \<^const>\<open>None\<close> is a join that still blocks: of the I/O
  threads as long as the context runs or a handler is on its way, of a worker that never ends when
  there is no timeout, or of the log consumer. The timeout is in seconds; \<open>1000 * \<dots>\<close> is an integer,
  where the code's conversion to milliseconds overflows from about \<open>2 ^ 63 / 1000\<close> seconds on.
\<close>

definition HttpServer_shutdown :: "'f server_env \<Rightarrow> (nat \<Rightarrow> ticks option) \<Rightarrow> nat \<Rightarrow> ticks \<Rightarrow> 'f server \<Rightarrow>
    ('f server \<times> ticks) option" where
  "HttpServer_shutdown env done_at rounds now sv =
     (if sv_shutdownDone sv then Some (sv, now)
      else let sv = close_sessions (sv\<lparr>sv_shutdownDone := True, sv_draining := True\<rparr>) in
        if 0 < sv_ioThreads sv \<and> (\<not> sv_stopped sv \<or> 0 < sv_accepting sv \<or> 0 < sv_checks sv) then None
        else let sv = server_log now ''Shutting down pool...'' INFO sv in
          case ThreadPool_shutdownWithTimeout done_at (1000 * sint (cf_drain_timeout_sec (se_config env))) now (sv_pool sv) of
            None \<Rightarrow> None
          | Some (abandonedWorkers, pool, t) \<Rightarrow>
              (let sv = shutdown_messages t abandonedWorkers (sv\<lparr>sv_pool := pool\<rparr>)
               in map_option (\<lambda>l. (sv\<lparr>sv_logger := l\<rparr>, t))
                    (AsyncLogger_shutdown (se_localtime env) rounds (sv_logger sv))))"

section \<open>What a running server has\<close>

definition kept :: "'f server \<Rightarrow> thread_state \<times> bool \<times> bool \<times> nat" where
  "kept sv = (al_thread (sv_logger sv), mq_done (al_queue (sv_logger sv)), sv_shutdownDone sv, sv_ioThreads sv)"

lemma AsyncLogger_log_simps [simp]:
  "al_thread (AsyncLogger_log now m l lg) = al_thread lg"
  "mq_done (al_queue (AsyncLogger_log now m l lg)) = mq_done (al_queue lg)"
  "al_sink (AsyncLogger_log now m l lg) = al_sink lg"
  by (simp_all add: AsyncLogger_log_def MessageQueue_push_def)

lemma kept_simps [simp]:
  "kept (server_log now m l sv) = kept sv" "kept (update_conn i f sv) = kept sv"
  "kept (checkDrainComplete now sv) = kept sv" "kept (HttpServer_endSession now i sv) = kept sv"
  "kept (doAccept now cfg sv) = kept sv" "kept (insert_session now cfg sv) = kept sv"
  by (simp_all add: kept_def server_log_def update_conn_def checkDrainComplete_def HttpServer_endSession_def
      doAccept_def insert_session_eq Let_def)

lemma kept_close_sessions [simp]: "kept (close_sessions sv) = kept sv"
proof -
  have "kept (fold (\<lambda>i. update_conn i (f i)) is sv) = kept sv" for f "is"
    by (induction "is" arbitrary: sv) simp_all
  then show ?thesis by (simp add: close_sessions_def)
qed

lemma kept_io_effect [simp]: "kept (io_effect now i e sv) = kept sv"
  by (cases e) simp_all

lemma kept_io_effects [simp]: "kept (io_effects now i es sv) = kept sv"
  by (induction es arbitrary: sv) simp_all

lemma kept_run_handler [simp]: "kept (run_handler now i h sv) = kept sv"
  by (simp add: run_handler_def case_prod_beta)

lemma kept_deliver_all [simp]: "kept (fold (deliver env now) ds sv) = kept sv"
  by (induction ds arbitrary: sv) (simp_all add: deliver_run_handler)

lemma kept_updates [simp]:
  "kept (sv\<lparr>sv_pool := p\<rparr>) = kept sv" "kept (sv\<lparr>sv_posted := ds\<rparr>) = kept sv"
  "kept (sv\<lparr>sv_pending := o1\<rparr>) = kept sv" "kept (sv\<lparr>sv_accepting := n\<rparr>) = kept sv"
  "kept (sv\<lparr>sv_checks := n\<rparr>) = kept sv" "kept (sv\<lparr>sv_drainTimer := b\<rparr>) = kept sv"
  "kept (sv\<lparr>sv_draining := b\<rparr>) = kept sv" "kept (sv\<lparr>sv_signalWait := b\<rparr>) = kept sv"
  "kept (sv\<lparr>sv_nonZeroCounter := u\<rparr>) = kept sv" "kept (sv\<lparr>sv_stopped := b\<rparr>) = kept sv"
  by (simp_all add: kept_def)

definition no_abandoned :: "'a thread_pool \<Rightarrow> bool" where
  "no_abandoned p \<longleftrightarrow> (\<forall>w \<in> set (tp_workers p). \<not> wk_abandoned w)"

lemma no_abandoned_pop: "worker_pop now k p = Some p' \<Longrightarrow> no_abandoned p \<Longrightarrow> no_abandoned p'"
proof -
  assume pop: "worker_pop now k p = Some p'" and none: "no_abandoned p"
  then obtain pc where "tp_workers p' = (tp_workers p)[k := (tp_workers p ! k)\<lparr>wk_pc := pc\<rparr>]"
    by (auto simp: worker_pop_def split: option.splits)
  then show "no_abandoned p'"
    using none unfolding no_abandoned_def
    by (cases "k < length (tp_workers p)") (auto dest!: set_update_cases simp: list_update_beyond)
qed

lemma no_abandoned_executed: "no_abandoned p \<Longrightarrow> no_abandoned (worker_executed k p)"
  unfolding no_abandoned_def worker_executed_def
  by (cases "k < length (tp_workers p)") (auto dest!: set_update_cases simp: list_update_beyond)

lemma no_abandoned_process:
  "RequestProcessor_process B J handle routes now req priority i pool = Some (pool', posted, direct) \<Longrightarrow>
    no_abandoned pool \<Longrightarrow> no_abandoned pool'"
  by (auto simp: RequestProcessor_process_def ThreadPool_submit_def no_abandoned_def Let_def
      split: if_splits option.splits prod.splits)

definition running :: "'f server_env \<Rightarrow> 'f server \<Rightarrow> bool" where
  "running env sv \<longleftrightarrow> kept sv = (Running, False, False, io_thread_number (se_config env)) \<and> no_abandoned (sv_pool sv)"

lemma fold_deliver_pool [simp]: "sv_pool (fold (deliver env now) ds sv) = sv_pool sv"
  by (induction ds arbitrary: sv) (simp_all add: deliver_run_handler run_handler_def case_prod_beta)

lemma running_process:
  "process_request env fs now i req p sv = Some sv' \<Longrightarrow> running env sv \<Longrightarrow> running env sv'"
  by (erule process_request_cases) (auto simp: running_def dest: no_abandoned_process)

lemma running_read:
  assumes "server_next env now (Sv_read i result fs) sv = Some sv'" and "running env sv"
  shows "running env sv'"
  using assms(1)
proof (cases rule: read_event_cases)
  case (no_request s es n)
  then show ?thesis using assms(2) by (simp add: running_def)
next
  case (a_request req priority quiet n)
  show ?thesis using assms(2) by (intro running_process [OF a_request(5)]) (simp add: running_def)
qed

lemma running_event:
  assumes "conn_event sv i possible (Some (run_handler now i h (update_conn i f sv))) = Some sv'"
    and "running env sv"
  shows "running env sv'"
  using assms(1)
proof (rule conn_event_cases)
  assume "sv' = run_handler now i h (update_conn i f sv)"
  then show ?thesis using assms(2) by (simp add: running_def run_handler_def case_prod_beta)
qed

lemma running_log_round:
  assumes "LogConsumer_round lt (sv_logger sv) = Some l" and "running env sv"
  shows "running env (sv\<lparr>sv_logger := l\<rparr>)"
  using assms
  by (auto simp: running_def kept_def LogConsumer_round_def MessageQueue_pop_def split: option.splits list.splits if_splits)

lemma running_step:
  assumes "server_next env now ev sv = Some sv'" and "running env sv"
  shows "running env sv'"
proof (cases ev)
  case (Sv_read i result fs)
  then show ?thesis using running_read assms by blast
next
  case Sv_log_round
  then show ?thesis using assms running_log_round by (auto split: if_splits)
next
  case (Sv_worker_pop k)
  then show ?thesis using assms by (auto simp: running_def dest: no_abandoned_pop split: if_splits)
next
  case (Sv_worker_execute k)
  then show ?thesis
    using assms by (auto simp: running_def worker_execute_def Let_def no_abandoned_executed
        split: if_splits worker_pc.splits sum.splits option.splits)
next
  case (Sv_deliver k)
  then show ?thesis
    using assms by (auto simp: running_def io_event_def deliver_run_handler run_handler_def case_prod_beta
        split: if_splits)
next
  case (Sv_start i)
  show ?thesis by (rule running_event [OF assms(1) [unfolded Sv_start server_next.simps] assms(2)])
next
  case (Sv_written i result)
  show ?thesis by (rule running_event [OF assms(1) [unfolded Sv_written server_next.simps] assms(2)])
next
  case (Sv_timer i aborted)
  show ?thesis by (rule running_event [OF assms(1) [unfolded Sv_timer server_next.simps] assms(2)])
next
  case (Sv_close i)
  show ?thesis by (rule running_event [OF assms(1) [unfolded Sv_close server_next.simps] assms(2)])
qed (use assms in \<open>auto simp: running_def io_event_def on_accept_def on_signal_def on_drain_timer_def
    split: if_splits accept_result.splits\<close>)

lemma no_abandoned_start:
  assumes "ThreadPool_start (ThreadPool_new n z) = Some p"
  shows "no_abandoned p"
proof -
  have "\<forall>w \<in> set ws'. \<not> wk_abandoned w"
    if "start_all ws = Some ws'" "\<forall>w \<in> set ws. \<not> wk_abandoned w" for ws ws' :: "'a worker list"
    using that by (induction ws arbitrary: ws') (auto simp: WorkerThread_start_def split: option.splits if_splits)
  then show ?thesis
    using assms by (fastforce simp: no_abandoned_def ThreadPool_start_def ThreadPool_new_def WorkerThread_new_def)
qed

lemma running_start:
  assumes "HttpServer_start now env fs = Some (Inr sv)"
  shows "running env sv"
proof -
  have pool: "no_abandoned (sv_pool sv)" by (rule no_abandoned_start [OF start_fields(10) [OF assms]])
  from assms obtain sv0 logger m m' regs pool where sv0: "HttpServer_new env = Inr sv0"
    and logger: "LogConsumer_start (sv_logger sv0) = Some logger"
    and sv: "sv = (doAccept now (se_config env) (server_log now m INFO ((server_log now m' INFO (sv0\<lparr>sv_logger := logger\<rparr>))
      \<lparr>sv_routes := build_routes (se_beast env) regs, sv_pool := pool, sv_signalWait := True\<rparr>)))
      \<lparr>sv_ioThreads := io_thread_number (se_config env)\<rparr>"
    by (rule start_cases)
  have "\<not> mq_done (al_queue (sv_logger sv0))"
    using sv0 by (auto simp: HttpServer_new_def Let_def map_sum_def AsyncLogger_new_def AsyncLogger_setMinLevel_def
        split: sum.splits)
  then have base: "al_thread logger = Running" "\<not> mq_done (al_queue logger)"
    using logger by (auto simp: LogConsumer_start_def split: if_splits)
  have thread: "kept (s\<lparr>sv_ioThreads := n\<rparr>) = (case kept s of (a, b, c, d) \<Rightarrow> (a, b, c, n))"
    "kept (s\<lparr>sv_routes := r\<rparr>) = kept s" for s :: "'a server" and n r
    by (simp_all add: kept_def)
  have "kept sv = (Running, False, False, io_thread_number (se_config env))"
    using base new_fields(12) [OF sv0] unfolding sv by (simp add: thread) (simp add: kept_def)
  then show ?thesis using pool by (simp add: running_def)
qed

interpretation running: server_invariant env "running env" for env
  by unfold_locales (rule running_start, assumption, rule running_step)

section \<open>The shutdown returns\<close>

lemma none_abandoned: "running env sv \<Longrightarrow> abandoned_count (tp_workers (sv_pool sv)) = 0"
  by (auto simp: running_def no_abandoned_def abandoned_count_def filter_empty_conv)

lemma log_line:
  "al_thread (AsyncLogger_log now m l lg) = al_thread lg"
  "length (mq_queue (al_queue (AsyncLogger_log now m l lg))) \<le> length (mq_queue (al_queue lg)) + 1"
  by (simp_all add: AsyncLogger_log_def MessageQueue_push_def)

lemma server_log_logger [simp]: "sv_logger (server_log now m l sv) = AsyncLogger_log now m l (sv_logger sv)"
  by (simp add: server_log_def)

lemma close_sessions_logger [simp]: "sv_logger (close_sessions sv) = sv_logger sv"
proof -
  have "sv_logger (fold (\<lambda>i. update_conn i (f i)) is sv) = sv_logger sv" for f "is"
    by (induction "is" arbitrary: sv) (simp_all add: update_conn_def)
  then show ?thesis by (simp add: close_sessions_def)
qed

text \<open>The lines of a shutdown that starts at \<open>now\<close>, and has drained the pool at \<open>t\<close>, with \<open>n\<close> workers abandoned.\<close>

definition shutdown_lines :: "ticks \<Rightarrow> ticks \<Rightarrow> nat \<Rightarrow> async_logger \<Rightarrow> log_message list" where
  "shutdown_lines now t n l = logged now ''Shutting down pool...'' INFO l @
     (if 0 < n then logged t (abandoned_message n) WARNING l else []) @
     logged t ''Shutting down logger...'' INFO l @ logged t ''Server stopped.'' INFO l"

text \<open>
  The log is complete: the sink has every line that was written or queued before the shutdown, and
  those of the shutdown.
\<close>

definition log_complete :: "(int \<Rightarrow> tm) \<Rightarrow> ticks \<Rightarrow> ticks \<Rightarrow> async_logger \<Rightarrow> 'f server \<Rightarrow> bool" where
  "log_complete localtime now t before sv \<longleftrightarrow> sink_text (al_sink (sv_logger sv)) = log_text localtime before @
     concat (map (LogSink_line localtime)
       (shutdown_lines now t (abandoned_count (tp_workers (sv_pool sv))) before))"

text \<open>What \<open>shutdown\<close> does, once its joins of the I/O threads are through and the pool has drained.\<close>

lemma shutdown_after_drain:
  assumes "al_thread (sv_logger sv) = Running" and "\<not> sv_shutdownDone sv"
    and "sv_ioThreads sv = 0 \<or> sv_stopped sv \<and> sv_accepting sv = 0 \<and> sv_checks sv = 0"
    and drain: "ThreadPool_shutdownWithTimeout done_at (1000 * sint (cf_drain_timeout_sec (se_config env))) now
      (sv_pool sv) = Some (n, pool, t)"
    and "length (mq_queue (al_queue (sv_logger sv))) + 4 < rounds"
  obtains sv' where "HttpServer_shutdown env done_at rounds now sv = Some (sv', t)" "sv_pool sv' = pool"
    "sv_shutdownDone sv'" "al_thread (sv_logger sv') = Joined" "mq_queue (al_queue (sv_logger sv')) = []"
    "sink_text (al_sink (sv_logger sv')) = log_text (se_localtime env) (sv_logger sv) @
      concat (map (LogSink_line (se_localtime env)) (shutdown_lines now t n (sv_logger sv)))"
proof -
  define sv0 where "sv0 = close_sessions (sv\<lparr>sv_shutdownDone := True, sv_draining := True\<rparr>)"
  define sv1 where "sv1 = server_log now ''Shutting down pool...'' INFO sv0"
  define sv3 where "sv3 = shutdown_messages t n (sv1\<lparr>sv_pool := pool\<rparr>)"
  have sv0: "sv_shutdownDone sv0" "sv_ioThreads sv0 = sv_ioThreads sv" "sv_logger sv0 = sv_logger sv" "sv_pool sv0 = sv_pool sv"
    "sv_stopped sv0 = sv_stopped sv" "sv_accepting sv0 = sv_accepting sv" "sv_checks sv0 = sv_checks sv"
    using kept_close_sessions [of "sv\<lparr>sv_shutdownDone := True, sv_draining := True\<rparr>"]
    by (simp_all add: sv0_def kept_def)
  then have sv3: "sv_shutdownDone sv3" "al_thread (sv_logger sv3) = Running" "sv_pool sv3 = pool"
      "length (mq_queue (al_queue (sv_logger sv3))) \<le> length (mq_queue (al_queue (sv_logger sv))) + 4"
    using assms(1)
    by (auto simp: sv3_def sv1_def shutdown_messages_def server_log_def AsyncLogger_log_def MessageQueue_push_def)
  obtain l where l: "AsyncLogger_shutdown (se_localtime env) rounds (sv_logger sv3) = Some l" "al_thread l = Joined"
      "mq_queue (al_queue l) = []" "sink_text (al_sink l) = log_text (se_localtime env) (sv_logger sv3)"
    using logger_shutdown_ends [OF sv3(2), of rounds "se_localtime env"] sv3(4) assms(5) by (auto simp: log_text_def)
  have lines: "log_text (se_localtime env) (sv_logger sv3) = log_text (se_localtime env) (sv_logger sv) @
      concat (map (LogSink_line (se_localtime env)) (shutdown_lines now t n (sv_logger sv)))"
    using sv0(3) by (simp add: sv3_def sv1_def shutdown_messages_def shutdown_lines_def log_text_log Let_def)
  have "HttpServer_shutdown env done_at rounds now sv = Some (sv3\<lparr>sv_logger := l\<rparr>, t)"
    using assms(2,3) drain l(1) sv0(2,4-7)
    unfolding HttpServer_shutdown_def Let_def sv3_def sv1_def sv0_def [symmetric] by auto
  then show thesis by (rule that) (simp_all add: sv3 l lines)
qed

text \<open>
  C18. The server always stops in bounded time: once the I/O context is stopped and its running
  handlers are through, \<open>shutdown\<close> with a positive \<open>drain_timeout_sec\<close> returns within the timeout
  and half a second, whatever the tasks in the pool do; every worker is joined or abandoned, the
  task queue is closed, the log consumer is joined, the sink has, after what had been written, a line
  for every message that was queued and for the messages of the shutdown itself, in order, and
  a second call (of the destructor) returns at once. With a \<open>drain_timeout_sec\<close> that is not positive
  the code joins without a timeout, and may wait for ever.
\<close>

theorem HttpServer_shutdown_returns:
  assumes "server_reach env sv" and "sv_stopped sv" and "sv_accepting sv = 0" and "sv_checks sv = 0"
    and "0 < sint (cf_drain_timeout_sec (se_config env))"
    and "length (mq_queue (al_queue (sv_logger sv))) + 4 < rounds"
  shows "\<exists>sv' t. HttpServer_shutdown env done_at rounds now sv = Some (sv', t) \<and> now \<le> t \<and>
    t \<le> now + 1000000 * (1000 * sint (cf_drain_timeout_sec (se_config env)) + 500) \<and>
    (\<forall>w \<in> set (tp_workers (sv_pool sv')). \<not> wk_joinable w) \<and> tq_done (tp_queue (sv_pool sv')) \<and>
    al_thread (sv_logger sv') = Joined \<and> mq_queue (al_queue (sv_logger sv')) = [] \<and>
    log_complete (se_localtime env) now t (sv_logger sv) sv' \<and>
    HttpServer_shutdown env done_at' rounds' now' sv' = Some (sv', now')"
proof -
  have run: "running env sv" using assms(1) by (rule running.holds)
  have fields: "al_thread (sv_logger sv) = Running" "\<not> sv_shutdownDone sv" "abandoned_detached (sv_pool sv)"
    using run by (simp_all add: running_def kept_def no_abandoned_def abandoned_detached_def)
  obtain n pool t where drain: "ThreadPool_shutdownWithTimeout done_at
      (1000 * sint (cf_drain_timeout_sec (se_config env))) now (sv_pool sv) = Some (n, pool, t)"
    and pool: "now \<le> t" "t \<le> now + 1000000 * (1000 * sint (cf_drain_timeout_sec (se_config env)) + 500)"
      "tq_done (tp_queue pool)" "\<forall>w \<in> set (tp_workers pool). \<not> wk_joinable w"
      "abandoned_count (tp_workers pool) = n + abandoned_count (tp_workers (sv_pool sv))"
    using shutdownWithTimeout_ends [OF _ fields(3)] assms(5) by (metis mult_pos_pos zero_less_numeral)
  have count: "n = abandoned_count (tp_workers pool)"
    using pool(5) none_abandoned [OF run] by simp
  have through: "sv_ioThreads sv = 0 \<or> sv_stopped sv \<and> sv_accepting sv = 0 \<and> sv_checks sv = 0"
    using assms(2-4) by simp
  obtain sv' where sv': "HttpServer_shutdown env done_at rounds now sv = Some (sv', t)" "sv_pool sv' = pool"
    "sv_shutdownDone sv'" "al_thread (sv_logger sv') = Joined" "mq_queue (al_queue (sv_logger sv')) = []"
    "sink_text (al_sink (sv_logger sv')) = log_text (se_localtime env) (sv_logger sv) @
      concat (map (LogSink_line (se_localtime env)) (shutdown_lines now t n (sv_logger sv)))"
    by (rule shutdown_after_drain [OF fields(1,2) through drain assms(6)])
  then have "log_complete (se_localtime env) now t (sv_logger sv) sv'" by (simp add: log_complete_def count)
  moreover have "HttpServer_shutdown env done_at' rounds' now' sv' = Some (sv', now')"
    by (simp add: HttpServer_shutdown_def sv'(3))
  ultimately show ?thesis using pool sv' by (intro exI [of _ sv'] exI [of _ t]) simp
qed

definition drain_events :: "(string \<times> string) list server_event list" where
  "drain_events = [Sv_accept Accept_done, Sv_insert, Sv_start 0, Sv_signal 2, Sv_drain_check,
     Sv_read 0 (Read_error Eof) (still example_fs)]"

lemma drain_example:
  "map_option (\<lambda>sv. (sv_stopped sv, sv_accepting sv, sv_checks sv, mq_queue (al_queue (sv_logger sv))))
     (example_run example_config drain_events) = Some (True, 0, 0, [])"
  by code_simp

lemma HttpServer_shutdown_returns_witness:
  "\<exists>sv sv' t. example_run example_config drain_events = Some sv \<and>
    HttpServer_shutdown (example_server_env example_config) (\<lambda>_. None) 5 0 sv = Some (sv', t) \<and>
    t \<le> 5500000000 \<and> al_thread (sv_logger sv') = Joined"
proof -
  obtain sv where run: "example_run example_config drain_events = Some sv"
    and sv: "sv_stopped sv" "sv_accepting sv = 0" "sv_checks sv = 0" "mq_queue (al_queue (sv_logger sv)) = []"
    using drain_example by auto
  have "sint (cf_drain_timeout_sec (se_config (example_server_env example_config))) = 5"
    by (simp add: example_server_env_def example_config_def Config_default_def)
  then show ?thesis
    using HttpServer_shutdown_returns [OF example_run_reach [OF run] sv(1-3), of 5 "\<lambda>_. None" 0] sv(4) run
    by fastforce
qed

section \<open>The forced end of a drain\<close>

text \<open>Running the close handler of a session that has not ended takes it out of the set.\<close>

lemma close_step:
  assumes "i < length (sv_conns sv)" and "0 < cn_closes (sv_conns sv ! i)" and "\<not> sv_stopped sv"
    and "\<not> ss_closed (cn_session (sv_conns sv ! i))" and "\<not> ss_ended (cn_session (sv_conns sv ! i))"
  obtains sv' where "server_next env now (Sv_close i) sv = Some sv'"
    "sv_sessions sv' = removeAll i (sv_sessions sv)" "sv_activeSessions sv' = sv_activeSessions sv - 1"
    "sv_draining sv' = sv_draining sv" "sv_stopped sv' \<longleftrightarrow> sv_draining sv \<and> sv_activeSessions sv - 1 = 0"
    "length (sv_conns sv') = length (sv_conns sv)" "\<And>j. j \<noteq> i \<Longrightarrow> sv_conns sv' ! j = sv_conns sv ! j"
proof -
  let ?s = "(cn_session (sv_conns sv ! i))\<lparr>ss_closed := True, ss_ended := True\<rparr>"
  let ?sv = "update_conn i (\<lambda>c. c\<lparr>cn_session := ?s\<rparr>) (update_conn i (\<lambda>c. c\<lparr>cn_closes := cn_closes c - 1\<rparr>) sv)"
  let ?after = "HttpServer_endSession now i (update_conn i (\<lambda>c. c\<lparr>cn_open := False\<rparr>) ?sv)"
  have step: "server_next env now (Sv_close i) sv = Some ?after"
    using assms by (simp add: conn_event_def io_event_def run_handler_def Session_close_def Session_endSession_def)
  show thesis by (rule that [OF step]) (use assms(1,3) in simp_all)
qed

lemma close_all_stops:
  assumes "sv_draining sv" and "\<not> sv_stopped sv" and "is \<noteq> []" and "distinct is" and "length is < 2 ^ 64"
    and "sv_sessions sv = is" and "sv_activeSessions sv = of_nat (length is)"
    and "\<forall>i \<in> set is. i < length (sv_conns sv) \<and> 0 < cn_closes (sv_conns sv ! i) \<and>
      \<not> ss_closed (cn_session (sv_conns sv ! i)) \<and> \<not> ss_ended (cn_session (sv_conns sv ! i))"
  shows "\<exists>sv'. server_trace env now (map Sv_close is) sv = Some sv' \<and> sv_stopped sv'"
  using assms
proof (induction "is" arbitrary: sv)
  case (Cons i "is")
  obtain sv1 where step: "server_next env now (Sv_close i) sv = Some sv1"
    and sv1: "sv_sessions sv1 = removeAll i (sv_sessions sv)" "sv_activeSessions sv1 = sv_activeSessions sv - 1"
      "sv_draining sv1 = sv_draining sv" "sv_stopped sv1 \<longleftrightarrow> sv_draining sv \<and> sv_activeSessions sv - 1 = 0"
      "length (sv_conns sv1) = length (sv_conns sv)" "\<And>j. j \<noteq> i \<Longrightarrow> sv_conns sv1 ! j = sv_conns sv ! j"
    using close_step [of i sv env now] Cons.prems by (metis list.set_intros(1))
  have rest: "sv_sessions sv1 = is" "sv_activeSessions sv1 = of_nat (length is)" "i \<notin> set is"
    using Cons.prems sv1(1,2) by auto
  show ?case
  proof (cases "is = []")
    case True
    then have "sv_stopped sv1" using Cons.prems(1,7) sv1(4) by simp
    then show ?thesis using step True by simp
  next
    case False
    have "unat (of_nat (length is) :: size_t) = length is"
      using Cons.prems(5) by (simp add: unsigned_of_nat take_bit_nat_eq_self)
    then have "(of_nat (length is) :: size_t) \<noteq> 0" using False by (metis length_0_conv unsigned_0)
    then have "\<not> sv_stopped sv1" using sv1(2,4) rest(2) by simp
    moreover have "\<forall>j \<in> set is. j < length (sv_conns sv1) \<and> 0 < cn_closes (sv_conns sv1 ! j) \<and>
        \<not> ss_closed (cn_session (sv_conns sv1 ! j)) \<and> \<not> ss_ended (cn_session (sv_conns sv1 ! j))"
    proof
      fix j assume j: "j \<in> set is"
      then have "sv_conns sv1 ! j = sv_conns sv ! j" using sv1(6) rest(3) by metis
      then show "j < length (sv_conns sv1) \<and> 0 < cn_closes (sv_conns sv1 ! j) \<and>
          \<not> ss_closed (cn_session (sv_conns sv1 ! j)) \<and> \<not> ss_ended (cn_session (sv_conns sv1 ! j))"
        using Cons.prems(8) sv1(5) j by simp
    qed
    ultimately have "\<exists>sv'. server_trace env now (map Sv_close is) sv1 = Some sv' \<and> sv_stopped sv'"
      using Cons.prems False sv1(3) rest by (intro Cons.IH) simp_all
    then show ?thesis using step by simp
  qed
qed simp

lemma close_sessions_closes:
  assumes "i \<in> set (sv_sessions sv)" and "i < length (sv_conns sv)"
  shows "0 < cn_closes (sv_conns (close_sessions sv) ! i)"
proof -
  have "cn_closes (sv_conns sv ! i) \<le> cn_closes (sv_conns (fold (\<lambda>i. update_conn i (\<lambda>c. c\<lparr>cn_closes := cn_closes c + 1\<rparr>)) is sv) ! i) \<and>
      (i \<in> set is \<longrightarrow> 0 < cn_closes (sv_conns (fold (\<lambda>i. update_conn i (\<lambda>c. c\<lparr>cn_closes := cn_closes c + 1\<rparr>)) is sv) ! i))"
    if "i < length (sv_conns sv)" for "is" and sv :: "'a server"
    using that
  proof (induction "is" arbitrary: sv)
    case (Cons j "is")
    let ?sv = "update_conn j (\<lambda>c. c\<lparr>cn_closes := cn_closes c + 1\<rparr>) sv"
    have "cn_closes (sv_conns sv ! i) + of_bool (i = j) \<le> cn_closes (sv_conns ?sv ! i)"
      using Cons.prems by (cases "j < length (sv_conns sv)") (auto simp: update_conn_def nth_list_update)
    then show ?case using Cons.IH [of ?sv] Cons.prems by (auto simp: of_bool_def split: if_splits)
  qed simp
  then show ?thesis using assms by (simp add: close_sessions_def)
qed

text \<open>
  C26. The drain timer ends a drain that clients hold up: when it fires, every session left gets a
  close on its strand, and once those handlers have run, in any order that the set of sessions has,
  the I/O context is stopped.
\<close>

theorem HttpServer_forced_drain:
  assumes "server_reach env sv" and "sv_draining sv" and "sv_drainTimer sv" and "\<not> sv_stopped sv"
    and "unat (cf_max_connections (se_config env)) + io_thread_count (se_config env) < 2 ^ 64"
  shows "\<exists>sv'. server_trace env now (Sv_drain_timer # map Sv_close (sv_sessions sv)) sv = Some sv' \<and> sv_stopped sv'"
proof -
  have counted: "sessions_counted sv" by (rule sessions.holds [OF assms(1)])
  have short: "length (sv_sessions sv) < 2 ^ 64"
    using within_limit_reach [OF assms(1,5)] assms(5) by (simp add: within_limit_def)
  let ?m = "server_log now ''Drain timeout reached, forcing remaining sessions closed'' WARNING (sv\<lparr>sv_drainTimer := False\<rparr>)"
  let ?sv = "checkDrainComplete now (close_sessions ?m)"
  have step: "server_next env now Sv_drain_timer sv = Some ?sv"
    using assms(3,4) by (simp add: io_event_def on_drain_timer_def)
  show ?thesis
  proof (cases "sv_sessions sv = []")
    case True
    then have "sv_activeSessions sv = 0" using counted by (simp add: sessions_counted_def)
    then show ?thesis using step True assms(2) by simp
  next
    case False
    have active: "sv_activeSessions sv = of_nat (length (sv_sessions sv))" "distinct (sv_sessions sv)"
      using counted by (simp_all add: sessions_counted_def)
    have "unat (of_nat (length (sv_sessions sv)) :: size_t) = length (sv_sessions sv)"
      using short by (simp add: unsigned_of_nat take_bit_nat_eq_self)
    then have "sv_activeSessions sv \<noteq> 0" using False active(1) by (metis length_0_conv unsigned_0)
    then have "\<not> sv_stopped ?sv" using assms(4) by simp
    moreover have "i < length (sv_conns ?sv) \<and> 0 < cn_closes (sv_conns ?sv ! i) \<and>
        \<not> ss_closed (cn_session (sv_conns ?sv ! i)) \<and> \<not> ss_ended (cn_session (sv_conns ?sv ! i))"
      if "i \<in> set (sv_sessions sv)" for i
    proof -
      have i: "i < length (sv_conns sv)" "\<not> ss_ended (cn_session (sv_conns sv ! i))"
        using that counted by (auto simp: sessions_counted_def)
      then have "\<not> ss_closed (cn_session (sv_conns sv ! i))"
        using protocol.holds [OF assms(1)] by (auto simp: protocol_def one_token_def closed_ended_def)
      moreover have "cn_session (sv_conns (close_sessions ?m) ! i) = cn_session (sv_conns sv ! i)"
        using close_sessions_conn [of ?m i] by auto
      ultimately show ?thesis using i close_sessions_closes [of i ?m] that by simp
    qed
    ultimately have "\<exists>sv'. server_trace env now (map Sv_close (sv_sessions sv)) ?sv = Some sv' \<and> sv_stopped sv'"
      using False active short assms(2) by (intro close_all_stops) simp_all
    then show ?thesis using step by simp
  qed
qed

lemma draining_example:
  "map_option (\<lambda>sv. (sv_sessions sv, sv_draining sv, sv_drainTimer sv, sv_stopped sv))
     (example_run example_config (take 5 drain_events)) = Some ([0], True, True, False)"
  by code_simp

lemma HttpServer_forced_drain_witness:
  "\<exists>sv sv'. example_run example_config (take 5 drain_events) = Some sv \<and>
    server_trace (example_server_env example_config) 0 [Sv_drain_timer, Sv_close 0] sv = Some sv' \<and> sv_stopped sv'"
proof -
  obtain sv where run: "example_run example_config (take 5 drain_events) = Some sv"
    and sv: "sv_sessions sv = [0]" "sv_draining sv" "sv_drainTimer sv" "\<not> sv_stopped sv"
    using draining_example by auto
  have "unat (cf_max_connections (se_config (example_server_env example_config))) = 1"
    "io_thread_count (se_config (example_server_env example_config)) = 2" by code_simp+
  then show ?thesis
    using HttpServer_forced_drain [OF example_run_reach [OF run] sv(2-4), of 0] sv(1) run by auto
qed

end
