(* ===== verification/Server_Answers.thy ===== *)
theory Server_Answers
  imports Server_Shutdown
begin

text \<open>
  From the request to its response through the whole server: whatever is written to a connection is
  the answer to the last request read from it.
\<close>

section \<open>Requests and answers\<close>

text \<open>
  The last request read from each session, with the file system and the pool as they were when it
  was read; a read that fails leaves none.
\<close>

record 'f asked =
  ak_request :: "'f request"
  ak_files :: files
  ak_pool :: "'f http_task thread_pool"

type_synonym 'f history = "nat \<Rightarrow> 'f asked option"

fun last_read :: "'f server_event \<Rightarrow> 'f server \<Rightarrow> 'f history \<Rightarrow> 'f history" where
  "last_read (Sv_read i (Read_request req) fs) sv h =
     h(i := Some \<lparr>ak_request = req, ak_files = fs, ak_pool = sv_pool sv\<rparr>)"
| "last_read (Sv_read i (Read_error e) fs) sv h = h(i := None)"
| "last_read _ sv h = h"

inductive server_history :: "'f server_env \<Rightarrow> 'f history \<Rightarrow> 'f server \<Rightarrow> bool" for env where
  init: "HttpServer_start now env fs = Some (Inr sv) \<Longrightarrow> server_history env (\<lambda>_. None) sv"
| step: "server_history env h sv \<Longrightarrow> server_next env now ev sv = Some sv' \<Longrightarrow>
    server_history env (last_read ev sv h) sv'"

lemma history_reach: "server_history env h sv \<Longrightarrow> server_reach env sv"
  by (induction rule: server_history.induct) (auto intro: server_reach.intros)

definition busy_response :: "'f server_env \<Rightarrow> 'f response" where
  "busy_response env = makeResponse (se_beast env) (Response_new (se_beast env)) Service_unavailable
     ''503 Server overloaded'' ''text/plain''"

definition too_large_response :: "'f server_env \<Rightarrow> 'f response" where
  "too_large_response env = makeResponse (se_beast env) (Response_new (se_beast env)) Payload_too_large
     ''413 Payload too large'' ''text/plain''"

text \<open>
  The answers to a request: of the computation, or that the queue is full; otherwise the one that
  the handler of its route makes of it, with the files and the pool as they were.
\<close>

definition answers :: "'f server_env \<Rightarrow> handler routes \<Rightarrow> 'f asked \<Rightarrow> 'f response \<Rightarrow> bool" where
  "answers env routes a res \<longleftrightarrow> (let B = se_beast env; req = ak_request a in
     if is_compute req then res = busy_response env \<or>
       (case HttpTask_execute B (compute_task B (se_json env) req 0) of
          Inl e \<Rightarrow> False | Inr (msg, d) \<Rightarrow> res = dl_response d)
     else (case Router_route B (HttpServer_handle env (ak_files a) (ak_pool a)) routes req (Response_new B) of
          None \<Rightarrow> False
        | Some (found, r) \<Rightarrow> res = prepare_payload B (if found then r else sendNotFound B r)))"

text \<open>As it is sent: with the headers that \<open>HttpServer::sendResponse\<close> adds.\<close>

definition as_sent :: "'f server_env \<Rightarrow> 'f response \<Rightarrow> 'f response" where
  "as_sent env res = fst (HttpServer_sendResponse env \<lparr>dl_session = 0, dl_response = res, dl_request = None\<rparr>)"

lemma sendResponse_as_sent: "fst (HttpServer_sendResponse env d) = as_sent env (dl_response d)"
  by (simp add: as_sent_def HttpServer_sendResponse_def Let_def)

definition right_response :: "'f server_env \<Rightarrow> handler routes \<Rightarrow> 'f asked option \<Rightarrow> 'f response \<Rightarrow> bool" where
  "right_response env routes r res \<longleftrightarrow> (case r of
      None \<Rightarrow> res = too_large_response env
    | Some a \<Rightarrow> \<exists>r. answers env routes a r \<and> res = as_sent env r)"

section \<open>The invariant\<close>

definition answering :: "'f server_env \<Rightarrow> 'f history \<Rightarrow> 'f server \<Rightarrow> bool" where
  "answering env h sv \<longleftrightarrow>
     (\<forall>i < length (sv_conns sv). \<forall>res. cn_writing (sv_conns sv ! i) = Some res \<longrightarrow>
        right_response env (sv_routes sv) (h i) res) \<and>
     (\<forall>d \<in> set (sv_posted sv). \<exists>a. h (dl_session d) = Some a \<and> answers env (sv_routes sv) a (dl_response d)) \<and>
     (\<forall>t \<in># pool_tasks (sv_pool sv). \<exists>a i. h i = Some a \<and> is_compute (ak_request a) \<and>
        t = compute_task (se_beast env) (se_json env) (ak_request a) i)"

lemma routes_simps [simp]:
  "sv_routes (server_log now m l sv) = sv_routes sv" "sv_routes (update_conn i f sv) = sv_routes sv"
  "sv_routes (checkDrainComplete now sv) = sv_routes sv" "sv_routes (HttpServer_endSession now i sv) = sv_routes sv"
  "sv_routes (doAccept now cfg sv) = sv_routes sv" "sv_routes (insert_session now cfg sv) = sv_routes sv"
  by (simp_all add: server_log_def update_conn_def checkDrainComplete_def HttpServer_endSession_def doAccept_def
      insert_session_eq Let_def)

lemma routes_io_effects [simp]: "sv_routes (io_effects now i es sv) = sv_routes sv"
proof -
  have "sv_routes (io_effect now i e sv) = sv_routes sv" for e and sv :: "'a server" by (cases e) simp_all
  then show ?thesis by (induction es arbitrary: sv) simp_all
qed

lemma routes_close_sessions [simp]: "sv_routes (close_sessions sv) = sv_routes sv"
proof -
  have "sv_routes (fold (\<lambda>i. update_conn i (f i)) is sv) = sv_routes sv" for f "is"
    by (induction "is" arbitrary: sv) simp_all
  then show ?thesis by (simp add: close_sessions_def)
qed

lemma answering_cong:
  assumes "answering env h sv" and "sv_conns sv' = sv_conns sv" and "sv_routes sv' = sv_routes sv"
    and "set (sv_posted sv') \<subseteq> set (sv_posted sv)" and "pool_tasks (sv_pool sv') = pool_tasks (sv_pool sv)"
  shows "answering env h sv'"
  using assms by (auto simp: answering_def)

text \<open>A handler of one session.\<close>

lemma io_effects_writing:
  assumes "i < length (sv_conns sv)" and "cn_writing (sv_conns (io_effects now i es sv) ! j) = Some res"
  shows "cn_writing (sv_conns sv ! j) = Some res \<or> j = i \<and> Async_write res \<in> set es"
  using assms
proof (induction es arbitrary: sv)
  case (Cons e es)
  have "cn_writing (sv_conns sv ! j) = Some res \<or> j = i \<and> e = Async_write res"
    if "cn_writing (sv_conns (io_effect now i e sv) ! j) = Some res"
    using that Cons.prems(1) by (cases e) (auto split: if_splits)
  then show ?case using Cons.IH [of "io_effect now i e sv"] Cons.prems by auto
qed simp

lemma answering_effects:
  assumes "answering env h sv" and "i < length (sv_conns sv)"
    and "\<And>res. Async_write res \<in> set es \<Longrightarrow> right_response env (sv_routes sv) (h i) res"
  shows "answering env h (io_effects now i es sv)"
proof -
  have "right_response env (sv_routes sv) (h j) res"
    if "j < length (sv_conns sv)" "cn_writing (sv_conns (io_effects now i es sv) ! j) = Some res" for j res
    using io_effects_writing [OF assms(2) that(2)] assms(1,3) that(1) by (auto simp: answering_def)
  then show ?thesis using assms(1) by (simp add: answering_def)
qed

lemma answering_update:
  assumes "answering env h sv" and "\<And>c. cn_writing (f c) = None \<or> cn_writing (f c) = cn_writing c"
  shows "answering env h (update_conn i f sv)"
proof (cases "i < length (sv_conns sv)")
  case True
  then show ?thesis using assms(1) assms(2) [of "sv_conns sv ! i"] by (auto simp: answering_def)
next
  case False
  then show ?thesis using assms(1) by (simp add: update_conn_def list_update_beyond)
qed

lemma answering_run_handler:
  assumes "answering env h sv" and "i < length (sv_conns sv)"
    and "\<And>res. res \<in> written_by (snd (g (cn_session (sv_conns sv ! i)))) \<Longrightarrow> right_response env (sv_routes sv) (h i) res"
  shows "answering env h (run_handler now i g sv)"
  unfolding run_handler_def case_prod_beta Let_def
  using assms by (intro answering_effects answering_update) (auto simp: written_by_def)

lemma answering_event:
  assumes "conn_event sv i possible (Some (run_handler now i g (update_conn i f sv))) = Some sv'"
    and "answering env h sv" and "\<And>c. cn_writing (f c) = None \<or> cn_writing (f c) = cn_writing c"
    and "\<And>s. written_by (snd (g s)) = {}"
  shows "answering env h sv'"
  using assms(1)
proof (rule conn_event_cases)
  assume "i < length (sv_conns sv)" "sv' = run_handler now i g (update_conn i f sv)"
  moreover have "answering env h (run_handler now i g (update_conn i f sv))"
    if "i < length (sv_conns sv)"
    by (rule answering_run_handler [OF answering_update [OF assms(2,3)]]) (use that assms(4) in simp_all)
  ultimately show ?thesis by blast
qed

lemma answering_deliver:
  assumes "answering env h sv" and "h (dl_session d) = Some a" and "answers env (sv_routes sv) a (dl_response d)"
  shows "answering env h (deliver env now d sv)"
proof (cases "dl_session d < length (sv_conns sv)")
  case True
  show ?thesis
    unfolding deliver_run_handler
    using assms handler_writes(2) [of "fst (HttpServer_sendResponse env d)"]
    by (intro answering_run_handler True) (auto simp: right_response_def sendResponse_as_sent)
next
  case False
  then show ?thesis using assms(1) by (simp add: deliver_run_handler run_sendResponse_beyond)
qed

text \<open>While a handler holds the token of a session, nothing of its last request is left.\<close>

lemma answering_forget:
  assumes "answering env h sv" and "in_hand env sv i"
  shows "answering env (h(i := r)) sv"
proof -
  have empty: "conn_ops (sv_conns sv ! i) = 0" "filter (\<lambda>d. dl_session d = i) (sv_posted sv) = []"
    "size (filter_mset (\<lambda>t. task_session (se_beast env) t = i) (pool_tasks (sv_pool sv))) = 0"
    using assms(2) by (simp_all add: in_hand_def outstanding_def elsewhere_def)
  have none: "cn_writing (sv_conns sv ! i) = None" "\<forall>d \<in> set (sv_posted sv). dl_session d \<noteq> i"
    using empty(1,2) by (auto simp: conn_ops_def filter_empty_conv of_bool_def split: if_splits)
  have no_task: "task_session (se_beast env) t \<noteq> i" if "t \<in># pool_tasks (sv_pool sv)" for t
    using empty(3) that by (auto simp: filter_mset_eq_conv)
  have "\<exists>a j. (h(i := r)) j = Some a \<and> is_compute (ak_request a) \<and>
      t = compute_task (se_beast env) (se_json env) (ak_request a) j"
    if "t \<in># pool_tasks (sv_pool sv)" for t
  proof -
    obtain a j where "h j = Some a" "is_compute (ak_request a)"
      "t = compute_task (se_beast env) (se_json env) (ak_request a) j"
      using assms(1) \<open>t \<in># _\<close> unfolding answering_def by blast
    moreover from this have "j \<noteq> i" using no_task [OF that] by auto
    ultimately show ?thesis by auto
  qed
  then show ?thesis using assms(1) none unfolding answering_def by auto
qed

section \<open>Every step\<close>

lemma compute_answers:
  assumes "HttpTask_execute (se_beast env) (compute_task (se_beast env) (se_json env) (ak_request a) i) = Inr (msg, d)"
    and "is_compute (ak_request a)"
  shows "answers env routes a (dl_response d)" and "dl_session d = i"
  using assms by (auto simp: answers_def Let_def compute_task_responds_once split: sum.splits)

lemma process_answers:
  assumes "RequestProcessor_process (se_beast env) (se_json env) (HttpServer_handle env fs pool)
      routes now req priority i pool = Some (pool', posted, direct)"
  shows "\<forall>d \<in> set posted \<union> set direct. dl_session d = i \<and>
    answers env routes \<lparr>ak_request = req, ak_files = fs, ak_pool = pool\<rparr> (dl_response d)"
  using assms
  by (auto simp: RequestProcessor_process_def answers_def busy_response_def sendResponseAsync_def Let_def
      split: if_splits prod.splits option.splits)

lemma answering_deliver_all:
  assumes "answering env h sv" and "\<forall>d \<in> set ds. dl_session d = i \<and> answers env (sv_routes sv) a (dl_response d)"
    and "h i = Some a"
  shows "answering env h (fold (deliver env now) ds sv)"
  using assms
proof (induction ds arbitrary: sv)
  case (Cons d ds)
  have "sv_routes (deliver env now d sv) = sv_routes sv"
    by (simp add: deliver_run_handler run_handler_def case_prod_beta)
  then show ?case using Cons by (simp add: answering_deliver)
qed simp

lemma answering_process:
  assumes "process_request env fs now i req priority sv = Some sv'" and "answering env h sv"
    and "h i = Some \<lparr>ak_request = req, ak_files = fs, ak_pool = sv_pool sv\<rparr>" and "tq_inv (tp_queue (sv_pool sv))"
  shows "answering env h sv'"
proof -
  from assms(1) obtain pool posted direct where proc: "RequestProcessor_process (se_beast env) (se_json env)
        (HttpServer_handle env fs (sv_pool sv)) (sv_routes sv) now req priority i (sv_pool sv) = Some (pool, posted, direct)"
    and sv': "sv' = fold (deliver env now) direct (sv\<lparr>sv_pool := pool, sv_posted := sv_posted sv @ posted\<rparr>)"
    by (rule process_request_cases)
  note good = process_answers [OF proc]
  have tasks: "\<forall>t \<in># pool_tasks pool. t \<in># pool_tasks (sv_pool sv) \<or>
      is_compute req \<and> t = compute_task (se_beast env) (se_json env) req i"
  proof (cases "is_compute req")
    case True
    from proc assms(4) show ?thesis by (cases rule: process_outcome) (use True in auto)
  next
    case False
    then show ?thesis using proc by (auto simp: RequestProcessor_process_def Let_def split: option.splits)
  qed
  have "answering env h (sv\<lparr>sv_pool := pool, sv_posted := sv_posted sv @ posted\<rparr>)"
    using assms(2,3) good tasks by (fastforce simp: answering_def)
  then show ?thesis
    unfolding sv' by (rule answering_deliver_all [where h = h and i = i, OF _ _ assms(3)]) (use good in simp_all)
qed

lemma answering_read:
  assumes "server_next env now (Sv_read i result fs) sv = Some sv'" and "answering env h sv" and "protocol env sv"
  shows "answering env (last_read (Sv_read i result fs) sv h) sv'"
  using assms(1)
proof (cases rule: read_event_cases)
  case (no_request s es n)
  obtain e where result: "result = Read_error e"
    using no_request(6,8) by (cases result) (auto simp: Session_onRead_def Let_def split: option.splits prod.splits)
  let ?sv = "update_conn i (\<lambda>c. c\<lparr>cn_reading := None\<rparr>) (sv\<lparr>sv_nonZeroCounter := n\<rparr>)"
  have "answering env h (sv\<lparr>sv_nonZeroCounter := n\<rparr>)" by (rule answering_cong [OF assms(2)]) simp_all
  then have "answering env h ?sv" by (rule answering_update) simp
  then have forgot: "answering env (h(i := None)) ?sv"
    by (rule answering_forget) (rule read_in_hand [OF assms(3) no_request(1,2)])
  have "res = too_large_response env" if "Async_write res \<in> set es" for res
    using no_request(8) that result
    by (auto simp: Session_onRead_def session_defs too_large_response_def split: read_error.splits if_splits)
  then have "answering env (h(i := None)) (io_effects now i es (update_conn i (\<lambda>c. c\<lparr>cn_session := s\<rparr>) ?sv))"
    using no_request(1)
    by (intro answering_effects answering_update [OF forgot]) (simp_all add: right_response_def)
  then show ?thesis
    using no_request(1,7) read_session [of i "sv\<lparr>sv_nonZeroCounter := n\<rparr>" s] result by simp
next
  case (a_request req priority quiet n)
  let ?f = "\<lambda>c. c\<lparr>cn_reading := None, cn_session := (cn_session (sv_conns sv ! i))\<lparr>ss_requestCount :=
            ss_requestCount (cn_session (sv_conns sv ! i)) + 1\<rparr>\<rparr>"
  let ?sv = "io_effects now i quiet (update_conn i ?f (sv\<lparr>sv_nonZeroCounter := n\<rparr>))"
  have hand: "in_hand env ?sv i" by (rule request_in_hand [OF assms(3) a_request(1,2,4)])
  have "answering env h (sv\<lparr>sv_nonZeroCounter := n\<rparr>)" by (rule answering_cong [OF assms(2)]) simp_all
  then have "answering env h (update_conn i ?f (sv\<lparr>sv_nonZeroCounter := n\<rparr>))" by (rule answering_update) simp
  moreover have "Async_write res \<notin> set quiet" for res :: "'a response" using a_request(4) by auto
  ultimately have "answering env h ?sv" using a_request(1) by (intro answering_effects) simp_all
  then have forgot: "answering env (h(i := Some \<lparr>ak_request = req, ak_files = fs, ak_pool = sv_pool sv\<rparr>)) ?sv"
    using hand by (rule answering_forget)
  have "tq_inv (tp_queue (sv_pool ?sv))" using hand unfolding in_hand_def addressed_def by blast
  then show ?thesis using answering_process [OF a_request(5) forgot] a_request(3) by simp
qed

lemma answering_step:
  assumes "server_next env now ev sv = Some sv'" and "answering env h sv" and "protocol env sv"
  shows "answering env (last_read ev sv h) sv'"
proof (cases ev)
  case (Sv_read i result fs)
  then show ?thesis using answering_read assms by blast
next
  case Sv_insert
  then show ?thesis
    using assms(1,2) by (auto simp: answering_def nth_append less_Suc_eq split: if_splits)
next
  case (Sv_start i)
  show ?thesis
    unfolding Sv_start last_read.simps
    by (rule answering_event [OF assms(1) [unfolded Sv_start server_next.simps] assms(2)]) (simp_all add: handler_writes)
next
  case (Sv_written i result)
  show ?thesis
    unfolding Sv_written last_read.simps
    by (rule answering_event [OF assms(1) [unfolded Sv_written server_next.simps] assms(2)]) (simp_all add: handler_writes)
next
  case (Sv_timer i aborted)
  show ?thesis
    unfolding Sv_timer last_read.simps
    by (rule answering_event [OF assms(1) [unfolded Sv_timer server_next.simps] assms(2)]) (simp_all add: handler_writes)
next
  case (Sv_close i)
  show ?thesis
    unfolding Sv_close last_read.simps
    by (rule answering_event [OF assms(1) [unfolded Sv_close server_next.simps] assms(2)]) (simp_all add: handler_writes)
next
  case (Sv_deliver k)
  let ?sv = "sv\<lparr>sv_posted := take k (sv_posted sv) @ drop (Suc k) (sv_posted sv)\<rparr>"
  have k: "k < length (sv_posted sv)" "sv' = deliver env now (sv_posted sv ! k) ?sv"
    using Sv_deliver assms(1) by (simp_all add: io_event_def split: if_splits)
  have "answering env h ?sv"
    by (rule answering_cong [OF assms(2)]) (auto dest: in_set_takeD in_set_dropD)
  moreover obtain a where "h (dl_session (sv_posted sv ! k)) = Some a"
    "answers env (sv_routes sv) a (dl_response (sv_posted sv ! k))"
    using assms(2) nth_mem [OF k(1)] unfolding answering_def by blast
  ultimately show ?thesis unfolding k(2) Sv_deliver last_read.simps by (intro answering_deliver) simp_all
next
  case (Sv_worker_pop k)
  then obtain p where p: "k < length (tp_workers (sv_pool sv))" "wk_pc (tp_workers (sv_pool sv) ! k) = Popping"
    "worker_pop now k (sv_pool sv) = Some p" "sv' = sv\<lparr>sv_pool := p\<rparr>"
    using assms(1) by (auto simp: at_pop_iff split: if_splits)
  have "pool_tasks p = pool_tasks (sv_pool sv)"
    using pool_tasks_pop(1) [OF p(1-3)] assms(3) by (simp add: protocol_def addressed_def)
  then have "answering env h sv'" by (intro answering_cong [OF assms(2)]) (simp_all add: p(4))
  then show ?thesis using Sv_worker_pop by simp
next
  case (Sv_worker_execute k)
  then obtain t msg d where t: "k < length (tp_workers (sv_pool sv))" "wk_pc (tp_workers (sv_pool sv) ! k) = Executing t"
    and run: "HttpTask_execute (se_beast env) t = Inr (msg, d)"
    and sv': "sv_conns sv' = sv_conns sv" "sv_posted sv' = sv_posted sv @ [d]" "sv_routes sv' = sv_routes sv"
      "sv_pool sv' = worker_executed k (sv_pool sv)"
    using assms(1)
    by (auto simp: worker_execute_def Let_def split: if_splits worker_pc.splits sum.splits option.splits)
  have tasks: "pool_tasks (sv_pool sv) = add_mset t (pool_tasks (sv_pool sv'))"
    using pool_tasks_execute(1) [OF t] assms(3) by (simp add: protocol_def addressed_def sv'(4))
  then obtain a i where req: "h i = Some a" "is_compute (ak_request a)"
    "t = compute_task (se_beast env) (se_json env) (ak_request a) i"
    using assms(2) by (auto simp: answering_def)
  then have "answers env (sv_routes sv) a (dl_response d)" "dl_session d = i"
    using compute_answers run by blast+
  then have "answering env h sv'" using assms(2) req(1) tasks by (simp add: answering_def sv')
  then show ?thesis using Sv_worker_execute by simp
next
  case Sv_drain_timer
  have "answering env h (close_sessions s)" if "answering env h s" for s
  proof -
    have "cn_writing (sv_conns (close_sessions s) ! j) = cn_writing (sv_conns s ! j)" for j
      using close_sessions_conn [of s j] by auto
    then show ?thesis using that by (simp add: answering_def)
  qed
  moreover have "answering env h (server_log now m l (sv\<lparr>sv_drainTimer := False\<rparr>))" for m l
    by (rule answering_cong [OF assms(2)]) simp_all
  ultimately have closed: "answering env h (close_sessions (server_log now m l (sv\<lparr>sv_drainTimer := False\<rparr>)))" for m l
    by blast
  have "answering env h (on_drain_timer now (sv\<lparr>sv_drainTimer := False\<rparr>))"
    unfolding on_drain_timer_def by (rule answering_cong [OF closed]) simp_all
  moreover have "sv' = on_drain_timer now (sv\<lparr>sv_drainTimer := False\<rparr>)"
    using Sv_drain_timer assms(1) by (simp add: io_event_def split: if_splits)
  ultimately show ?thesis unfolding Sv_drain_timer by simp
next
  case Sv_rejected
  then show ?thesis
    using assms(1) by (auto simp: io_event_def on_rejected_def intro!: answering_cong [OF assms(2)] split: if_splits)
next
  case (Sv_accept result)
  then show ?thesis
    using assms(1) by (auto simp: io_event_def on_accept_def intro!: answering_cong [OF assms(2)] split: if_splits accept_result.splits)
next
  case (Sv_signal n)
  then show ?thesis
    using assms(1) by (auto simp: io_event_def on_signal_def intro!: answering_cong [OF assms(2)] split: if_splits)
next
  case Sv_drain_check
  then show ?thesis
    using assms(1) by (auto intro!: answering_cong [OF assms(2)] split: if_splits)
next
  case Sv_log_round
  then show ?thesis
    using assms(1) by (auto intro!: answering_cong [OF assms(2)] split: if_splits)
qed

section \<open>From the request to the response\<close>

lemma answering_history: "server_history env h sv \<Longrightarrow> answering env h sv"
proof (induction rule: server_history.induct)
  case (init now fs sv)
  have "sv_conns sv = []" "sv_posted sv = []" "pool_tasks (sv_pool sv) = {#}"
    using start_fields [OF init] start_pool [OF init] by simp_all
  then show ?case by (simp add: answering_def)
next
  case (step h sv now ev sv')
  then show ?case using answering_step protocol.holds [OF history_reach] by blast
qed

lemma written_is_right:
  assumes "server_history env h sv" and "i < length (sv_conns sv)" and "cn_writing (sv_conns sv ! i) = Some res"
  shows "right_response env (sv_routes sv) (h i) res"
  using answering_history [OF assms(1)] assms(2,3) by (simp add: answering_def)

text \<open>
  C4. Whatever is being written to a connection answers the request that was read last from that
  same connection: it is what the route of that request (or the computation, or the refusal of a
  full queue) makes of it, with the headers of \<open>sendResponse\<close>; after a failed read it is the 413
  of the body limit. Responses are never sent to another connection, and never for an older
  request.
\<close>

theorem HttpServer_answers_its_request:
  assumes "server_history env h sv" and "i < length (sv_conns sv)" and "cn_writing (sv_conns sv ! i) = Some res"
  shows "case h i of
      None \<Rightarrow> res = too_large_response env
    | Some a \<Rightarrow> \<exists>r. answers env (sv_routes sv) a r \<and> res = as_sent env r"
  using written_is_right [OF assms] by (simp add: right_response_def)

text \<open>
  C13. \<open>POST /compute\<close> with an array of integers, from the socket to the socket: the response
  written to the connection that asked is 503, or 200 with exactly its integers in ascending
  order.
\<close>

theorem HttpServer_computes:
  assumes "server_history env h sv" and "i < length (sv_conns sv)" and "cn_writing (sv_conns sv ! i) = Some res"
    and "h i = Some a" and "is_compute (ak_request a)"
    and "jl_parse (se_json env) (rq_body (ak_request a)) = Some (Json_array (map Json_int ns))" and "ns \<noteq> []"
    and "\<forall>n \<in> set ns. - (2 ^ 31) \<le> n \<and> n < 2 ^ 31" and "length ns < 2 ^ 64"
    and "beast_laws (se_beast env)" and "json_laws (se_json env)"
  shows "rs_result res = Service_unavailable \<or>
    rs_result res = Ok \<and> jl_dump (se_json env) (Json_object [(''status'', Json_string ''ok''), (''data'', Json_object
      [(''sorted'', Json_array (map Json_int (sort ns))), (''size'', Json_int (int (length ns)))])]) = Some (rs_body res)"
proof -
  obtain r where r: "answers env (sv_routes sv) a r" "res = as_sent env r"
    using written_is_right [OF assms(1-3)] assms(4) by (auto simp: right_response_def)
  obtain ok where "createComputeStrategy (se_beast env) (se_json env) (ak_request a) = Inr ok" "rs_result ok = Ok"
    and dump: "jl_dump (se_json env) (Json_object [(''status'', Json_string ''ok''), (''data'', Json_object
      [(''sorted'', Json_array (map Json_int (sort ns))), (''size'', Json_int (int (length ns)))])]) = Some (rs_body ok)"
    using compute_sorts [OF assms(10,11,6-9)] by blast
  then have "r = busy_response env \<or> r = ok"
    using r(1) assms(5) by (auto simp: answers_def compute_task_responds_once)
  moreover have "rs_result res = rs_result r" "rs_body res = rs_body r"
    by (simp_all add: r(2) as_sent_def HttpServer_sendResponse_def Let_def)
  ultimately show ?thesis using dump \<open>rs_result ok = Ok\<close> by (auto simp: busy_response_def)
qed

section \<open>Runs with two requests\<close>

fun history_trace :: "'f server_env \<Rightarrow> ticks \<Rightarrow> 'f server_event list \<Rightarrow> 'f history \<times> 'f server \<Rightarrow>
    ('f history \<times> 'f server) option" where
  "history_trace env now [] (h, sv) = Some (h, sv)"
| "history_trace env now (ev # evs) (h, sv) =
     Option.bind (server_next env now ev sv) (\<lambda>sv'. history_trace env now evs (last_read ev sv h, sv'))"

lemma history_trace_reach:
  "server_history env h sv \<Longrightarrow> history_trace env now evs (h, sv) = Some (h', sv') \<Longrightarrow> server_history env h' sv'"
proof (induction evs arbitrary: h sv)
  case (Cons ev evs)
  then obtain sv1 where "server_next env now ev sv = Some sv1"
    "history_trace env now evs (last_read ev sv h, sv1) = Some (h', sv')"
    by (auto simp: Option.bind_eq_Some_conv)
  then show ?case using Cons.IH server_history.step [OF Cons.prems(1)] by blast
qed simp

definition example_history :: "(string \<times> string) list server_event list \<Rightarrow>
    ((string \<times> string) list history \<times> (string \<times> string) list server) option" where
  "example_history evs =
     (case HttpServer_start 0 (example_server_env example_config) example_fs of
        Some (Inr sv) \<Rightarrow> history_trace (example_server_env example_config) 0 evs (\<lambda>_. None, sv)
      | _ \<Rightarrow> None)"

lemma example_history_reach:
  "example_history evs = Some (h, sv) \<Longrightarrow> server_history (example_server_env example_config) h sv"
  by (auto simp: example_history_def intro: history_trace_reach server_history.init split: option.splits sum.splits)

definition unknown_page :: "(string \<times> string) list request" where
  "unknown_page = \<lparr>rq_method = Verb_get, rq_target = ''/page'', rq_fields = [], rq_body = []\<rparr>"

definition unknown_page_events :: "(string \<times> string) list server_event list" where
  "unknown_page_events = [Sv_accept Accept_done, Sv_insert, Sv_start 0, Sv_read 0 (Read_request unknown_page) (still example_fs)]"

lemma unknown_page_history:
  "map_option (\<lambda>(h, sv). (map_option ak_request (h 0),
      map (\<lambda>c. map_option rs_result (cn_writing c)) (sv_conns sv)))
    (example_history unknown_page_events) = Some (Some unknown_page, [Some Not_found])"
  by code_simp

lemma HttpServer_answers_its_request_witness:
  "\<exists>h sv a res r. example_history unknown_page_events = Some (h, sv) \<and> h 0 = Some a \<and> ak_request a = unknown_page \<and>
     cn_writing (sv_conns sv ! 0) = Some res \<and> rs_result res = Not_found \<and>
     answers (example_server_env example_config) (sv_routes sv) a r \<and> res = as_sent (example_server_env example_config) r"
proof -
  obtain h sv a res where run: "example_history unknown_page_events = Some (h, sv)" "h 0 = Some a" "ak_request a = unknown_page"
    and res: "0 < length (sv_conns sv)" "cn_writing (sv_conns sv ! 0) = Some res" "rs_result res = Not_found"
    using unknown_page_history by (auto simp: map_eq_Cons_conv)
  then show ?thesis
    using HttpServer_answers_its_request [OF example_history_reach [OF run(1)] res(1,2)] by auto
qed

definition computed_events :: "(string \<times> string) list server_event list" where
  "computed_events = compute_events @ [Sv_worker_execute 0, Sv_deliver 0]"

lemma computed_history:
  "map_option (\<lambda>(h, sv). (map_option ak_request (h 0),
      map (\<lambda>c. map_option rs_result (cn_writing c)) (sv_conns sv)))
    (example_history computed_events) = Some (Some compute_request, [Some Ok])"
  by code_simp

lemma HttpServer_computes_witness:
  "\<exists>h sv a res. example_history computed_events = Some (h, sv) \<and> h 0 = Some a \<and> ak_request a = compute_request \<and>
     cn_writing (sv_conns sv ! 0) = Some res \<and> rs_result res = Ok \<and>
     rs_body res = ''{\"status\":\"ok\",\"data\":{\"sorted\":[1],\"size\":1}}''"
proof -
  obtain h sv a res where run: "example_history computed_events = Some (h, sv)" "h 0 = Some a" "ak_request a = compute_request"
    and res: "0 < length (sv_conns sv)" "cn_writing (sv_conns sv ! 0) = Some res" "rs_result res = Ok"
    using computed_history by (auto simp: map_eq_Cons_conv)
  have libs: "se_beast (example_server_env example_config) = example_beast" "se_json (example_server_env example_config) = example_json"
    by (simp_all add: example_server_env_def)
  have parse: "jl_parse example_json (rq_body compute_request) = Some (Json_array (map Json_int [1]))" by code_simp
  have dump: "jl_dump example_json (Json_object [(''status'', Json_string ''ok''), (''data'', Json_object
      [(''sorted'', Json_array (map Json_int [1])), (''size'', Json_int 1)])]) =
    Some ''{\"status\":\"ok\",\"data\":{\"sorted\":[1],\"size\":1}}''" by code_simp
  have "is_compute compute_request" by (simp add: is_compute_def compute_request_def)
  then have "rs_body res = ''{\"status\":\"ok\",\"data\":{\"sorted\":[1],\"size\":1}}''"
    using HttpServer_computes [OF example_history_reach [OF run(1)] res(1,2) run(2), where ns = "[1]"]
      run(3) res(3) parse dump example_beast_laws example_json_laws by (simp add: libs)
  then show ?thesis using run res by blast
qed

end
