(* ===== verification/Server_Files.thy ===== *)
theory Server_Files
  imports Server_Answers "HOL-Library.Code_Target_Nat"
begin

text \<open>
  Static files through the whole server: what a request for a file below \<open>/static/\<close> is answered
  with on the wire, from the configured root and the files as they were when it was read.
\<close>

section \<open>Runs from one start\<close>

inductive server_run :: "'f server_env \<Rightarrow> 'f server \<Rightarrow> 'f history \<Rightarrow> 'f server \<Rightarrow> bool" for env sv0 where
  init: "server_run env sv0 (\<lambda>_. None) sv0"
| step: "server_run env sv0 h sv \<Longrightarrow> server_next env now ev sv = Some sv' \<Longrightarrow>
    server_run env sv0 (last_read ev sv h) sv'"

lemma run_history:
  "server_run env sv0 h sv \<Longrightarrow> HttpServer_start now env fs = Some (Inr sv0) \<Longrightarrow> server_history env h sv"
  by (induction rule: server_run.induct) (auto intro: server_history.intros)

lemma routes_step:
  assumes "server_next env now ev sv = Some sv'"
  shows "sv_routes sv' = sv_routes sv"
proof -
  have run: "sv_routes (run_handler now i g s) = sv_routes s" for i g and s :: "'a server"
    by (simp add: run_handler_def case_prod_beta)
  have deliver: "sv_routes (deliver env now d s) = sv_routes s" for d s
    by (simp add: deliver_run_handler run)
  have deliver_all: "sv_routes (fold (deliver env now) ds s) = sv_routes s" for ds s
    by (induction ds arbitrary: s) (simp_all add: deliver)
  show ?thesis
  proof (cases ev)
    case (Sv_read i result fs)
    from assms [unfolded Sv_read] show ?thesis
    proof (cases rule: read_event_cases)
      case (a_request req priority quiet n)
      from a_request(5) show ?thesis by (cases rule: process_request_cases) (simp add: deliver_all)
    qed simp
  qed (use assms in \<open>auto simp: io_event_def conn_event_def on_accept_def on_rejected_def on_signal_def on_drain_timer_def
      run deliver worker_execute_def Let_def split: if_splits accept_result.splits worker_pc.splits sum.splits option.splits\<close>)
qed

lemma run_routes: "server_run env sv0 h sv \<Longrightarrow> sv_routes sv = sv_routes sv0"
  by (induction rule: server_run.induct) (auto dest: routes_step)

lemma start_routes:
  assumes "HttpServer_start now env fs = Some (Inr sv)"
  obtains regs where "HttpServer_regs (se_config env) fs = Inr regs" and "sv_routes sv = build_routes (se_beast env) regs"
  using assms
  by (auto simp: HttpServer_start_def HttpServer_setup_def startAcceptorLoop_def Let_def
      split: sum.splits option.splits)

section \<open>The route of a file\<close>

definition static_limit :: "config \<Rightarrow> size_t" where
  "static_limit cfg = cf_static_max_file_size_mb cfg * 1024 * 1024"

text \<open>A request for a file: GET or HEAD, and a target below \<open>/static/\<close>.\<close>

definition asks_file :: "'f request \<Rightarrow> bool" where
  "asks_file req \<longleftrightarrow> (rq_method req = Verb_get \<or> rq_method req = Verb_head) \<and> prefix static_prefix (rq_target req)"

lemma registered_path: "registered regs m p = Some h \<Longrightarrow> (m, p, h) \<in> set regs"
  by (auto simp: registered_def dest!: map_of_SomeD)

lemma registered_static:
  assumes "p \<noteq> q" and "m = Verb_get \<or> m = Verb_head"
  shows "registered [(Verb_get, q, h'), (Verb_get, p, h), (Verb_head, p, h)] m p = Some h"
  using assms by (auto simp: registered_def)

lemma static_route:
  assumes "HttpServer_regs cfg fs = Inr regs" and "asks_file req"
  obtains sh where "StaticFileHandler_new fs (cf_static_root cfg) (static_limit cfg) = Inr sh"
    and "registered regs (rq_method req) static_prefix = Some (StaticFileHandler sh)"
    and "best_route regs (rq_method req) (rq_target req) static_prefix"
proof -
  obtain sh where sh: "StaticFileHandler_new fs (cf_static_root cfg) (static_limit cfg) = Inr sh"
    and regs: "regs = [(Verb_get, ''/status'', StatusHandler), (Verb_get, ''/static/'', StaticFileHandler sh),
      (Verb_head, ''/static/'', StaticFileHandler sh)]"
    using assms(1) by (auto simp: HttpServer_regs_def static_limit_def Let_def split: sum.splits)
  have prefix: "static_prefix \<noteq> ''/status''" "length static_prefix = 8" by (simp_all add: static_prefix_def)
  note regs = regs [folded static_prefix_def]
  have reg: "registered regs (rq_method req) static_prefix = Some (StaticFileHandler sh)"
    unfolding regs by (rule registered_static [OF prefix(1)]) (use assms(2) in \<open>auto simp: asks_file_def\<close>)
  have "length p \<le> length static_prefix" if registered: "registered regs (rq_method req) p \<noteq> None" for p
  proof -
    obtain h where "(rq_method req, p, h) \<in> set regs" using registered registered_path by fast
    then have "p = ''/status'' \<or> p = static_prefix" unfolding regs by force
    then show ?thesis using prefix(2) by force
  qed
  then have "best_route regs (rq_method req) (rq_target req) static_prefix"
    using reg assms(2) by (simp add: best_route_def asks_file_def)
  then show thesis using that sh reg by blast
qed

lemma asks_file_not_compute: "asks_file req \<Longrightarrow> \<not> is_compute req"
  by (auto simp: asks_file_def is_compute_def)

lemma static_routed:
  assumes "beast_laws (se_beast env)" and "HttpServer_regs (se_config env) fs0 = Inr regs" and "asks_file req"
  obtains sh where "StaticFileHandler_new fs0 (cf_static_root (se_config env)) (static_limit (se_config env)) = Inr sh"
    and "Router_route (se_beast env) (HttpServer_handle env fs pool) (build_routes (se_beast env) regs) req res =
      Some (True, StaticFileHandler_handle (se_beast env) fs sh req res)"
proof -
  obtain sh where sh: "StaticFileHandler_new fs0 (cf_static_root (se_config env)) (static_limit (se_config env)) = Inr sh"
    and route: "registered regs (rq_method req) static_prefix = Some (StaticFileHandler sh)"
      "best_route regs (rq_method req) (rq_target req) static_prefix"
    using static_route [OF assms(2,3)] .
  then have "Router_find (se_beast env) (rq_method req) (rq_target req) (build_routes (se_beast env) regs) =
      Some (StaticFileHandler sh)"
    by (intro Router_find_best [OF assms(1) refl, THEN iffD2] exI [of _ static_prefix] conjI)
  then show thesis using that [OF sh] by (simp add: Router_route_def HttpServer_handle_def)
qed

section \<open>The reply\<close>

text \<open>
  What a request for a file is to be answered with, from the place \<open>r\<close> of the static root and the
  files: the file that the name leads to, if it is a regular one below \<open>r\<close>.
\<close>

definition file_path :: "config \<Rightarrow> 'f request \<Rightarrow> fs_path" where
  "file_path cfg req =
     path_append (path_of_string (cf_static_root cfg)) (path_of_string (drop (length static_prefix) (rq_target req)))"

definition file_reply :: "config \<Rightarrow> string list \<Rightarrow> filesystem \<Rightarrow> 'f request \<Rightarrow> http_status \<times> string" where
  "file_reply cfg r fs req =
     (case resolve fs (file_path cfg req) of
        Inl _ \<Rightarrow> (Not_found, ''404 Not Found'')
      | Inr d \<Rightarrow> (case fs_node_at fs d of
          Some (Regular bytes readable) \<Rightarrow>
            if rq_target req = static_prefix \<or> \<not> prefix r d then (Not_found, ''404 Not Found'')
            else if unat (static_limit cfg) < length bytes then (Payload_too_large, ''413 Payload Too Large'')
            else if \<not> readable then (Not_found, ''404 Not Found'')
            else (Ok, if rq_method req = Verb_head then [] else bytes)
        | _ \<Rightarrow> (Not_found, ''404 Not Found'')))"

lemma handler_reply:
  assumes "sh = \<lparr>sh_rootPath = path_of_string (cf_static_root cfg), sh_rootCanonical = \<lparr>p_absolute = True, p_names = r\<rparr>,
      sh_maxFileSize = static_limit cfg\<rparr>" and "prefix static_prefix (rq_target req)"
  shows "(rs_result (StaticFileHandler_handle B (still fs) sh req res), rs_body (StaticFileHandler_handle B (still fs) sh req res)) =
    file_reply cfg r fs req"
proof -
  have sh: "static_path sh req = file_path cfg req" "sh_rootCanonical sh = \<lparr>p_absolute = True, p_names = r\<rparr>"
    "sh_maxFileSize sh = static_limit cfg"
    by (simp_all add: assms(1) static_path_def file_path_def)
  have found: "static_file fs sh req = (case resolve fs (file_path cfg req) of Inl _ \<Rightarrow> None
      | Inr d \<Rightarrow> (case fs_node_at fs d of Some (Regular bytes readable) \<Rightarrow>
            if rq_target req = static_prefix \<or> \<not> prefix r d then None else Some (d, bytes, readable)
        | _ \<Rightarrow> None))"
    using assms(2) by (simp add: static_file_def sh path_elements_def split: sum.split option.split fs_node.split)
  show ?thesis
  proof (cases "static_file fs sh req")
    case None
    then have "file_reply cfg r fs req = (Not_found, ''404 Not Found'')"
      unfolding found file_reply_def by (auto split: sum.splits option.splits fs_node.splits if_splits)
    then show ?thesis using None by (simp add: StaticFileHandler_outcome sendNotFound_def)
  next
    case (Some f)
    then obtain d bytes readable where f: "f = (d, bytes, readable)" "resolve fs (file_path cfg req) = Inr d"
      "fs_node_at fs d = Some (Regular bytes readable)" "rq_target req \<noteq> static_prefix" "prefix r d"
      unfolding found by (auto split: sum.splits option.splits fs_node.splits if_splits)
    then show ?thesis
      using Some by (simp add: StaticFileHandler_outcome file_reply_def sh sendNotFound_def Let_def)
  qed
qed

lemma field_names:
  "\<not> same_name ''Content-Type'' ''Server''" "\<not> same_name ''Content-Type'' ''Access-Control-Allow-Origin''"
  "\<not> same_name ''Content-Length'' ''Server''" "\<not> same_name ''Content-Length'' ''Access-Control-Allow-Origin''"
  by code_simp+

lemma handler_type:
  assumes "beast_laws B"
  shows "response_field B ''Content-Type'' (StaticFileHandler_handle B (still fs) sh req res) =
    Some (if rs_result (StaticFileHandler_handle B (still fs) sh req res) = Ok
      then getMimeType (path_extension (static_path sh req)) else ''text/plain'')"
proof -
  have "response_field B ''Content-Type'' (ok\<lparr>rs_body := []\<rparr>) = response_field B ''Content-Type'' ok" for ok
    by (simp add: response_field_def)
  then show ?thesis
    by (simp add: StaticFileHandler_outcome sendNotFound_def makeResponse_fields [OF assms] Let_def
        split: option.split prod.split)
qed

lemma as_sent_fields:
  assumes "beast_laws (se_beast env)" and "\<not> same_name n ''Server''" and "\<not> same_name n ''Access-Control-Allow-Origin''"
  shows "response_field (se_beast env) n (as_sent env res) = response_field (se_beast env) n res"
  using assms(2,3)
  by (simp add: response_field_def as_sent_def HttpServer_sendResponse_def Let_def beast_lawsD(5) [OF assms(1)])

lemma as_sent_simps [simp]: "rs_result (as_sent env res) = rs_result res" "rs_body (as_sent env res) = rs_body res"
  by (simp_all add: as_sent_def HttpServer_sendResponse_def Let_def)

section \<open>On the wire\<close>

lemma file_written:
  assumes "server_history env h sv" and "sv_routes sv = build_routes (se_beast env) regs"
    and "HttpServer_regs (se_config env) fs0 = Inr regs" and "beast_laws (se_beast env)"
    and "i < length (sv_conns sv)" and "cn_writing (sv_conns sv ! i) = Some res"
    and "h i = Some a" and "asks_file (ak_request a)"
  obtains sh where "StaticFileHandler_new fs0 (cf_static_root (se_config env)) (static_limit (se_config env)) = Inr sh"
    and "res = as_sent env (prepare_payload (se_beast env)
      (StaticFileHandler_handle (se_beast env) (ak_files a) sh (ak_request a) (Response_new (se_beast env))))"
proof -
  obtain r where r: "answers env (sv_routes sv) a r" "res = as_sent env r"
    using written_is_right [OF assms(1,5,6)] assms(7) by (auto simp: right_response_def)
  obtain sh where sh: "StaticFileHandler_new fs0 (cf_static_root (se_config env)) (static_limit (se_config env)) = Inr sh"
    and "Router_route (se_beast env) (HttpServer_handle env (ak_files a) (ak_pool a)) (sv_routes sv) (ak_request a)
      (Response_new (se_beast env)) =
      Some (True, StaticFileHandler_handle (se_beast env) (ak_files a) sh (ak_request a) (Response_new (se_beast env)))"
    unfolding assms(2) by (rule static_routed [OF assms(4,3,8)])
  with r(1) have "r = prepare_payload (se_beast env)
      (StaticFileHandler_handle (se_beast env) (ak_files a) sh (ak_request a) (Response_new (se_beast env)))"
    using asks_file_not_compute [OF assms(8)] by (simp add: answers_def Let_def)
  then show thesis using that [OF sh] r(2) by simp
qed

text \<open>
  C6. Files, from the request to the bytes on the wire: in every run of the server, what is written for
  a GET or HEAD of a target below \<open>/static/\<close> is the reply that the configured root and limit call for
  with the files as they were when the request was handled: 200 with the bytes of the file the name
  leads to, through any links and \<open>..\<close>, if that is a regular file inside the place that the root had
  when the server started; 413 if it is larger than the limit; and 404 otherwise. It carries the length
  of its body (so 0 for HEAD) and the type for the extension of the name.
\<close>

theorem HttpServer_serves_files:
  assumes "HttpServer_start now env fs0 = Some (Inr sv0)" and "server_run env sv0 h sv" and "beast_laws (se_beast env)"
    and "resolve fs0 (path_of_string (cf_static_root (se_config env))) = Inr r" and "fs_node_at fs0 r \<noteq> None"
    and "i < length (sv_conns sv)" and "cn_writing (sv_conns sv ! i) = Some res"
    and "h i = Some a" and "asks_file (ak_request a)" and "ak_files a = still fs"
  shows "(rs_result res, rs_body res) = file_reply (se_config env) r fs (ak_request a) \<and>
    response_field (se_beast env) ''Content-Length'' res = Some (nat_to_string (length (rs_body res))) \<and>
    response_field (se_beast env) ''Content-Type'' res = Some (if rs_result res = Ok
      then getMimeType (path_extension (file_path (se_config env) (ak_request a))) else ''text/plain'')"
proof -
  let ?B = "se_beast env" and ?cfg = "se_config env" and ?req = "ak_request a"
  obtain regs where regs: "HttpServer_regs ?cfg fs0 = Inr regs" "sv_routes sv0 = build_routes ?B regs"
    using start_routes [OF assms(1)] .
  have "sv_routes sv = build_routes ?B regs" using run_routes [OF assms(2)] regs(2) by simp
  from file_written [OF run_history [OF assms(2,1)] this regs(1) assms(3,6-9), unfolded assms(10)]
  obtain sh where sh: "StaticFileHandler_new fs0 (cf_static_root ?cfg) (static_limit ?cfg) = Inr sh"
    and res: "res = as_sent env (prepare_payload ?B (StaticFileHandler_handle ?B (still fs) sh ?req (Response_new ?B)))" .
  note sh = StaticFileHandler_new_existing [OF sh assms(4,5)]
  have "(rs_result res, rs_body res) = file_reply ?cfg r fs ?req"
    using handler_reply [OF sh, of ?req] assms(9) by (simp add: res asks_file_def)
  moreover have "response_field ?B ''Content-Length'' res = Some (nat_to_string (length (rs_body res)))"
    by (simp add: res as_sent_fields [OF assms(3)] field_names prepare_payload_fields(1) [OF assms(3)])
  moreover have "response_field ?B ''Content-Type'' res = Some (if rs_result res = Ok
      then getMimeType (path_extension (file_path ?cfg ?req)) else ''text/plain'')"
    by (simp add: res as_sent_fields [OF assms(3)] field_names prepare_payload_fields(2) [OF assms(3)]
      handler_type [OF assms(3)])
      (simp add: sh static_path_def file_path_def)
  ultimately show ?thesis by blast
qed

lemma history_trace_run:
  "server_run env sv0 h sv \<Longrightarrow> history_trace env now evs (h, sv) = Some (h', sv') \<Longrightarrow> server_run env sv0 h' sv'"
proof (induction evs arbitrary: h sv)
  case (Cons ev evs)
  then obtain sv1 where "server_next env now ev sv = Some sv1"
    "history_trace env now evs (last_read ev sv h, sv1) = Some (h', sv')"
    by (auto simp: Option.bind_eq_Some_conv)
  then show ?case using Cons.IH server_run.step [OF Cons.prems(1)] by blast
qed simp

lemma example_history_run:
  assumes "example_history evs = Some (h, sv)"
  obtains sv0 where "HttpServer_start 0 (example_server_env example_config) example_fs = Some (Inr sv0)"
    and "server_run (example_server_env example_config) sv0 h sv"
  using assms by (auto simp: example_history_def intro: history_trace_run [OF server_run.init] split: option.splits sum.splits)

definition linked_file_events :: "(string \<times> string) list server_event list" where
  "linked_file_events =
     [Sv_accept Accept_done, Sv_insert, Sv_start 0, Sv_read 0 (Read_request (static_get ''/static/in'')) (still example_fs)]"

lemma linked_file_history:
  "map_option (\<lambda>(h, sv). map (\<lambda>c. map_option rs_result (cn_writing c)) (sv_conns sv))
    (example_history linked_file_events) = Some [Some Ok]"
  by code_simp

lemma linked_file_asked:
  assumes "example_history linked_file_events = Some (h, sv)"
  obtains a where "h 0 = Some a" and "ak_request a = static_get ''/static/in''" and "ak_files a = still example_fs"
  using assms
  by (auto simp: example_history_def linked_file_events_def Option.bind_eq_Some_conv simp del: server_next.simps
      split: option.splits sum.splits)

lemma HttpServer_serves_files_witness:
  "\<exists>h sv res. example_history linked_file_events = Some (h, sv) \<and> cn_writing (sv_conns sv ! 0) = Some res \<and>
     rs_result res = Ok \<and> rs_body res = ''hello''"
proof -
  let ?env = "example_server_env example_config"
  obtain h sv res where run: "example_history linked_file_events = Some (h, sv)"
    and res: "0 < length (sv_conns sv)" "cn_writing (sv_conns sv ! 0) = Some res" "rs_result res = Ok"
    using linked_file_history by (auto simp: map_eq_Cons_conv)
  obtain a where a: "h 0 = Some a" "ak_request a = static_get ''/static/in''" "ak_files a = still example_fs"
    using linked_file_asked [OF run] .
  obtain sv0 where start: "HttpServer_start 0 ?env example_fs = Some (Inr sv0)" "server_run ?env sv0 h sv"
    using example_history_run [OF run] .
  have env: "se_config ?env = example_config" "se_beast ?env = example_beast" "cf_static_root example_config = ''www''"
    by (simp_all add: example_server_env_def example_config_def)
  have "asks_file (static_get ''/static/in'')" by code_simp
  moreover have "file_reply example_config [''srv'', ''www''] example_fs (static_get ''/static/in'') = (Ok, ''hello'')"
    by code_simp
  moreover have "fs_node_at example_fs [''srv'', ''www''] \<noteq> None" by (simp add: example_fs_def)
  ultimately have "rs_body res = ''hello''"
    using HttpServer_serves_files [OF start, of "[''srv'', ''www'']" 0 res a example_fs] a res example_root example_beast_laws
    by (simp add: env)
  then show ?thesis using run res by blast
qed

end
