(* ===== verification/Server_Progress.thy ===== *)
theory Server_Progress
  imports Server_Shutdown
begin

text \<open>
  The server gets on: the workers serve as long as it runs, a session that has not ended can always
  go on, and a drain comes to its end.
\<close>

section \<open>The pool of a running server\<close>

text \<open>What a step of the server is for its pool: nothing, or a submission, a pop or an execution.\<close>

fun at_work :: "'a pool_event \<Rightarrow> bool" where
  "at_work (Pe_submit now x pr ok) = True"
| "at_work (Pe_pop now k) = True"
| "at_work (Pe_execute k x) = True"
| "at_work _ = False"

lemma process_pool_step:
  assumes "RequestProcessor_process B J handle routes now req priority i pool = Some (pool', posted, direct)"
  shows "pool' = pool \<or> (\<exists>pe. at_work pe \<and> pool_step pool pe pool')"
proof (cases "is_compute req")
  case True
  then obtain ok where "ThreadPool_submit now (compute_task B J req i) priority pool = (ok, pool')"
    using assms by (auto simp: RequestProcessor_process_def Let_def split: prod.splits if_splits)
  then have "pool_step pool (Pe_submit now (compute_task B J req i) priority ok) pool'" by (rule pool_step.submit)
  moreover have "at_work (Pe_submit now (compute_task B J req i) priority ok)" by simp
  ultimately show ?thesis by blast
next
  case False
  then show ?thesis using assms by (auto simp: RequestProcessor_process_def Let_def split: option.splits)
qed

lemma server_pool_step:
  assumes "server_next env now ev sv = Some sv'"
  shows "sv_pool sv' = sv_pool sv \<or> (\<exists>pe. at_work pe \<and> pool_step (sv_pool sv) pe (sv_pool sv'))"
proof (cases ev)
  case (Sv_read i result fs)
  from assms [unfolded Sv_read] show ?thesis
  proof (cases rule: read_event_cases)
    case (a_request req priority quiet n)
    from a_request(5) show ?thesis
      by (cases rule: process_request_cases) (auto dest: process_pool_step)
  qed simp
next
  case (Sv_worker_pop k)
  then obtain p where "k < length (tp_workers (sv_pool sv))" "wk_pc (tp_workers (sv_pool sv) ! k) = Popping"
    "worker_pop now k (sv_pool sv) = Some p" "sv' = sv\<lparr>sv_pool := p\<rparr>"
    using assms by (auto simp: at_pop_iff split: if_splits)
  then show ?thesis using pool_step.pop [of k "sv_pool sv" now p] at_work.simps(2) by auto
next
  case (Sv_worker_execute k)
  then obtain t where "k < length (tp_workers (sv_pool sv))" "wk_pc (tp_workers (sv_pool sv) ! k) = Executing t"
    "sv_pool sv' = worker_executed k (sv_pool sv)"
    using assms by (auto simp: worker_execute_def Let_def split: if_splits worker_pc.splits sum.splits option.splits)
  then show ?thesis using pool_step.execute [of k "sv_pool sv" t] at_work.simps(3) by auto
qed (use assms in \<open>auto simp: io_event_def conn_event_def on_accept_def on_signal_def on_drain_timer_def run_handler_def
    deliver_def Let_def case_prod_beta split: if_splits accept_result.splits\<close>)

text \<open>The queue is open, and every worker is in its loop.\<close>

definition staffed :: "'a thread_pool \<Rightarrow> bool" where
  "staffed p \<longleftrightarrow> \<not> tq_done (tp_queue p) \<and> \<not> tq_abort (tp_queue p) \<and> tp_workers p \<noteq> [] \<and>
     (\<forall>w \<in> set (tp_workers p). wk_pc w = Popping \<or> (\<exists>t. wk_pc w = Executing t))"

lemma staffed_update:
  assumes "staffed p" and "tp_workers p' = (tp_workers p)[k := (tp_workers p ! k)\<lparr>wk_pc := pc\<rparr>]"
    and "pc = Popping \<or> (\<exists>t. pc = Executing t)"
    and "tq_done (tp_queue p') = tq_done (tp_queue p)" and "tq_abort (tp_queue p') = tq_abort (tp_queue p)"
  shows "staffed p'"
proof -
  have "wk_pc w = Popping \<or> (\<exists>t. wk_pc w = Executing t)" if "w \<in> set (tp_workers p')" for w
    using that assms(1-3) set_update_subset_insert [of "tp_workers p" k "(tp_workers p ! k)\<lparr>wk_pc := pc\<rparr>"]
    by (auto simp: staffed_def)
  then show ?thesis using assms(1,2,4,5) by (simp add: staffed_def)
qed

lemma staffed_step:
  assumes "pool_step p pe p'" and "at_work pe" and "staffed p" and "tq_inv (tp_queue p)"
  shows "staffed p'"
  using assms
proof (cases rule: pool_step.cases)
  case (submit now x pr ok)
  then show ?thesis
    using assms(3) by (auto simp: staffed_def ThreadPool_submit_def TaskQueue_push_def split: if_splits)
next
  case (pop k now)
  from pop(4) assms(4) show ?thesis
  proof (cases rule: worker_pop_cases)
    case (got x)
    then show ?thesis using assms(3) by (intro staffed_update [of p p' k "Executing x"]) auto
  next
    case left
    then show ?thesis using assms(3) by (auto simp: staffed_def)
  qed
next
  case (execute k x)
  then show ?thesis
    using assms(3) by (intro staffed_update [of p p' k Popping]) (simp_all add: worker_executed_def)
qed (use assms(2) in simp_all)

lemma staffed_start:
  assumes "ThreadPool_start (ThreadPool_new n m) = Some p"
  shows "staffed p"
proof -
  obtain ws where ws: "start_all (tp_workers (ThreadPool_new n m :: 'a thread_pool)) = Some ws"
    and p: "p = (ThreadPool_new n m)\<lparr>tp_workers := ws\<rparr>"
    using assms by (auto simp: ThreadPool_start_def)
  have new: "\<forall>w \<in> set (tp_workers (ThreadPool_new n m :: 'a thread_pool)). wk_pc w = Not_Started"
    by (simp add: ThreadPool_new_def WorkerThread_new_def)
  have "0 < length (tp_workers (ThreadPool_new n m :: 'a thread_pool))"
    by (auto simp: ThreadPool_new_def unat_gt_0)
  then show ?thesis
    using start_all_running [OF ws new] by (auto simp: staffed_def p TaskQueue_new_def)
qed

interpretation staffed: server_invariant env "\<lambda>sv. staffed (sv_pool sv)" for env
proof
  fix now fs and sv :: "'a server"
  assume "HttpServer_start now env fs = Some (Inr sv)"
  then show "staffed (sv_pool sv)" using start_fields(10) staffed_start by blast
next
  fix sv now ev and sv' :: "'a server"
  assume "server_reach env sv" "staffed (sv_pool sv)" "server_next env now ev sv = Some sv'"
  then show "staffed (sv_pool sv')"
    using server_pool_step staffed_step protocol.holds unfolding protocol_def addressed_def by metis
qed

section \<open>A session can go on\<close>

text \<open>A staffed pool with a task in it has a worker that can take one, or finish one.\<close>

lemma worker_ready:
  assumes "staffed (sv_pool sv)" and "addressed env sv" and "pool_tasks (sv_pool sv) \<noteq> {#}"
  shows "\<exists>k ev sv'. (ev = Sv_worker_pop k \<or> ev = Sv_worker_execute k) \<and> server_next env now ev sv = Some sv'"
proof (cases "\<exists>k t. k < length (tp_workers (sv_pool sv)) \<and> wk_pc (tp_workers (sv_pool sv) ! k) = Executing t")
  case True
  then obtain k t where k: "k < length (tp_workers (sv_pool sv))" "wk_pc (tp_workers (sv_pool sv) ! k) = Executing t"
    by blast
  have "t \<in># pool_tasks (sv_pool sv)"
    using pool_tasks_execute(1) [OF k] assms(2) by (simp add: addressed_def)
  then obtain req i where "t = compute_task (se_beast env) (se_json env) req i"
    using assms(2) by (auto simp: addressed_def)
  then obtain msg d where "HttpTask_execute (se_beast env) t = Inr (msg, d)"
    using HttpTask_execute_compute by blast
  then have "server_next env now (Sv_worker_execute k) sv \<noteq> None"
    using k by (simp add: worker_execute_def Let_def)
  then show ?thesis by blast
next
  case False
  let ?ws = "tp_workers (sv_pool sv)"
  have popping: "\<forall>w \<in> set ?ws. wk_pc w = Popping"
    using False assms(1) unfolding staffed_def by (metis in_set_conv_nth)
  then have "running_tasks (sv_pool sv) = {#}"
    unfolding running_tasks_def by (intro running_none) simp
  then have "tq_queue (tp_queue (sv_pool sv)) \<noteq> []"
    using assms(3) by (auto simp: pool_tasks_def tq_items_def)
  then have "TaskQueue_pop now (tp_queue (sv_pool sv)) \<noteq> None"
    using assms(1) by (simp add: TaskQueue_pop_cases staffed_def)
  moreover have "0 < length ?ws" "wk_pc (?ws ! 0) = Popping"
    using assms(1) popping by (auto simp: staffed_def)
  ultimately have "server_next env now (Sv_worker_pop 0) sv \<noteq> None"
    by (auto simp: worker_pop_def split: option.splits)
  then show ?thesis by blast
qed

lemma session_can_go_on:
  assumes "server_reach env sv" and "\<not> sv_stopped sv" and "i \<in> set (sv_sessions sv)"
  shows "\<exists>ev sv'. server_next env now ev sv = Some sv' \<and>
    (ev \<in> {Sv_start i, Sv_read i (Read_error Eof) fs, Sv_written i Write_done} \<or>
     (\<exists>k. ev = Sv_deliver k \<and> dl_session (sv_posted sv ! k) = i) \<or>
     (\<exists>k. ev = Sv_worker_pop k \<or> ev = Sv_worker_execute k) \<and>
       (\<exists>t \<in># pool_tasks (sv_pool sv). task_session (se_beast env) t = i))"
proof -
  have inv: "protocol env sv" "staffed (sv_pool sv)" "sessions_counted sv"
    using protocol.holds staffed.holds sessions.holds assms(1) by blast+
  then have i: "i < length (sv_conns sv)" "\<not> ss_ended (cn_session (sv_conns sv ! i))"
    using assms(3) by (auto simp: sessions_counted_def)
  then have one: "outstanding env sv i = 1" using inv(1) by (auto simp: protocol_def one_token_def)
  let ?c = "sv_conns sv ! i"
  consider "cn_start ?c" | "cn_reading ?c \<noteq> None" | "cn_writing ?c \<noteq> None" | "0 < elsewhere env sv i"
    using one by (auto simp: outstanding_def conn_ops_def of_bool_def split: if_splits)
  then show ?thesis
  proof cases
    case 1
    then have "server_next env now (Sv_start i) sv \<noteq> None"
      using i assms(2) by (simp add: conn_event_def io_event_def)
    then show ?thesis by blast
  next
    case 2
    obtain s n es where run: "Session_onRead (se_beast env) (se_config env) (Read_error Eof) (sv_nonZeroCounter sv)
        (cn_session ?c) = Some (s, n, es)"
      by (simp add: Session_onRead_def case_prod_beta)
    have "\<forall>e \<in> set es. \<not> is_process e" using run by (cases rule: onRead_cases) simp_all
    then have "server_next env now (Sv_read i (Read_error Eof) fs) sv \<noteq> None"
      using 2 i assms(2) run by (simp add: conn_event_def io_event_def effects_io)
    then show ?thesis by blast
  next
    case 3
    then have "server_next env now (Sv_written i Write_done) sv \<noteq> None"
      using i assms(2) by (simp add: conn_event_def io_event_def)
    then show ?thesis by blast
  next
    case 4
    show ?thesis
    proof (cases "\<exists>d \<in> set (sv_posted sv). dl_session d = i")
      case True
      then obtain k where "k < length (sv_posted sv)" "dl_session (sv_posted sv ! k) = i"
        by (auto simp: in_set_conv_nth)
      moreover from this have "server_next env now (Sv_deliver k) sv \<noteq> None" using assms(2) by (simp add: io_event_def)
      ultimately show ?thesis by blast
    next
      case False
      then have "filter (\<lambda>d. dl_session d = i) (sv_posted sv) = []" by (simp add: filter_empty_conv)
      then have "0 < size (filter_mset (\<lambda>t. task_session (se_beast env) t = i) (pool_tasks (sv_pool sv)))"
        using 4 by (simp add: elsewhere_def)
      then have "filter_mset (\<lambda>t. task_session (se_beast env) t = i) (pool_tasks (sv_pool sv)) \<noteq> {#}"
        by (metis less_irrefl size_empty)
      then obtain t where t: "t \<in># pool_tasks (sv_pool sv)" "task_session (se_beast env) t = i"
        by (auto elim: multiset_nonemptyE)
      then have "pool_tasks (sv_pool sv) \<noteq> {#}" by auto
      then show ?thesis using worker_ready inv t unfolding protocol_def by blast
    qed
  qed
qed

text \<open>
  C7. No session is ever stuck: as long as the server has not stopped, a session that has not ended
  has a next step that the program is ready for: its start, the end of its read or of its write, the
  delivery of its response, or, while its request is in the pool, a step of a worker.
\<close>

theorem HttpServer_progress:
  assumes "server_reach env sv" and "\<not> sv_stopped sv" and "i \<in> set (sv_sessions sv)"
  shows "\<exists>ev sv'. server_next env now ev sv = Some sv' \<and>
    (ev \<in> {Sv_start i, Sv_read i (Read_error Eof) fs, Sv_written i Write_done} \<or>
     (\<exists>k. ev = Sv_deliver k \<and> dl_session (sv_posted sv ! k) = i) \<or>
     (\<exists>k. ev = Sv_worker_pop k \<or> ev = Sv_worker_execute k) \<and>
       (\<exists>t \<in># pool_tasks (sv_pool sv). task_session (se_beast env) t = i))"
  using session_can_go_on [OF assms] .

lemma HttpServer_progress_witness:
  "\<exists>sv ev sv'. example_run example_config compute_events = Some sv \<and> 0 \<in> set (sv_sessions sv) \<and>
    server_next (example_server_env example_config) 0 ev sv = Some sv'"
proof -
  have "map_option (\<lambda>sv. (sv_sessions sv, sv_stopped sv)) (example_run example_config compute_events) = Some ([0], False)"
    by code_simp
  then obtain sv where run: "example_run example_config compute_events = Some sv"
    and sv: "sv_sessions sv = [0]" "\<not> sv_stopped sv" by auto
  then have "0 \<in> set (sv_sessions sv)" by simp
  from HttpServer_progress [OF example_run_reach [OF run] sv(2) this, of 0 "still example_fs"]
  obtain ev sv' where "server_next (example_server_env example_config) 0 ev sv = Some sv'" by blast
  then show ?thesis using run sv(1) by auto
qed

section \<open>The work that is left\<close>

text \<open>
  What can still happen while the server drains, weighted so that every step costs some of it: the
  signal and the drain timer first, then the operations, and last the lines of the log.
\<close>

definition signals :: "'f server \<Rightarrow> nat" where
  "signals sv = 2 * of_bool (sv_signalWait sv) + of_bool (sv_drainTimer sv)"

definition conn_work :: "'f conn \<Rightarrow> nat" where
  "conn_work c = 8 * of_bool (cn_start c) + 6 * of_bool (cn_reading c \<noteq> None) + 2 * of_bool (cn_writing c \<noteq> None) +
     cn_waits c + cn_closes c"

definition pool_work :: "'a thread_pool \<Rightarrow> nat" where
  "pool_work p = 4 * size (pool_tasks p) + size (tq_items (tp_queue p))"

definition drain_work :: "'f server \<Rightarrow> nat" where
  "drain_work sv = 11 * of_bool (sv_pending sv \<noteq> None) + 10 * sv_accepting sv + sv_checks sv +
     sum_list (map conn_work (sv_conns sv)) + pool_work (sv_pool sv) + 3 * length (sv_posted sv)"

definition log_work :: "'f server \<Rightarrow> nat" where
  "log_work sv = length (mq_queue (al_queue (sv_logger sv)))"

definition less_work :: "'f server \<Rightarrow> 'f server \<Rightarrow> bool" where
  "less_work sv' sv \<longleftrightarrow> signals sv' \<le> signals sv \<and> drain_work sv' < drain_work sv"

fun effect_work :: "'f effect \<Rightarrow> nat" where
  "effect_work Arm_timer = 1"
| "effect_work (Async_read n) = 6"
| "effect_work (Async_write res) = 2"
| "effect_work _ = 0"

lemma signals_simps [simp]:
  "signals (server_log now m l sv) = signals sv" "signals (update_conn i f sv) = signals sv"
  "signals (sv\<lparr>sv_pool := p\<rparr>) = signals sv" "signals (sv\<lparr>sv_posted := ds\<rparr>) = signals sv"
  "signals (sv\<lparr>sv_pending := o1\<rparr>) = signals sv" "signals (sv\<lparr>sv_accepting := n\<rparr>) = signals sv"
  "signals (sv\<lparr>sv_checks := n\<rparr>) = signals sv" "signals (sv\<lparr>sv_nonZeroCounter := u\<rparr>) = signals sv"
  "signals (sv\<lparr>sv_logger := lg\<rparr>) = signals sv" "signals (insert_session now cfg sv) = signals sv"
  by (simp_all add: signals_def server_log_def update_conn_def insert_session_eq Let_def)

lemma signals_close_sessions [simp]: "signals (close_sessions sv) = signals sv"
proof -
  have "signals (fold (\<lambda>i. update_conn i (f i)) is sv) = signals sv" for f "is"
    by (induction "is" arbitrary: sv) simp_all
  then show ?thesis by (simp add: close_sessions_def)
qed

lemma signals_checkDrainComplete: "signals (checkDrainComplete now sv) \<le> signals sv"
  by (simp add: signals_def checkDrainComplete_def server_log_def)

lemma signals_io_effect: "signals (io_effect now i e sv) \<le> signals sv"
proof (cases e)
  case End_session
  let ?sv = "sv\<lparr>sv_sessions := removeAll i (sv_sessions sv), sv_activeSessions := sv_activeSessions sv - 1\<rparr>"
  have "signals ?sv = signals sv" by (simp add: signals_def)
  then show ?thesis
    using signals_checkDrainComplete [of now ?sv] End_session by (simp add: HttpServer_endSession_def Let_def)
qed simp_all

lemma signals_io_effects: "signals (io_effects now i es sv) \<le> signals sv"
  by (induction es arbitrary: sv) (auto intro: order_trans signals_io_effect)

lemma signals_run_handler: "signals (run_handler now i h sv) \<le> signals sv"
  using signals_io_effects [of now i _ "update_conn i _ sv"] by (simp add: run_handler_def case_prod_beta)

lemma signals_deliver_all: "signals (fold (deliver env now) ds sv) \<le> signals sv"
  by (induction ds arbitrary: sv) (auto simp: deliver_run_handler intro: order_trans signals_run_handler)

lemma work_cong:
  assumes "sv_conns sv' = sv_conns sv" and "sv_pool sv' = sv_pool sv" and "sv_posted sv' = sv_posted sv"
    and "sv_pending sv' = sv_pending sv" and "sv_accepting sv' = sv_accepting sv" and "sv_checks sv' = sv_checks sv"
  shows "drain_work sv' = drain_work sv"
  using assms by (simp add: drain_work_def)

lemma work_of_update:
  assumes "i < length (sv_conns sv)"
  shows "drain_work (update_conn i f sv) + conn_work (sv_conns sv ! i) = drain_work sv + conn_work (f (sv_conns sv ! i))"
proof -
  have "sum_list (map conn_work ((sv_conns sv)[i := c])) + conn_work (sv_conns sv ! i) =
      sum_list (map conn_work (sv_conns sv)) + conn_work c" for c
    using assms elem_le_sum_list [of i "map conn_work (sv_conns sv)"]
    by (simp add: map_update sum_list_update)
  from this [of "f (sv_conns sv ! i)"] show ?thesis by (simp add: drain_work_def update_conn_def)
qed

lemma work_update_le:
  assumes "\<And>c. conn_work (f c) \<le> conn_work c + n"
  shows "drain_work (update_conn i f sv) \<le> drain_work sv + n"
proof (cases "i < length (sv_conns sv)")
  case True
  then show ?thesis using work_of_update [OF True, of f] assms [of "sv_conns sv ! i"] by simp
next
  case False
  then show ?thesis by (simp add: update_conn_def list_update_beyond)
qed

lemma work_io_effect: "drain_work (io_effect now i e sv) \<le> drain_work sv + effect_work e"
proof (cases e)
  case Arm_timer
  then show ?thesis using work_update_le [of "\<lambda>c. c\<lparr>cn_waits := cn_waits c + 1\<rparr>" 1 i sv] by (simp add: conn_work_def)
next
  case (Async_read n)
  then show ?thesis using work_update_le [of "\<lambda>c. c\<lparr>cn_reading := Some n\<rparr>" 6 i sv] by (simp add: conn_work_def)
next
  case (Async_write res)
  then show ?thesis using work_update_le [of "\<lambda>c. c\<lparr>cn_writing := Some res\<rparr>" 2 i sv] by (simp add: conn_work_def)
next
  case Close_socket
  then show ?thesis using work_update_le [of "\<lambda>c. c\<lparr>cn_open := False\<rparr>" 0 i sv] by (simp add: conn_work_def)
next
  case End_session
  have "drain_work (HttpServer_endSession now i sv) = drain_work sv" by (rule work_cong) simp_all
  then show ?thesis using End_session by simp
next
  case (Log m l)
  have "drain_work (server_log now m l sv) = drain_work sv" by (rule work_cong) simp_all
  then show ?thesis using Log by simp
qed simp_all

lemma work_io_effects: "drain_work (io_effects now i es sv) \<le> drain_work sv + sum_list (map effect_work es)"
proof (induction es arbitrary: sv)
  case (Cons e es)
  show ?case using work_io_effect [of now i e sv] Cons [of "io_effect now i e sv"] by simp
qed simp

lemma work_run_handler:
  "drain_work (run_handler now i h sv) \<le> drain_work sv + sum_list (map effect_work (snd (h (cn_session (sv_conns sv ! i)))))"
proof -
  obtain s es where run: "h (cn_session (sv_conns sv ! i)) = (s, es)" by force
  have "drain_work (update_conn i (\<lambda>c. c\<lparr>cn_session := s\<rparr>) sv) \<le> drain_work sv + 0"
    by (rule work_update_le) (simp add: conn_work_def)
  then show ?thesis
    using work_io_effects [of now i es "update_conn i (\<lambda>c. c\<lparr>cn_session := s\<rparr>) sv"] run by (simp add: run_handler_def)
qed

lemma work_deliver: "drain_work (deliver env now d sv) \<le> drain_work sv + 2"
proof -
  have "sum_list (map effect_work (snd (Session_sendResponse res keep s))) \<le> 2" for res keep s
    by (simp add: Session_sendResponse_def)
  then show ?thesis using work_run_handler order_trans add_left_mono unfolding deliver_run_handler by metis
qed

lemma work_deliver_all: "drain_work (fold (deliver env now) ds sv) \<le> drain_work sv + 2 * length ds"
proof (induction ds arbitrary: sv)
  case (Cons d ds)
  show ?case using work_deliver [of env now d sv] Cons [of "deliver env now d sv"] by simp
qed simp

text \<open>Whatever is done with a request is less than the read was.\<close>

lemma work_processed:
  assumes "RequestProcessor_process B J handle routes now req priority i pool = Some (pool', posted, direct)"
    and "tq_inv (tp_queue pool)"
  shows "pool_work pool' + 3 * length posted + 2 * length direct \<le> pool_work pool + 5"
proof (cases "is_compute req")
  case True
  obtain ok p where sub: "ThreadPool_submit now (compute_task B J req i) priority pool = (ok, p)" by force
  then obtain q where q: "TaskQueue_push now (compute_task B J req i) priority (tp_queue pool) = (ok, q)"
    "p = pool\<lparr>tp_queue := q\<rparr>"
    by (rule ThreadPool_submit_cases)
  show ?thesis
    using assms(1) True sub pool_tasks_submit(1) [OF sub assms(2)] tq_items_push [OF q(1)] q(2)
    by (cases ok) (auto simp: RequestProcessor_process_def Let_def pool_work_def simp del: size_tq_items)
next
  case False
  then show ?thesis using assms(1) by (auto simp: RequestProcessor_process_def Let_def split: option.splits)
qed

lemma work_process:
  assumes "process_request env fs now i req priority sv = Some sv'" and "addressed env sv"
  shows "drain_work sv' \<le> drain_work sv + 5" and "signals sv' \<le> signals sv"
proof -
  from assms(1) obtain pool posted direct where proc: "RequestProcessor_process (se_beast env) (se_json env)
        (HttpServer_handle env fs (sv_pool sv)) (sv_routes sv) now req priority i (sv_pool sv) = Some (pool, posted, direct)"
    and sv': "sv' = fold (deliver env now) direct (sv\<lparr>sv_pool := pool, sv_posted := sv_posted sv @ posted\<rparr>)"
    by (rule process_request_cases)
  let ?sv = "sv\<lparr>sv_pool := pool, sv_posted := sv_posted sv @ posted\<rparr>"
  have "drain_work ?sv + pool_work (sv_pool sv) = drain_work sv + pool_work pool + 3 * length posted"
    by (simp add: drain_work_def)
  then show "drain_work sv' \<le> drain_work sv + 5"
    using work_deliver_all [of env now direct ?sv] work_processed [OF proc] assms(2)
    unfolding sv' addressed_def by linarith
  show "signals sv' \<le> signals sv"
    using signals_deliver_all [of env now direct ?sv] by (simp add: sv')
qed

section \<open>Every step of a drain costs work\<close>

lemma conn_event_work:
  assumes "conn_event sv i possible (Some (run_handler now i h (update_conn i f sv))) = Some sv'"
    and "\<And>c. possible c \<Longrightarrow> conn_work (f c) + sum_list (map effect_work (snd (h (cn_session (f c))))) < conn_work c"
  shows "less_work sv' sv"
  using assms(1)
proof (rule conn_event_cases)
  assume i: "i < length (sv_conns sv)" "possible (sv_conns sv ! i)"
    and sv': "sv' = run_handler now i h (update_conn i f sv)"
  have "drain_work sv' \<le> drain_work (update_conn i f sv) +
      sum_list (map effect_work (snd (h (cn_session (f (sv_conns sv ! i))))))"
    using work_run_handler [of now i h "update_conn i f sv"] i(1) by (simp add: sv')
  then have "drain_work sv' < drain_work sv" using work_of_update [OF i(1), of f] assms(2) [OF i(2)] by linarith
  then show ?thesis using signals_run_handler [of now i h "update_conn i f sv"] by (simp add: less_work_def sv')
qed

lemma read_work:
  assumes "server_next env now (Sv_read i result fs) sv = Some sv'" and "addressed env sv"
  shows "less_work sv' sv"
  using assms(1)
proof (cases rule: read_event_cases)
  case (no_request s es n)
  let ?sv = "update_conn i (\<lambda>c. c\<lparr>cn_reading := None, cn_session := s\<rparr>) (sv\<lparr>sv_nonZeroCounter := n\<rparr>)"
  have same: "drain_work (sv\<lparr>sv_nonZeroCounter := n\<rparr>) = drain_work sv" by (rule work_cong) simp_all
  have "drain_work ?sv + 6 = drain_work sv"
    using work_of_update [of i "sv\<lparr>sv_nonZeroCounter := n\<rparr>" "\<lambda>c. c\<lparr>cn_reading := None, cn_session := s\<rparr>"]
      no_request(1,2) same by (simp add: conn_work_def)
  moreover have "sum_list (map effect_work es) \<le> 2"
    using no_request(8,6) by (auto simp: Session_onRead_def session_defs split: read_result.splits read_error.splits
        prod.splits option.splits if_splits)
  ultimately have "drain_work sv' < drain_work sv" using work_io_effects [of now i es ?sv] no_request(7) by simp
  then show ?thesis
    using signals_io_effects [of now i es ?sv] no_request(7) by (simp add: less_work_def)
next
  case (a_request req priority quiet n)
  let ?f = "\<lambda>c. c\<lparr>cn_reading := None, cn_session := (cn_session (sv_conns sv ! i))\<lparr>ss_requestCount :=
            ss_requestCount (cn_session (sv_conns sv ! i)) + 1\<rparr>\<rparr>"
  let ?sv = "update_conn i ?f (sv\<lparr>sv_nonZeroCounter := n\<rparr>)"
  have same: "drain_work (sv\<lparr>sv_nonZeroCounter := n\<rparr>) = drain_work sv" by (rule work_cong) simp_all
  have "drain_work ?sv + 6 = drain_work sv"
    using work_of_update [of i "sv\<lparr>sv_nonZeroCounter := n\<rparr>" ?f] a_request(1,2) same by (simp add: conn_work_def)
  moreover have "sum_list (map effect_work quiet) = 0"
  proof -
    have "effect_work e = 0" if "is_quiet e" for e :: "'a effect" using that by (cases e) simp_all
    then show ?thesis using a_request(4) by simp
  qed
  moreover have "addressed env (io_effects now i quiet ?sv)"
    using assms(2) by - (rule addressed_cong [of env sv], simp_all)
  moreover have "signals ?sv = signals sv" by simp
  ultimately show ?thesis
    using work_process [OF a_request(5)] work_io_effects [of now i quiet ?sv] signals_io_effects [of now i quiet ?sv]
    unfolding less_work_def by linarith
qed

lemma staffed_pop_work:
  assumes "staffed p" and "tq_inv (tp_queue p)" and "k < length (tp_workers p)"
    and "wk_pc (tp_workers p ! k) = Popping" and "worker_pop now k p = Some p'"
  shows "pool_work p' + 1 = pool_work p"
proof -
  have tasks: "pool_tasks p' = pool_tasks p" using pool_tasks_pop(1) [OF assms(3,4,5,2)] .
  from assms(5,2) show ?thesis
  proof (cases rule: worker_pop_cases)
    case (got x)
    then show ?thesis by (simp add: pool_work_def tasks del: size_tq_items)
  next
    case left
    then show ?thesis using assms(1) by (auto simp: staffed_def)
  qed
qed

lemma execute_work:
  assumes "addressed env sv" and "k < length (tp_workers (sv_pool sv))" and "worker_execute env now k sv = Some sv'"
  shows "less_work sv' sv"
proof -
  obtain t msg d where t: "wk_pc (tp_workers (sv_pool sv) ! k) = Executing t"
    and run: "HttpTask_execute (se_beast env) t = Inr (msg, d)"
    using assms(3) by (auto simp: worker_execute_def split: worker_pc.splits sum.splits)
  define sv1 where "sv1 = (case msg of None \<Rightarrow> sv | Some m \<Rightarrow> server_log now m ERROR sv)"
  have sv': "sv' = sv1\<lparr>sv_pool := worker_executed k (sv_pool sv1), sv_posted := sv_posted sv1 @ [d]\<rparr>"
    using assms(3) t run by (simp add: worker_execute_def Let_def sv1_def)
  have same: "drain_work sv1 = drain_work sv" "signals sv1 = signals sv" "sv_pool sv1 = sv_pool sv"
    by (auto simp: sv1_def intro: work_cong split: option.splits)
  have "pool_tasks (sv_pool sv) = add_mset t (pool_tasks (worker_executed k (sv_pool sv)))"
    using pool_tasks_execute(1) [OF assms(2) t] assms(1) by (simp add: addressed_def)
  then have "pool_work (worker_executed k (sv_pool sv)) + 4 = pool_work (sv_pool sv)"
    by (simp add: pool_work_def worker_executed_def)
  then have "drain_work sv' + 1 = drain_work sv1" by (simp add: sv' drain_work_def same(3))
  then show ?thesis using same by (simp add: less_work_def sv')
qed

definition drain_order :: "('f server \<times> 'f server) set" where
  "drain_order = measures [signals, drain_work, log_work]"

lemma wf_drain_order: "wf drain_order"
  by (simp add: drain_order_def)

lemma less_work_order: "less_work sv' sv \<Longrightarrow> (sv', sv) \<in> drain_order"
  by (auto simp: less_work_def drain_order_def in_measures)

lemma drain_event_order:
  assumes "server_reach env sv" and "sv_draining sv" and "server_next env now ev sv = Some sv'"
  shows "(sv', sv) \<in> drain_order"
proof -
  have inv: "addressed env sv" "staffed (sv_pool sv)"
    using protocol.holds staffed.holds assms(1) unfolding protocol_def by blast+
  have inv_q: "tq_inv (tp_queue (sv_pool sv))" using inv(1) by (simp add: addressed_def)
  show ?thesis
  proof (cases ev)
    case (Sv_accept result)
    have same: "doAccept now (se_config env) (server_log now m l (sv\<lparr>sv_pending := None\<rparr>)) =
        server_log now m l (sv\<lparr>sv_pending := None\<rparr>)"
      "doAccept now (se_config env) (sv\<lparr>sv_pending := None\<rparr>) = sv\<lparr>sv_pending := None\<rparr>" for m l
      using assms(2) by (simp_all add: doAccept_def)
    show ?thesis
      using assms(3) Sv_accept
      by (auto simp: io_event_def on_accept_def same less_work_def drain_work_def intro!: less_work_order
          split: if_splits accept_result.splits)
  next
    case Sv_rejected
    have same: "doAccept now (se_config env) (sv\<lparr>sv_pending := None\<rparr>) = sv\<lparr>sv_pending := None\<rparr>"
      using assms(2) by (simp add: doAccept_def)
    show ?thesis
      using assms(3) Sv_rejected
      by (auto simp: io_event_def same less_work_def drain_work_def intro!: less_work_order split: if_splits)
  next
    case Sv_insert
    then show ?thesis
      using assms(3) by (auto simp: less_work_def drain_work_def conn_work_def intro!: less_work_order split: if_splits)
  next
    case (Sv_start i)
    show ?thesis
      by (rule less_work_order, rule conn_event_work [OF assms(3) [unfolded Sv_start server_next.simps]])
        (auto simp: conn_work_def Session_doRead_def)
  next
    case (Sv_read i result fs)
    then show ?thesis using read_work assms(3) inv(1) less_work_order by blast
  next
    case (Sv_written i result)
    show ?thesis
      by (rule less_work_order, rule conn_event_work [OF assms(3) [unfolded Sv_written server_next.simps]])
        (use assms(2) in \<open>auto simp: conn_work_def Session_onWrite_def Session_endSession_def Let_def
          split: write_result.splits\<close>)
  next
    case (Sv_timer i aborted)
    show ?thesis
      by (rule less_work_order, rule conn_event_work [OF assms(3) [unfolded Sv_timer server_next.simps]])
        (auto simp: conn_work_def Session_onTimeout_def Session_endSession_def Let_def)
  next
    case (Sv_close i)
    show ?thesis
      by (rule less_work_order, rule conn_event_work [OF assms(3) [unfolded Sv_close server_next.simps]])
        (auto simp: conn_work_def Session_close_def Session_endSession_def Let_def)
  next
    case (Sv_deliver k)
    let ?sv = "sv\<lparr>sv_posted := take k (sv_posted sv) @ drop (Suc k) (sv_posted sv)\<rparr>"
    have step: "k < length (sv_posted sv)" "sv' = deliver env now (sv_posted sv ! k) ?sv"
      using assms(3) Sv_deliver by (auto simp: io_event_def split: if_splits)
    then have "drain_work ?sv + 3 = drain_work sv" by (simp add: drain_work_def)
    moreover have "signals sv' \<le> signals sv"
      using signals_deliver_all [of env now "[sv_posted sv ! k]" ?sv] by (simp add: step(2))
    ultimately show ?thesis
      using work_deliver [of env now "sv_posted sv ! k" ?sv] by (simp add: less_work_def less_work_order step(2))
  next
    case (Sv_worker_pop k)
    then obtain p where p: "k < length (tp_workers (sv_pool sv))" "wk_pc (tp_workers (sv_pool sv) ! k) = Popping"
      "worker_pop now k (sv_pool sv) = Some p" "sv' = sv\<lparr>sv_pool := p\<rparr>"
      using assms(3) by (auto simp: at_pop_iff split: if_splits)
    have "pool_work p + 1 = pool_work (sv_pool sv)" by (rule staffed_pop_work [OF inv(2) inv_q p(1-3)])
    then have "drain_work sv' + 1 = drain_work sv" by (simp add: p(4) drain_work_def)
    then show ?thesis by (intro less_work_order) (simp add: less_work_def p(4))
  next
    case (Sv_worker_execute k)
    then show ?thesis using assms(3) execute_work inv(1) less_work_order by (metis option.distinct(1) server_next.simps(11))
  next
    case (Sv_signal n)
    then show ?thesis
      using assms(3) by (auto simp: io_event_def on_signal_def drain_order_def in_measures signals_def server_log_def
          split: if_splits)
  next
    case Sv_drain_check
    have "drain_work (checkDrainComplete now (sv\<lparr>sv_checks := n\<rparr>)) = drain_work (sv\<lparr>sv_checks := n\<rparr>)" for n
      by (rule work_cong) simp_all
    then show ?thesis
      using assms(3) Sv_drain_check signals_checkDrainComplete [of now "sv\<lparr>sv_checks := sv_checks sv - 1\<rparr>"]
      by (auto simp: less_work_def drain_work_def intro!: less_work_order split: if_splits)
  next
    case Sv_drain_timer
    let ?sv = "server_log now ''Drain timeout reached, forcing remaining sessions closed'' WARNING (sv\<lparr>sv_drainTimer := False\<rparr>)"
    have step: "sv_drainTimer sv" "sv' = checkDrainComplete now (close_sessions ?sv)"
      using assms(3) Sv_drain_timer by (auto simp: io_event_def on_drain_timer_def split: if_splits)
    have "signals sv' \<le> signals ?sv"
      using signals_checkDrainComplete [of now "close_sessions ?sv"] by (simp add: step(2))
    then show ?thesis using step(1) by (auto simp: drain_order_def in_measures signals_def server_log_def)
  next
    case Sv_log_round
    then obtain l where l: "LogConsumer_round (se_localtime env) (sv_logger sv) = Some l" "sv' = sv\<lparr>sv_logger := l\<rparr>"
      using assms(3) by (auto split: if_splits)
    have "\<not> mq_done (al_queue (sv_logger sv))"
      using running.holds [OF assms(1)] by (simp add: running_def kept_def)
    then have "log_work sv' < log_work sv"
      using l by (auto simp: LogConsumer_round_def MessageQueue_pop_def log_work_def split: option.splits list.splits if_splits)
    moreover have "drain_work sv' = drain_work sv" by (rule work_cong) (simp_all add: l(2))
    ultimately show ?thesis by (simp add: drain_order_def in_measures l(2))
  qed
qed

section \<open>The drain comes to its end\<close>

lemma draining_deliver_all [simp]: "sv_draining (fold (deliver env now) ds sv) = sv_draining sv"
  by (induction ds arbitrary: sv) (simp_all add: deliver_run_handler run_handler_def case_prod_beta)

lemma draining_kept:
  assumes "server_next env now ev sv = Some sv'" and "sv_draining sv"
  shows "sv_draining sv'"
proof (cases ev)
  case (Sv_read i result fs)
  from assms(1) [unfolded Sv_read] show ?thesis
  proof (cases rule: read_event_cases)
    case (a_request req priority quiet n)
    from a_request(5) show ?thesis using assms(2) by (cases rule: process_request_cases) simp
  qed (use assms(2) in simp)
qed (use assms in \<open>auto simp: io_event_def conn_event_def on_accept_def on_signal_def on_drain_timer_def run_handler_def
    deliver_def worker_execute_def Let_def case_prod_beta split: if_splits accept_result.splits worker_pc.splits
      sum.splits option.splits\<close>)

text \<open>
  C9. A drain always ends: once the server drains there is no infinite execution, whatever the
  clients, the timers, the workers and the scheduler do.
\<close>

theorem HttpServer_drain_terminates:
  "\<not> (\<exists>f. server_reach env (f 0) \<and> sv_draining (f 0) \<and>
     (\<forall>n. \<exists>now ev. server_next env now ev (f n) = Some (f (Suc n))))"
proof
  assume "\<exists>f. server_reach env (f 0) \<and> sv_draining (f 0) \<and>
     (\<forall>n. \<exists>now ev. server_next env now ev (f n) = Some (f (Suc n)))"
  then obtain f where f: "server_reach env (f 0)" "sv_draining (f 0)"
    "\<And>n. \<exists>now ev. server_next env now ev (f n) = Some (f (Suc n))" by blast
  have run: "server_reach env (f n) \<and> sv_draining (f n)" for n
  proof (induction n)
    case (Suc n)
    obtain now ev where "server_next env now ev (f n) = Some (f (Suc n))" using f(3) by blast
    then show ?case using Suc server_reach.step draining_kept by blast
  qed (use f in simp)
  have "(f (Suc n), f n) \<in> drain_order" for n
    using f(3) [of n] run [of n] drain_event_order by blast
  then show False using wf_drain_order by (auto simp: wf_iff_no_infinite_down_chain)
qed

text \<open>
  C10. And it ends well: a draining server that can make no step has stopped its I/O context. With
  the previous theorem, every execution of a draining server leads to \<open>m_ioc.stop()\<close>.
\<close>

theorem HttpServer_drain_completes:
  assumes "server_reach env sv" and "sv_draining sv" and "\<And>now ev. server_next env now ev sv = None"
  shows "sv_stopped sv"
proof (rule ccontr)
  assume running: "\<not> sv_stopped sv"
  have "sv_sessions sv = []"
  proof (rule ccontr)
    assume "sv_sessions sv \<noteq> []"
    then obtain i where "i \<in> set (sv_sessions sv)" by (cases "sv_sessions sv") auto
    then show False using session_can_go_on [OF assms(1) running] assms(3) by (metis option.distinct(1))
  qed
  moreover have "sv_checks sv = 0" using assms(3) [of 0 Sv_drain_check] by (simp split: if_splits)
  moreover have "sv_activeSessions sv = 0"
    using sessions.holds [OF assms(1)] calculation(1) by (simp add: sessions_counted_def)
  ultimately show False using drain.holds [OF assms(1)] assms(2) running by (simp add: drain_inv_def)
qed

definition drained_run :: "(string \<times> string) list server option" where
  "drained_run = example_run example_config drain_events"

lemma drained_state:
  "map_option (\<lambda>sv. (sv_draining sv, sv_stopped sv, sv_accepting sv, sv_checks sv)) drained_run =
     Some (True, True, 0, 0)"
  "map_option (\<lambda>sv. (map (\<lambda>w. at_pop (wk_pc w)) (tp_workers (sv_pool sv)), length (tq_queue (tp_queue (sv_pool sv))),
       tq_done (tp_queue (sv_pool sv)), tq_abort (tp_queue (sv_pool sv)))) drained_run = Some ([True, True], 0, False, False)"
  "map_option (\<lambda>sv. (length (mq_queue (al_queue (sv_logger sv))), mq_done (al_queue (sv_logger sv)))) drained_run =
     Some (0, False)"
  by code_simp+

lemma HttpServer_drain_completes_witness:
  "\<exists>sv. drained_run = Some sv \<and> (\<forall>now ev. server_next (example_server_env example_config) now ev sv = None) \<and> sv_stopped sv"
proof -
  obtain sv where run: "drained_run = Some sv"
    and server: "sv_draining sv" "sv_stopped sv" "sv_accepting sv = 0" "sv_checks sv = 0"
    using drained_state(1) by auto
  have pool: "map (\<lambda>w. at_pop (wk_pc w)) (tp_workers (sv_pool sv)) = [True, True]" "tq_queue (tp_queue (sv_pool sv)) = []"
    "\<not> tq_done (tp_queue (sv_pool sv))" "\<not> tq_abort (tp_queue (sv_pool sv))"
    using drained_state(2) [unfolded run] by auto
  have log: "mq_queue (al_queue (sv_logger sv)) = []" "\<not> mq_done (al_queue (sv_logger sv))"
    using drained_state(3) [unfolded run] by auto
  have "\<forall>w \<in> set (tp_workers (sv_pool sv)). wk_pc w = Popping"
    using pool(1) by (auto simp: map_eq_Cons_conv at_pop_iff)
  then have w: "wk_pc (tp_workers (sv_pool sv) ! k) = Popping" if "k < length (tp_workers (sv_pool sv))" for k
    using nth_mem [OF that] by blast
  have "server_next (example_server_env example_config) now ev sv = None" for now ev
    using server pool(2-4) log w
    by (cases ev) (auto simp: io_event_def conn_event_def worker_pop_def TaskQueue_pop_def worker_execute_def
        LogConsumer_round_def MessageQueue_pop_def)
  then show ?thesis
    using HttpServer_drain_completes [OF example_run_reach server(1)] run unfolding drained_run_def by blast
qed

end
