(* ===== verification/Server_Robust.thy ===== *)
theory Server_Robust
  imports Server_Progress
begin

text \<open>
  No client can bring the server down: whatever is read from a socket, no handler throws and no
  division is by zero, but for a sample rate of 0.
\<close>

section \<open>What can happen\<close>

text \<open>
  The completions that the I/O context, the workers and the log consumer can run in a state, from what
  is outstanding; whether their handlers then fail is another matter.
\<close>

definition conn_possible :: "'f server \<Rightarrow> nat \<Rightarrow> ('f conn \<Rightarrow> bool) \<Rightarrow> bool" where
  "conn_possible sv i f \<longleftrightarrow> \<not> sv_stopped sv \<and> i < length (sv_conns sv) \<and> f (sv_conns sv ! i)"

definition worker_possible :: "'f server \<Rightarrow> nat \<Rightarrow> ('f http_task worker_pc \<Rightarrow> bool) \<Rightarrow> bool" where
  "worker_possible sv k f \<longleftrightarrow> k < length (tp_workers (sv_pool sv)) \<and> f (wk_pc (tp_workers (sv_pool sv) ! k))"

fun possible :: "config \<Rightarrow> 'f server_event \<Rightarrow> 'f server \<Rightarrow> bool" where
  "possible cfg (Sv_accept result) sv \<longleftrightarrow> \<not> sv_stopped sv \<and> sv_pending sv = Some Accept_session \<and>
     (result = Accept_done \<longrightarrow> sv_accepting sv < io_thread_count cfg)"
| "possible cfg Sv_insert sv \<longleftrightarrow> 0 < sv_accepting sv"
| "possible cfg Sv_rejected sv \<longleftrightarrow> \<not> sv_stopped sv \<and> sv_pending sv = Some Accept_reject"
| "possible cfg (Sv_start i) sv \<longleftrightarrow> conn_possible sv i cn_start"
| "possible cfg (Sv_read i result fs) sv \<longleftrightarrow> conn_possible sv i (\<lambda>c. cn_reading c \<noteq> None)"
| "possible cfg (Sv_written i result) sv \<longleftrightarrow> conn_possible sv i (\<lambda>c. cn_writing c \<noteq> None)"
| "possible cfg (Sv_timer i aborted) sv \<longleftrightarrow> conn_possible sv i (\<lambda>c. 0 < cn_waits c)"
| "possible cfg (Sv_close i) sv \<longleftrightarrow> conn_possible sv i (\<lambda>c. 0 < cn_closes c)"
| "possible cfg (Sv_deliver k) sv \<longleftrightarrow> \<not> sv_stopped sv \<and> k < length (sv_posted sv)"
| "possible cfg (Sv_worker_pop k) sv \<longleftrightarrow> worker_possible sv k at_pop \<and>
     (tq_queue (tp_queue (sv_pool sv)) \<noteq> [] \<or> tq_done (tp_queue (sv_pool sv)) \<or> tq_abort (tp_queue (sv_pool sv)))"
| "possible cfg (Sv_worker_execute k) sv \<longleftrightarrow> worker_possible sv k (\<lambda>pc. \<exists>t. pc = Executing t)"
| "possible cfg (Sv_signal signal) sv \<longleftrightarrow> \<not> sv_stopped sv \<and> sv_signalWait sv"
| "possible cfg Sv_drain_check sv \<longleftrightarrow> 0 < sv_checks sv"
| "possible cfg Sv_drain_timer sv \<longleftrightarrow> \<not> sv_stopped sv \<and> sv_drainTimer sv"
| "possible cfg Sv_log_round sv \<longleftrightarrow> al_thread (sv_logger sv) = Running \<and>
     (mq_queue (al_queue (sv_logger sv)) \<noteq> [] \<or> mq_done (al_queue (sv_logger sv)))"

section \<open>The sizes that the status reports\<close>

definition pool_sized :: "'a thread_pool \<Rightarrow> bool" where
  "pool_sized p \<longleftrightarrow> length (tp_workers p) < 2 ^ 64"

lemma size_t_below: "unat (n :: size_t) < 2 ^ 64"
  by (rule order.strict_trans2 [OF unsigned_less]) simp

lemma pool_sized_step: "pool_step p pe p' \<Longrightarrow> at_work pe \<Longrightarrow> pool_sized p \<Longrightarrow> pool_sized p'"
  by (erule pool_step.cases)
    (auto simp: pool_sized_def ThreadPool_submit_def worker_pop_def worker_executed_def
      split: prod.splits option.splits)

lemma pool_sized_start:
  assumes "ThreadPool_start (ThreadPool_new n m) = Some p"
  shows "pool_sized p"
proof -
  obtain ws where ws: "start_all (tp_workers (ThreadPool_new n m :: 'a thread_pool)) = Some ws"
    and p: "p = (ThreadPool_new n m)\<lparr>tp_workers := ws\<rparr>"
    using assms by (auto simp: ThreadPool_start_def)
  have "\<forall>w \<in> set (tp_workers (ThreadPool_new n m :: 'a thread_pool)). wk_pc w = Not_Started"
    by (simp add: ThreadPool_new_def WorkerThread_new_def)
  from start_all_running [OF ws this] have "length ws = unat (if n = 0 then 1 else n)"
    by (simp add: ThreadPool_new_def)
  then show ?thesis using size_t_below by (simp add: pool_sized_def p)
qed

interpretation sized: server_invariant env "\<lambda>sv. pool_sized (sv_pool sv)" for env
proof
  fix now fs and sv :: "'a server"
  assume "HttpServer_start now env fs = Some (Inr sv)"
  then show "pool_sized (sv_pool sv)" using start_fields(10) pool_sized_start by blast
next
  fix sv now ev and sv' :: "'a server"
  assume "pool_sized (sv_pool sv)" "server_next env now ev sv = Some sv'"
  then show "pool_sized (sv_pool sv')" using server_pool_step pool_sized_step by metis
qed

section \<open>No handler throws\<close>

lemma status_answers:
  assumes "json_laws J" and "pool_sized p" and "tq_inv (tp_queue p)"
  shows "StatusHandler_handle B J p res \<noteq> None"
proof -
  have "length (tq_queue (tp_queue p)) < 2 ^ 64"
    using assms(3) size_t_below [of "tq_max (tp_queue p)"] by (simp add: tq_inv_def)
  then have "ascii_json (Json_object [(''status'', Json_string ''ok''), (''data'', Json_object
      [(''threads'', Json_int (int (ThreadPool_threadCount p))), (''queue_size'', Json_int (int (ThreadPool_pendingTasks p)))])])"
    using assms(2)
    by (simp add: ascii_string_def json_int_range_def pool_sized_def ThreadPool_threadCount_def
        ThreadPool_pendingTasks_def TaskQueue_size_def)
  from jl_dumps [OF assms(1) this] show ?thesis
    by (auto simp: StatusHandler_handle_def makeJsonSuccess_def)
qed

lemma process_answers_always:
  assumes "json_laws (se_json env)" and "pool_sized (sv_pool sv)" and "tq_inv (tp_queue (sv_pool sv))"
  shows "process_request env fs now i req priority sv \<noteq> None"
proof -
  have handled: "HttpServer_handle env fs (sv_pool sv) h req res \<noteq> None" for h res
    using status_answers [OF assms] by (auto simp: HttpServer_handle_def split: handler.splits)
  have "Router_route (se_beast env) (HttpServer_handle env fs (sv_pool sv)) (sv_routes sv) req res \<noteq> None" for res
    unfolding Router_route_def by (simp add: handled del: not_None_eq split: option.splits)
  then obtain found res where "Router_route (se_beast env) (HttpServer_handle env fs (sv_pool sv)) (sv_routes sv) req
      (Response_new (se_beast env)) = Some (found, res)"
    by fast
  then show ?thesis
    by (cases "is_compute req") (simp_all add: process_request_def RequestProcessor_process_def Let_def case_prod_beta)
qed

lemma process_runs:
  assumes "json_laws (se_json env)" and "server_reach env sv" and "sv_pool sv' = sv_pool sv"
  shows "process_request env fs now i req priority sv' \<noteq> None"
  using assms protocol.holds [OF assms(2)] sized.holds [OF assms(2)]
  by (intro process_answers_always) (simp_all add: protocol_def addressed_def)

lemma sample_priority_total: "cf_sample_rate cfg \<noteq> 0 \<Longrightarrow> sample_priority cfg p n \<noteq> None"
  by (simp add: sample_priority_def Let_def)

lemma onRead_total:
  assumes "cf_sample_rate cfg \<noteq> 0"
  shows "Session_onRead B cfg result n s \<noteq> None"
  unfolding Session_onRead_def Let_def case_prod_beta
  by (simp add: sample_priority_total [OF assms] del: not_None_eq split: read_result.split read_error.split option.split)

lemma pool_io_effects: "sv_pool (io_effects now i es sv) = sv_pool sv"
proof -
  have "sv_pool (io_effect now i e sv) = sv_pool sv" for e and sv :: "'a server" by (cases e) simp_all
  then show ?thesis by (induction es arbitrary: sv) simp_all
qed

lemma read_runs:
  assumes "json_laws (se_json env)" and "cf_sample_rate (se_config env) \<noteq> 0" and "server_reach env sv"
    and "conn_possible sv i (\<lambda>c. cn_reading c \<noteq> None)"
  shows "server_next env now (Sv_read i result fs) sv \<noteq> None"
proof -
  let ?s = "cn_session (sv_conns sv ! i)"
  obtain s n es where run: "Session_onRead (se_beast env) (se_config env) result (sv_nonZeroCounter sv) ?s = Some (s, n, es)"
    using onRead_total [OF assms(2)] by fast
  let ?sv = "update_conn i (\<lambda>c. c\<lparr>cn_reading := None, cn_session := s\<rparr>) (sv\<lparr>sv_nonZeroCounter := n\<rparr>)"
  have "effects env fs now i es ?sv \<noteq> None"
    using run
  proof (cases rule: onRead_cases)
    case no_request
    then show ?thesis by (simp add: effects_io)
  next
    case (a_request req priority quiet)
    have "process_request env fs now i req priority (io_effects now i quiet ?sv) \<noteq> None"
      by (rule process_runs [OF assms(1,3)]) (simp add: pool_io_effects)
    then show ?thesis using a_request quiet_no_process [OF a_request(3)] by (auto simp: effects_append effects_io)
  qed
  then show ?thesis using run assms(4) by (simp add: conn_possible_def conn_event_def io_event_def)
qed

lemma execute_runs:
  assumes "server_reach env sv" and "worker_possible sv k (\<lambda>pc. \<exists>t. pc = Executing t)"
  shows "server_next env now (Sv_worker_execute k) sv \<noteq> None"
proof -
  obtain t where k: "k < length (tp_workers (sv_pool sv))" "wk_pc (tp_workers (sv_pool sv) ! k) = Executing t"
    using assms(2) by (auto simp: worker_possible_def)
  have addressed: "addressed env sv" using protocol.holds [OF assms(1)] by (simp add: protocol_def)
  then have "t \<in># pool_tasks (sv_pool sv)" using pool_tasks_execute(1) [OF k] by (simp add: addressed_def)
  then obtain req i where "t = compute_task (se_beast env) (se_json env) req i"
    using addressed by (auto simp: addressed_def)
  then obtain msg d where "HttpTask_execute (se_beast env) t = Inr (msg, d)"
    using HttpTask_execute_compute by blast
  then show ?thesis using k by (simp add: worker_execute_def Let_def)
qed

text \<open>
  C5. Nothing that a client sends, and no interleaving of the threads, brings the server down: in
  every reachable state, the handler of every completion that is possible there runs to its end: no
  exception leaves it, so none reaches \<open>std::terminate\<close>, and nothing is divided by zero. This holds
  for every configuration with a sample rate other than 0.
\<close>

theorem HttpServer_never_crashes:
  assumes "server_reach env sv" and "json_laws (se_json env)" and "cf_sample_rate (se_config env) \<noteq> 0"
    and "possible (se_config env) ev sv"
  shows "\<exists>sv'. server_next env now ev sv = Some sv'"
proof (cases ev)
  case (Sv_read i result fs)
  then show ?thesis using read_runs [OF assms(2,3,1)] assms(4) by simp
next
  case (Sv_worker_execute k)
  then show ?thesis using execute_runs [OF assms(1)] assms(4) by simp
next
  case (Sv_worker_pop k)
  then show ?thesis
    using assms(4) by (auto simp: worker_possible_def worker_pop_def TaskQueue_pop_cases)
next
  case Sv_log_round
  then show ?thesis
    using assms(4) by (auto simp: LogConsumer_round_def MessageQueue_pop_def split: list.splits)
qed (use assms(4) in \<open>simp_all add: conn_possible_def conn_event_def io_event_def\<close>)

definition status_request :: "(string \<times> string) list request" where
  "status_request = \<lparr>rq_method = Verb_get, rq_target = ''/status'', rq_fields = [], rq_body = []\<rparr>"

lemma reading_trace:
  "map_option (\<lambda>sv. (sv_stopped sv, map (\<lambda>c. cn_reading c \<noteq> None) (sv_conns sv)))
    (example_run example_config [Sv_accept Accept_done, Sv_insert, Sv_start 0]) = Some (False, [True])"
  by code_simp

lemma HttpServer_never_crashes_witness:
  "\<exists>sv sv'. example_run example_config [Sv_accept Accept_done, Sv_insert, Sv_start 0] = Some sv \<and>
     server_next (example_server_env example_config) 0 (Sv_read 0 (Read_request status_request) (still example_fs)) sv = Some sv'"
proof -
  let ?env = "example_server_env example_config" and ?ev = "Sv_read 0 (Read_request status_request) (still example_fs)"
  obtain sv where run: "example_run example_config [Sv_accept Accept_done, Sv_insert, Sv_start 0] = Some sv"
    and sv: "\<not> sv_stopped sv" "map (\<lambda>c. cn_reading c \<noteq> None) (sv_conns sv) = [True]"
    using reading_trace by auto
  have "possible (se_config ?env) ?ev sv" using sv by (auto simp: conn_possible_def map_eq_Cons_conv)
  moreover have "json_laws (se_json ?env)" by (simp add: example_server_env_def example_json_laws)
  moreover have "cf_sample_rate (se_config ?env) \<noteq> 0"
    by (simp add: example_server_env_def example_config_def Config_default_def)
  ultimately show ?thesis
    using HttpServer_never_crashes [OF example_run_reach [OF run]] run by blast
qed

end
