(* ===== verification/Server_Serving.thy ===== *)
theory Server_Serving
  imports Server_Progress
begin

text \<open>
  A request that is with the pool gets its response: the workers and the I/O context bring it to the
  socket, in a number of steps that the tasks in the pool bound, without any help from outside.
\<close>

section \<open>The steps of the workers\<close>

fun serving :: "'f server_event \<Rightarrow> bool" where
  "serving (Sv_worker_pop k) = True"
| "serving (Sv_worker_execute k) = True"
| "serving (Sv_deliver k) = True"
| "serving _ = False"

text \<open>What the workers have to do: to take each task that is queued, and to execute each in the pool.\<close>

definition serve_work :: "'a thread_pool \<Rightarrow> nat" where
  "serve_work p = size (pool_tasks p) + size (tq_items (tp_queue p))"

lemma serve_work_bound: "serve_work p \<le> 2 * size (pool_tasks p)"
  by (simp add: serve_work_def pool_tasks_def del: size_tq_items)

lemma pop_leaves_less:
  assumes "staffed p" and "tq_inv (tp_queue p)" and "k < length (tp_workers p)"
    and "wk_pc (tp_workers p ! k) = Popping" and "worker_pop now k p = Some p'"
  shows "serve_work p' + 1 = serve_work p"
proof -
  have tasks: "pool_tasks p' = pool_tasks p" using pool_tasks_pop(1) [OF assms(3,4,5,2)] .
  from assms(5,2) show ?thesis
  proof (cases rule: worker_pop_cases)
    case (got x)
    then show ?thesis by (simp add: serve_work_def tasks del: size_tq_items)
  next
    case left
    then show ?thesis using assms(1) by (auto simp: staffed_def)
  qed
qed

text \<open>A step that leaves the connections as they are, moves no token and leaves less to do.\<close>

definition serves :: "'f server_env \<Rightarrow> 'f server \<Rightarrow> 'f server \<Rightarrow> bool" where
  "serves env sv sv' \<longleftrightarrow> sv_conns sv' = sv_conns sv \<and> sv_stopped sv' = sv_stopped sv \<and>
     (\<forall>i. elsewhere env sv' i = elsewhere env sv i) \<and> serve_work (sv_pool sv') < serve_work (sv_pool sv)"

lemma serves_pop:
  assumes "staffed (sv_pool sv)" and "addressed env sv" and "server_next env now (Sv_worker_pop k) sv = Some sv'"
  shows "serves env sv sv'"
proof -
  obtain p where p: "k < length (tp_workers (sv_pool sv))" "wk_pc (tp_workers (sv_pool sv) ! k) = Popping"
    "worker_pop now k (sv_pool sv) = Some p" "sv' = sv\<lparr>sv_pool := p\<rparr>"
    using assms(3) by (auto simp: at_pop_iff split: if_splits)
  have inv: "tq_inv (tp_queue (sv_pool sv))" using assms(2) by (simp add: addressed_def)
  show ?thesis
    using pool_tasks_pop(1) [OF p(1-3) inv] pop_leaves_less [OF assms(1) inv p(1-3)]
    by (simp add: serves_def p(4) elsewhere_def)
qed

lemma serves_execute:
  assumes "addressed env sv" and "server_next env now (Sv_worker_execute k) sv = Some sv'"
  shows "serves env sv sv'"
proof -
  have k: "k < length (tp_workers (sv_pool sv))" "worker_execute env now k sv = Some sv'"
    using assms(2) by (simp_all split: if_splits)
  have same: "sv_stopped sv' = sv_stopped sv" "tp_queue (sv_pool sv') = tp_queue (sv_pool sv)"
    using k(2) by (auto simp: worker_execute_def worker_executed_def Let_def
        split: worker_pc.splits sum.splits option.splits)
  from assms(1) k show ?thesis
    by (rule executed) (simp add: serves_def elsewhere_def serve_work_def same)
qed

lemma worker_round:
  assumes "server_reach env sv" and "pool_tasks (sv_pool sv) \<noteq> {#}"
  obtains ev sv' where "serving ev" and "server_next env now ev sv = Some sv'" and "serves env sv sv'"
proof -
  have inv: "staffed (sv_pool sv)" "addressed env sv"
    using staffed.holds [OF assms(1)] protocol.holds [OF assms(1)] by (simp_all add: protocol_def)
  obtain k ev sv' where ev: "ev = Sv_worker_pop k \<or> ev = Sv_worker_execute k" "server_next env now ev sv = Some sv'"
    using worker_ready [OF inv assms(2)] by blast
  then have "serving ev" "serves env sv sv'"
    using serves_pop [OF inv] serves_execute [OF inv(2)] by auto
  then show thesis using that ev(2) by blast
qed

section \<open>The delivery\<close>

lemma delivered:
  assumes "k < length (sv_posted sv)" and "dl_session (sv_posted sv ! k) = i" and "i < length (sv_conns sv)"
    and "\<not> ss_closed (cn_session (sv_conns sv ! i))" and "\<not> sv_stopped sv"
  obtains sv' where "server_next env now (Sv_deliver k) sv = Some sv'"
    and "cn_writing (sv_conns sv' ! i) = Some (fst (HttpServer_sendResponse env (sv_posted sv ! k)))"
proof -
  have "cn_writing (sv_conns (deliver env now (sv_posted sv ! k)
      (sv\<lparr>sv_posted := take k (sv_posted sv) @ drop (Suc k) (sv_posted sv)\<rparr>)) ! i) =
    Some (fst (HttpServer_sendResponse env (sv_posted sv ! k)))"
    using assms(2-4) by (simp add: deliver_run_handler run_handler_def Session_sendResponse_def)
  then show thesis using that assms(1,5) by (simp add: io_event_def)
qed

lemma posted_at:
  assumes "filter (\<lambda>d. dl_session d = i) ds \<noteq> []"
  obtains k where "k < length ds" and "dl_session (ds ! k) = i"
  using assms by (auto simp: filter_empty_conv in_set_conv_nth)

section \<open>From the pool to the socket\<close>

lemma brought_to_socket:
  assumes "server_reach env sv" and "\<not> sv_stopped sv" and "i < length (sv_conns sv)"
    and "\<not> ss_closed (cn_session (sv_conns sv ! i))" and "0 < elsewhere env sv i"
  shows "\<exists>evs sv'. server_trace env now evs sv = Some sv' \<and> list_all serving evs \<and>
    length evs \<le> serve_work (sv_pool sv) + 1 \<and> cn_writing (sv_conns sv' ! i) \<noteq> None"
  using assms
proof (induction "serve_work (sv_pool sv)" arbitrary: sv rule: less_induct)
  case less
  show ?case
  proof (cases "filter (\<lambda>d. dl_session d = i) (sv_posted sv) = []")
    case False
    then obtain k where k: "k < length (sv_posted sv)" "dl_session (sv_posted sv ! k) = i" by (rule posted_at)
    obtain sv' where "server_next env now (Sv_deliver k) sv = Some sv'" "cn_writing (sv_conns sv' ! i) \<noteq> None"
      using delivered [OF k less.prems(3,4,2)] by (metis option.distinct(1))
    then show ?thesis by (intro exI [of _ "[Sv_deliver k]"] exI [of _ sv']) (simp add: list_all_def)
  next
    case True
    then have "pool_tasks (sv_pool sv) \<noteq> {#}" using less.prems(5) by (auto simp: elsewhere_def)
    then obtain ev sv1 where ev: "serving ev" "server_next env now ev sv = Some sv1" "serves env sv sv1"
      using worker_round [OF less.prems(1)] by blast
    have "server_reach env sv1" using server_reach.step [OF less.prems(1) ev(2)] .
    with less.hyps [of sv1] ev(3) less.prems(2-5)
    obtain evs sv' where "server_trace env now evs sv1 = Some sv'" "list_all serving evs"
      "length evs \<le> serve_work (sv_pool sv1) + 1" "cn_writing (sv_conns sv' ! i) \<noteq> None"
      by (auto simp: serves_def)
    then show ?thesis
      using ev by (intro exI [of _ "ev # evs"] exI [of _ sv']) (auto simp: serves_def)
  qed
qed

text \<open>
  C8. A request that the pool has accepted is answered: from every reachable state in which the
  session is neither reading nor writing, steps of the workers and of the I/O context alone lead to a
  response being written to its socket, and at most two for each task in the pool and one for the
  delivery are needed, whatever the priorities.
\<close>

theorem HttpServer_response_arrives:
  assumes "server_reach env sv" and "\<not> sv_stopped sv" and "i \<in> set (sv_sessions sv)"
    and "conn_ops (sv_conns sv ! i) = 0"
  shows "\<exists>evs sv'. server_trace env now evs sv = Some sv' \<and> list_all serving evs \<and>
    length evs \<le> 2 * size (pool_tasks (sv_pool sv)) + 1 \<and> cn_writing (sv_conns sv' ! i) \<noteq> None"
proof -
  have inv: "protocol env sv" "sessions_counted sv"
    using protocol.holds [OF assms(1)] sessions.holds [OF assms(1)] .
  then have i: "i < length (sv_conns sv)" "\<not> ss_ended (cn_session (sv_conns sv ! i))"
    using assms(3) by (auto simp: sessions_counted_def)
  then have "one_token env sv i" using inv(1) by (simp add: protocol_def)
  then have "0 < elsewhere env sv i" "\<not> ss_closed (cn_session (sv_conns sv ! i))"
    using i(2) assms(4) by (auto simp: one_token_def outstanding_def closed_ended_def)
  from brought_to_socket [OF assms(1,2) i(1) this(2,1), of now] show ?thesis
    using serve_work_bound [of "sv_pool sv"] by (meson add_le_mono1 order_trans)
qed

lemma HttpServer_response_arrives_witness:
  "\<exists>sv evs sv'. example_run example_config compute_events = Some sv \<and>
     server_trace (example_server_env example_config) 0 evs sv = Some sv' \<and> list_all serving evs \<and>
     cn_writing (sv_conns sv' ! 0) \<noteq> None"
proof -
  have "map_option (\<lambda>sv. (sv_sessions sv, sv_stopped sv)) (example_run example_config compute_events) = Some ([0], False)"
    by code_simp
  then obtain sv where run: "example_run example_config compute_events = Some sv"
    and sv: "sv_sessions sv = [0]" "\<not> sv_stopped sv" by auto
  have "map (\<lambda>c. (cn_start c, cn_reading c, cn_writing c = None)) (sv_conns sv) = [(False, None, True)]"
    using compute_running run by auto
  then have "conn_ops (sv_conns sv ! 0) = 0" by (auto simp: conn_ops_def map_eq_Cons_conv)
  then show ?thesis
    using HttpServer_response_arrives [OF example_run_reach [OF run] sv(2), of 0 0] run sv(1) by auto
qed

end
