(* ===== verification/Server_Life.thy ===== *)
theory Server_Life
  imports Server_Shutdown
begin

text \<open>
  The life of the server object in \<open>main\<close>: the constructor, \<open>run\<close> with its failures, the
  destructors of the server and of what it owns, and the exit code.
\<close>

section \<open>Destructors\<close>

text \<open>\<open>~WorkerThread\<close>: the time when it is through; \<^const>\<open>None\<close> if its join blocks for ever.\<close>

definition WorkerThread_destroy :: "ticks option \<Rightarrow> ticks \<Rightarrow> 'a worker \<Rightarrow> ticks option" where
  "WorkerThread_destroy done_at now w =
     (if wk_abandoned w then Some now
      else if \<not> wk_joinable w then Some now
      else map_option (max now) done_at)"

fun destroy_workers :: "ticks \<Rightarrow> ('a worker \<times> ticks option) list \<Rightarrow> ticks option" where
  "destroy_workers now [] = Some now"
| "destroy_workers now ((w, d) # ws) = Option.bind (WorkerThread_destroy d now w) (\<lambda>t. destroy_workers t ws)"

text \<open>\<open>~ThreadPool\<close>: \<open>shutdown\<close>, and then its workers.\<close>

definition ThreadPool_destroy :: "(nat \<Rightarrow> ticks option) \<Rightarrow> ticks \<Rightarrow> 'a thread_pool \<Rightarrow>
    ('a thread_pool \<times> ticks) option" where
  "ThreadPool_destroy done_at now p =
     Option.bind (ThreadPool_shutdown done_at now p) (\<lambda>(p, t).
       map_option (Pair p) (destroy_workers t (worker_times done_at p)))"

text \<open>
  \<open>~LogConsumer\<close> joins. \<open>~AsyncLogger\<close> shuts down, and then its members go; the file of a sink is
  flushed after every line, so closing it adds nothing.
\<close>

definition LogConsumer_destroy :: "async_logger \<Rightarrow> async_logger option" where
  "LogConsumer_destroy l = (if al_thread l = No_Thread \<or> al_thread l = Joined then Some l else LogConsumer_join l)"

definition AsyncLogger_destroy :: "(int \<Rightarrow> tm) \<Rightarrow> nat \<Rightarrow> async_logger \<Rightarrow> async_logger option" where
  "AsyncLogger_destroy localtime rounds l = Option.bind (AsyncLogger_shutdown localtime rounds l) LogConsumer_destroy"

text \<open>The promise of a worker that was never started is never set.\<close>

definition loop_ends :: "(nat \<Rightarrow> ticks option) \<Rightarrow> 'a thread_pool \<Rightarrow> nat \<Rightarrow> ticks option" where
  "loop_ends done_at p k = (if wk_pc (tp_workers p ! k) = Not_Started then None else done_at k)"

text \<open>\<open>~HttpServer\<close>: \<open>shutdown\<close>, and then the members, last declared first: the logger before the pool.\<close>

definition HttpServer_destroy :: "'f server_env \<Rightarrow> (nat \<Rightarrow> ticks option) \<Rightarrow> nat \<Rightarrow> ticks \<Rightarrow> 'f server \<Rightarrow>
    ('f server \<times> ticks) option" where
  "HttpServer_destroy env done_at rounds now sv =
     (let ends = loop_ends done_at (sv_pool sv) in
      Option.bind (HttpServer_shutdown env ends rounds now sv) (\<lambda>(sv, t).
      Option.bind (AsyncLogger_destroy (se_localtime env) rounds (sv_logger sv)) (\<lambda>logger.
      map_option (\<lambda>(pool, t). (sv\<lparr>sv_logger := logger, sv_pool := pool\<rparr>, t)) (ThreadPool_destroy ends t (sv_pool sv)))))"

section \<open>From the constructor to the exit code\<close>

definition HttpServer_setLogLevel :: "LogLevel \<Rightarrow> 'f server \<Rightarrow> 'f server" where
  "HttpServer_setLogLevel level sv = sv\<lparr>sv_logger := AsyncLogger_setMinLevel level (sv_logger sv)\<rparr>"

text \<open>What \<open>setup\<close> has done when a route throws: the log has started, the pool has not.\<close>

definition HttpServer_setup_begun :: "ticks \<Rightarrow> 'f server_env \<Rightarrow> 'f server \<Rightarrow> 'f server option" where
  "HttpServer_setup_begun now env sv =
     (let cfg = se_config env in
      map_option (\<lambda>logger. server_log now (''Server starting... Compute: '' @ nat_to_string (unat (cf_threads cfg)) @
          '' threads, I/O: '' @ nat_to_string (unat (cf_io_threads cfg)) @ '' threads'') INFO (sv\<lparr>sv_logger := logger\<rparr>))
        (LogConsumer_start (sv_logger sv)))"

lemma setup_begun:
  "HttpServer_setup now env fs sv =
     (case HttpServer_setup_begun now env sv of None \<Rightarrow> None
      | Some sv' \<Rightarrow> (case HttpServer_regs (se_config env) fs of
            Inl e \<Rightarrow> Some (Inl e)
          | Inr regs \<Rightarrow> map_option (\<lambda>pool. Inr (sv'\<lparr>sv_routes := build_routes (se_beast env) regs,
                sv_pool := pool, sv_signalWait := True\<rparr>)) (ThreadPool_start (sv_pool sv'))))"
  by (auto simp: HttpServer_setup_def HttpServer_setup_begun_def Let_def split: option.splits sum.splits)

fun server_timed :: "'f server_env \<Rightarrow> (ticks \<times> 'f server_event) list \<Rightarrow> 'f server \<Rightarrow> 'f server option" where
  "server_timed env [] sv = Some sv"
| "server_timed env ((now, ev) # evs) sv = Option.bind (server_next env now ev sv) (server_timed env evs)"

lemma server_timed_reach: "server_reach env sv \<Longrightarrow> server_timed env evs sv = Some sv' \<Longrightarrow> server_reach env sv'"
proof (induction evs arbitrary: sv)
  case (Cons x evs)
  obtain now ev where "x = (now, ev)" by (cases x)
  then obtain sv1 where "server_next env now ev sv = Some sv1" "server_timed env evs sv1 = Some sv'"
    using Cons.prems(2) by (auto simp: Option.bind_eq_Some_conv)
  then show ?case using Cons.IH server_reach.step [OF Cons.prems(1)] by blast
qed simp

text \<open>
  \<open>run\<close>: the exception that leaves it, if any, the server and the time. The handlers that run inside
  \<open>m_ioc.run()\<close> are the events \<open>evs\<close>; it returns, at the time \<open>over\<close>, once the context is stopped.
\<close>

definition HttpServer_run :: "'f server_env \<Rightarrow> (nat \<Rightarrow> ticks option) \<Rightarrow> nat \<Rightarrow> ticks \<Rightarrow> filesystem \<Rightarrow>
    (ticks \<times> 'f server_event) list \<Rightarrow> ticks \<Rightarrow> 'f server \<Rightarrow> (std_exn option \<times> 'f server \<times> ticks) option" where
  "HttpServer_run env done_at rounds now fs evs over sv =
     (case HttpServer_setup now env fs sv of
        None \<Rightarrow> None
      | Some (Inl e) \<Rightarrow> map_option (\<lambda>sv. (Some e, sv, now)) (HttpServer_setup_begun now env sv)
      | Some (Inr sv) \<Rightarrow> (case startAcceptorLoop now env sv of
            Inl e \<Rightarrow> Some (Some e, sv, now)
          | Inr sv \<Rightarrow> Option.bind (server_timed env evs sv) (\<lambda>sv.
              if \<not> sv_stopped sv then None
              else map_option (\<lambda>(sv, t). (None, sv, t))
                (HttpServer_shutdown env (loop_ends done_at (sv_pool sv)) rounds over sv))))"

text \<open>What \<open>main\<close> does with a configuration: the exit code, the server when it has gone, and the time.\<close>

definition server_main :: "'f server_env \<Rightarrow> (nat \<Rightarrow> ticks option) \<Rightarrow> nat \<Rightarrow> ticks \<Rightarrow> filesystem \<Rightarrow>
    (ticks \<times> 'f server_event) list \<Rightarrow> ticks \<Rightarrow> (nat \<times> 'f server option \<times> ticks) option" where
  "server_main env done_at rounds now fs evs over =
     (case HttpServer_new env of
        Inl e \<Rightarrow> Some (1, None, now)
      | Inr sv \<Rightarrow>
          Option.bind (HttpServer_run env done_at rounds now fs evs over
              (HttpServer_setLogLevel (cf_log_level (se_config env)) sv)) (\<lambda>(e, sv, t).
          map_option (\<lambda>(sv, t). (if e = None then 0 else 1, Some sv, t)) (HttpServer_destroy env done_at rounds t sv)))"

section \<open>What the destructors find\<close>

text \<open>After a shutdown there is nothing left to wait for.\<close>

definition at_rest :: "'f server \<Rightarrow> bool" where
  "at_rest sv \<longleftrightarrow> (\<forall>w \<in> set (tp_workers (sv_pool sv)). \<not> wk_joinable w) \<and>
     al_thread (sv_logger sv) = Joined \<and> mq_queue (al_queue (sv_logger sv)) = []"

lemma destroy_detached: "\<forall>(w, d) \<in> set ws. \<not> wk_joinable w \<Longrightarrow> destroy_workers now ws = Some now"
  by (induction ws) (auto simp: WorkerThread_destroy_def)

lemma pool_destroyed:
  assumes "\<forall>w \<in> set (tp_workers p). \<not> wk_joinable w"
  shows "ThreadPool_destroy done_at now p = Some (p\<lparr>tp_queue := TaskQueue_shutdown (tp_queue p)\<rparr>, now)"
proof -
  have times: "\<forall>(w, d) \<in> set (worker_times done_at p'). \<not> wk_joinable w" if "tp_workers p' = tp_workers p" for p' :: "'a thread_pool"
    using assms that by (auto simp: worker_times_def dest: set_zip_leftD)
  have "map fst (worker_times done_at p) = tp_workers p" by (simp add: worker_times_def)
  then have "ThreadPool_shutdown done_at now p = Some (p\<lparr>tp_queue := TaskQueue_shutdown (tp_queue p)\<rparr>, now)"
    using join_all_detached [OF times [OF refl]] by (simp add: ThreadPool_shutdown_def flip: worker_times_def)
  then show ?thesis using destroy_detached [OF times] by (simp add: ThreadPool_destroy_def)
qed

lemma logger_destroyed:
  assumes "al_thread l = Joined"
  shows "AsyncLogger_destroy lt rounds l = Some (AsyncLogger_close l)"
proof -
  have "LogConsumer_rounds lt rounds (AsyncLogger_close l) = AsyncLogger_close l"
    using assms by (cases rounds) (simp_all add: AsyncLogger_close_def)
  then show ?thesis
    using assms by (simp add: AsyncLogger_destroy_def AsyncLogger_shutdown_def LogConsumer_join_def LogConsumer_destroy_def
        AsyncLogger_close_def)
qed

lemma server_destroyed:
  assumes "HttpServer_shutdown env (loop_ends done_at (sv_pool sv)) rounds now sv = Some (sv', t)" and "at_rest sv'"
  obtains sv'' where "HttpServer_destroy env done_at rounds now sv = Some (sv'', t)" "at_rest sv''"
    "tp_workers (sv_pool sv'') = tp_workers (sv_pool sv')"
    "al_sink (sv_logger sv'') = al_sink (sv_logger sv')"
proof -
  let ?sv = "sv'\<lparr>sv_logger := AsyncLogger_close (sv_logger sv'), sv_pool := (sv_pool sv')
      \<lparr>tp_queue := TaskQueue_shutdown (tp_queue (sv_pool sv'))\<rparr>\<rparr>"
  have "HttpServer_destroy env done_at rounds now sv = Some (?sv, t)"
    using assms pool_destroyed [of "sv_pool sv'"] logger_destroyed [of "sv_logger sv'"]
    by (simp add: HttpServer_destroy_def Let_def at_rest_def)
  then show thesis
    by (rule that) (use assms(2) in \<open>simp_all add: at_rest_def AsyncLogger_close_def MessageQueue_shutdown_def\<close>)
qed

lemma server_shut_and_destroyed:
  assumes "al_thread (sv_logger sv) = Running" and "\<not> sv_shutdownDone sv"
    and "sv_ioThreads sv = 0 \<or> sv_stopped sv \<and> sv_accepting sv = 0 \<and> sv_checks sv = 0"
    and "ThreadPool_shutdownWithTimeout (loop_ends done_at (sv_pool sv))
      (1000 * sint (cf_drain_timeout_sec (se_config env))) now (sv_pool sv) = Some (n, pool, t)"
    and "length (mq_queue (al_queue (sv_logger sv))) + 4 < rounds"
    and "\<forall>w \<in> set (tp_workers pool). \<not> wk_joinable w"
  obtains sv' where "HttpServer_destroy env done_at rounds now sv = Some (sv', t)" "at_rest sv'"
    "tp_workers (sv_pool sv') = tp_workers pool"
proof -
  obtain sv1 where sv1: "HttpServer_shutdown env (loop_ends done_at (sv_pool sv)) rounds now sv = Some (sv1, t)"
    "sv_pool sv1 = pool" "al_thread (sv_logger sv1) = Joined" "mq_queue (al_queue (sv_logger sv1)) = []"
    by (rule shutdown_after_drain [OF assms(1-5)])
  then have "at_rest sv1" using assms(6) by (simp add: at_rest_def)
  then show thesis using server_destroyed [OF sv1(1)] that sv1(2) by metis
qed

section \<open>Workers that were never started\<close>

lemma joinWithTimeout_never:
  "0 \<le> T \<Longrightarrow> \<not> wk_abandoned w \<Longrightarrow> WorkerThread_joinWithTimeout None T now w = (False, w, now + 1000000 * T)"
  by (simp add: WorkerThread_joinWithTimeout_def future_wait_for_def Let_def)

lemma time_left_whole: "0 \<le> T \<Longrightarrow> time_left (now + 1000000 * T) now = T"
  by (simp add: time_left_def duration_cast_ms_def Let_def)

lemma first_pass_never:
  assumes "\<forall>(w, d) \<in> set ws. \<not> wk_abandoned w \<and> d = None" and "0 \<le> T" and "ws \<noteq> [] \<or> T = 0"
  shows "first_pass (now + 1000000 * T) now ws = (map (\<lambda>(w, d). (w, d, True)) ws, now + 1000000 * T)"
  using assms
proof (induction ws arbitrary: now T)
  case (Cons x ws)
  then have "first_pass (now + 1000000 * T) (now + 1000000 * T) ws =
      (map (\<lambda>(w, d). (w, d, True)) ws, now + 1000000 * T)"
    using Cons.IH [of 0 "now + 1000000 * T"] by simp
  then show ?case using Cons.prems by (cases x) (simp add: time_left_whole joinWithTimeout_never)
qed simp

lemma second_pass_never:
  assumes "\<forall>(w, d) \<in> set ws. \<not> wk_abandoned w \<and> d = None" and "0 \<le> T" and "ws \<noteq> [] \<or> T = 0"
  shows "second_pass (now + 1000000 * T) now (map (\<lambda>(w, d). (w, d, True)) ws) =
    (length ws, map (WorkerThread_abandon \<circ> fst) ws, now + 1000000 * T)"
  using assms
proof (induction ws arbitrary: now T)
  case (Cons x ws)
  then have "second_pass (now + 1000000 * T) (now + 1000000 * T) (map (\<lambda>(w, d). (w, d, True)) ws) =
      (length ws, map (WorkerThread_abandon \<circ> fst) ws, now + 1000000 * T)"
    using Cons.IH [of 0 "now + 1000000 * T"] by simp
  then show ?case using Cons.prems by (cases x) (simp add: time_left_whole joinWithTimeout_never)
qed simp

lemma drain_never_started:
  assumes "tp_workers p \<noteq> []" and "\<forall>w \<in> set (tp_workers p). \<not> wk_abandoned w"
    and "\<forall>k < length (tp_workers p). done_at k = None" and "0 < T"
  shows "ThreadPool_shutdownWithTimeout done_at T now p =
    Some (length (tp_workers p), \<lparr>tp_queue = TaskQueue_abort (TaskQueue_shutdown (tp_queue p)),
      tp_workers = map WorkerThread_abandon (tp_workers p)\<rparr>, now + 1000000 * (T + 500))"
proof -
  have times: "\<forall>(w, d) \<in> set (worker_times done_at p). \<not> wk_abandoned w \<and> d = None"
    using assms(2,3) by (auto simp: worker_times_def set_zip)
  have "worker_times done_at p \<noteq> []" using assms(1) by (simp add: worker_times_def)
  moreover from this have "list_ex (\<lambda>(w, d, pending). pending) (map (\<lambda>(w, d). (w, d, True)) (worker_times done_at p))"
    by (cases "worker_times done_at p") auto
  moreover have "map (WorkerThread_abandon \<circ> fst) (worker_times done_at p) = map WorkerThread_abandon (tp_workers p)"
    by (simp add: worker_times_def flip: map_map)
  ultimately show ?thesis
    using first_pass_never [OF times, of T now] second_pass_never [OF times, of 500 "now + 1000000 * T"] assms(4)
      worker_times_nth(1) [of done_at p]
    by (simp add: ThreadPool_shutdownWithTimeout_def Let_def kAbortGrace_def algebra_simps flip: worker_times_def)
qed

section \<open>The program ends\<close>

lemma new_server:
  assumes "HttpServer_new env = Inr sv"
  shows "HttpServer_setLogLevel (cf_log_level (se_config env)) sv = sv" and "sv_ioThreads sv = 0"
    and "mq_queue (al_queue (sv_logger sv)) = []"
  using assms
  by (auto simp: HttpServer_new_def Let_def map_sum_def AsyncLogger_new_def AsyncLogger_setMinLevel_def
      HttpServer_setLogLevel_def split: sum.splits)

lemma main_exits:
  assumes "HttpServer_start now env fs = Some (Inr sv)" and "server_timed env evs sv = Some sv1"
    and "sv_stopped sv1" and "sv_accepting sv1 = 0" and "sv_checks sv1 = 0"
    and "0 < sint (cf_drain_timeout_sec (se_config env))"
    and "length (mq_queue (al_queue (sv_logger sv1))) + 4 < rounds"
  shows "\<exists>sv' t. server_main env done_at rounds now fs evs over = Some (0, Some sv', t) \<and> over \<le> t \<and>
    t \<le> over + 1000000 * (1000 * sint (cf_drain_timeout_sec (se_config env)) + 500) \<and> at_rest sv' \<and>
    log_complete (se_localtime env) over t (sv_logger sv1) sv'"
proof -
  obtain sv0 sv2 where new: "HttpServer_new env = Inr sv0" and ready: "HttpServer_setup now env fs sv0 = Some (Inr sv2)"
    and loop: "startAcceptorLoop now env sv2 = Inr sv"
    using assms(1) by (auto simp: HttpServer_start_def split: sum.splits option.splits)
  have run: "running env sv1"
    using server_timed_reach [OF server_reach.init [OF assms(1)] assms(2)] by (rule running.holds)
  then have fields: "al_thread (sv_logger sv1) = Running" "\<not> sv_shutdownDone sv1" "abandoned_detached (sv_pool sv1)"
    by (simp_all add: running_def kept_def no_abandoned_def abandoned_detached_def)
  let ?T = "1000 * sint (cf_drain_timeout_sec (se_config env))"
  let ?ends = "loop_ends done_at (sv_pool sv1)"
  obtain n pool t where drain: "ThreadPool_shutdownWithTimeout ?ends ?T over (sv_pool sv1) = Some (n, pool, t)"
    and pool: "over \<le> t" "t \<le> over + 1000000 * (?T + 500)" "\<forall>w \<in> set (tp_workers pool). \<not> wk_joinable w"
      "abandoned_count (tp_workers pool) = n + abandoned_count (tp_workers (sv_pool sv1))"
    using shutdownWithTimeout_ends [OF _ fields(3)] assms(6) by (metis mult_pos_pos zero_less_numeral)
  have count: "n = abandoned_count (tp_workers pool)" using pool(4) none_abandoned [OF run] by simp
  have through: "sv_ioThreads sv1 = 0 \<or> sv_stopped sv1 \<and> sv_accepting sv1 = 0 \<and> sv_checks sv1 = 0"
    using assms(3-5) by simp
  obtain sv3 where sv3: "HttpServer_shutdown env ?ends rounds over sv1 = Some (sv3, t)" "sv_pool sv3 = pool"
    "sv_shutdownDone sv3" "al_thread (sv_logger sv3) = Joined" "mq_queue (al_queue (sv_logger sv3)) = []"
    "sink_text (al_sink (sv_logger sv3)) = log_text (se_localtime env) (sv_logger sv1) @
      concat (map (LogSink_line (se_localtime env)) (shutdown_lines over t n (sv_logger sv1)))"
    by (rule shutdown_after_drain [OF fields(1,2) through drain assms(7)])
  then have log: "log_complete (se_localtime env) over t (sv_logger sv1) sv3" by (simp add: log_complete_def count)
  from sv3 have "HttpServer_shutdown env (loop_ends done_at (sv_pool sv3)) rounds t sv3 = Some (sv3, t)" "at_rest sv3"
    using pool(3) by (simp_all add: HttpServer_shutdown_def at_rest_def)
  then obtain sv' where sv': "HttpServer_destroy env done_at rounds t sv3 = Some (sv', t)" "at_rest sv'"
    "tp_workers (sv_pool sv') = tp_workers (sv_pool sv3)" "al_sink (sv_logger sv') = al_sink (sv_logger sv3)"
    by (rule server_destroyed)
  then have "server_main env done_at rounds now fs evs over = Some (0, Some sv', t)"
    using new ready loop assms(2,3) sv3(1) by (simp add: server_main_def HttpServer_run_def new_server(1) [OF new])
  moreover have "log_complete (se_localtime env) over t (sv_logger sv1) sv'"
    using log sv'(3,4) by (simp add: log_complete_def)
  ultimately show ?thesis using pool(1,2) sv'(2) by blast
qed

text \<open>
  C19. The program ends well: with a positive \<open>drain_timeout_sec\<close>, once the I/O context has stopped and
  the handlers that were running are through, \<open>main\<close> returns 0, within the drain timeout and half a
  second; no thread is left to wait for, and the sink has a line for every message that had been
  written or was queued then and for those of the shutdown, in order. The destructors wait for
  nothing after \<open>run\<close> has shut down, even if a task is stuck for ever. (With a timeout that is
  not positive such a task would block \<open>main\<close> for ever.)
\<close>

theorem server_main_returns:
  assumes "HttpServer_start now env fs = Some (Inr sv)" and "server_timed env evs sv = Some sv1"
    and "sv_stopped sv1" and "sv_accepting sv1 = 0" and "sv_checks sv1 = 0"
    and "0 < sint (cf_drain_timeout_sec (se_config env))"
    and "length (mq_queue (al_queue (sv_logger sv1))) + 4 < rounds"
  shows "\<exists>sv' t. server_main env done_at rounds now fs evs over = Some (0, Some sv', t) \<and> over \<le> t \<and>
    t \<le> over + 1000000 * (1000 * sint (cf_drain_timeout_sec (se_config env)) + 500) \<and> at_rest sv' \<and>
    log_complete (se_localtime env) over t (sv_logger sv1) sv'"
  using main_exits [OF assms] .

text \<open>The two ways in which \<open>run\<close> throws, with the server that is left.\<close>

lemma begun_fields:
  assumes "HttpServer_new env = Inr sv0" and "HttpServer_setup_begun now env sv0 = Some sv"
  shows "al_thread (sv_logger sv) = Running" "\<not> sv_shutdownDone sv" "sv_ioThreads sv = 0"
    "length (mq_queue (al_queue (sv_logger sv))) \<le> 1"
    "sv_pool sv = ThreadPool_new (cf_threads (se_config env)) (cf_max_queue_size (se_config env))"
  using assms(2) new_fields [OF assms(1)] new_server [OF assms(1)]
  by (auto simp: HttpServer_setup_begun_def Let_def LogConsumer_start_def server_log_def AsyncLogger_log_def
      MessageQueue_push_def split: if_splits)

lemma destroyed_unstarted:
  assumes "HttpServer_new env = Inr sv0" and "HttpServer_setup_begun now env sv0 = Some sv"
    and "0 < sint (cf_drain_timeout_sec (se_config env))" and "5 < rounds"
  obtains sv' where "HttpServer_destroy env done_at rounds now sv =
      Some (sv', now + 1000000 * (1000 * sint (cf_drain_timeout_sec (se_config env)) + 500))" "at_rest sv'"
    "\<forall>w \<in> set (tp_workers (sv_pool sv')). wk_pc w = Not_Started \<and> wk_abandoned w"
proof -
  note fields = begun_fields [OF assms(1,2)]
  have workers: "tp_workers (sv_pool sv) = replicate (unat (if cf_threads (se_config env) = 0 then 1
      else cf_threads (se_config env))) WorkerThread_new"
    by (simp add: fields(5) ThreadPool_new_def)
  have "tp_workers (sv_pool sv) \<noteq> []" by (simp add: workers unat_eq_0)
  moreover have "\<forall>w \<in> set (tp_workers (sv_pool sv)). \<not> wk_abandoned w" by (simp add: workers WorkerThread_new_def)
  moreover have "\<forall>k < length (tp_workers (sv_pool sv)). loop_ends done_at (sv_pool sv) k = None"
    by (simp add: loop_ends_def workers WorkerThread_new_def)
  moreover have "0 < 1000 * sint (cf_drain_timeout_sec (se_config env))" using assms(3) by simp
  ultimately have drain: "ThreadPool_shutdownWithTimeout (loop_ends done_at (sv_pool sv))
      (1000 * sint (cf_drain_timeout_sec (se_config env))) now (sv_pool sv) =
      Some (length (tp_workers (sv_pool sv)), \<lparr>tp_queue = TaskQueue_abort (TaskQueue_shutdown (tp_queue (sv_pool sv))),
        tp_workers = map WorkerThread_abandon (tp_workers (sv_pool sv))\<rparr>,
        now + 1000000 * (1000 * sint (cf_drain_timeout_sec (se_config env)) + 500))"
    by (rule drain_never_started)
  have "sv_ioThreads sv = 0 \<or> sv_stopped sv \<and> sv_accepting sv = 0 \<and> sv_checks sv = 0"
    using fields(3) by simp
  moreover have "length (mq_queue (al_queue (sv_logger sv))) + 4 < rounds" using fields(4) assms(4) by simp
  ultimately obtain sv' where "HttpServer_destroy env done_at rounds now sv =
      Some (sv', now + 1000000 * (1000 * sint (cf_drain_timeout_sec (se_config env)) + 500))" "at_rest sv'"
    "tp_workers (sv_pool sv') = map WorkerThread_abandon (tp_workers (sv_pool sv))"
    using server_shut_and_destroyed [OF fields(1,2) _ drain] by (auto simp: WorkerThread_abandon_def)
  moreover from this(3) have "\<forall>w \<in> set (tp_workers (sv_pool sv')). wk_pc w = Not_Started \<and> wk_abandoned w"
    by (auto simp: workers WorkerThread_abandon_def WorkerThread_new_def)
  ultimately show thesis by (intro that)
qed

lemma destroyed_unbound:
  assumes "HttpServer_new env = Inr sv0" and "HttpServer_setup now env fs sv0 = Some (Inr sv)"
    and "0 < sint (cf_drain_timeout_sec (se_config env))" and "5 < rounds"
  obtains sv' t where "HttpServer_destroy env done_at rounds now sv = Some (sv', t)" "at_rest sv'" "now \<le> t"
    "t \<le> now + 1000000 * (1000 * sint (cf_drain_timeout_sec (se_config env)) + 500)"
proof -
  obtain sv1 regs pool where begun: "HttpServer_setup_begun now env sv0 = Some sv1"
    and started: "ThreadPool_start (sv_pool sv1) = Some pool"
    and sv: "sv = sv1\<lparr>sv_routes := build_routes (se_beast env) regs, sv_pool := pool, sv_signalWait := True\<rparr>"
    using assms(2) by (auto simp: setup_begun split: option.splits sum.splits)
  note fields = begun_fields [OF assms(1) begun]
  have "no_abandoned pool" by (rule no_abandoned_start [OF started [unfolded fields(5)]])
  then have "abandoned_detached (sv_pool sv)" by (simp add: sv abandoned_detached_def no_abandoned_def)
  then obtain n p t where drain: "ThreadPool_shutdownWithTimeout (loop_ends done_at (sv_pool sv))
      (1000 * sint (cf_drain_timeout_sec (se_config env))) now (sv_pool sv) = Some (n, p, t)"
    and t: "now \<le> t" "t \<le> now + 1000000 * (1000 * sint (cf_drain_timeout_sec (se_config env)) + 500)"
    and joined: "\<forall>w \<in> set (tp_workers p). \<not> wk_joinable w"
    using shutdownWithTimeout_ends assms(3) by (metis mult_pos_pos zero_less_numeral)
  have "al_thread (sv_logger sv) = Running" "\<not> sv_shutdownDone sv"
    "sv_ioThreads sv = 0 \<or> sv_stopped sv \<and> sv_accepting sv = 0 \<and> sv_checks sv = 0"
    "length (mq_queue (al_queue (sv_logger sv))) + 4 < rounds"
    using fields assms(4) by (simp_all add: sv)
  then show thesis using server_shut_and_destroyed [OF _ _ _ drain _ joined] that t by metis
qed

text \<open>
  C21. A start that fails ends the program with 1, in bounded time and with its log written: the log
  file cannot be opened, the static root cannot be resolved, or the address cannot be bound. But when
  the static root is at fault the pool has not been started, and the destructor waits the whole drain
  timeout and the grace for workers that never ran, and then counts all of them as abandoned.
\<close>

theorem server_main_failed_start:
  assumes "HttpServer_start now env fs = Some (Inl e)" and "0 < sint (cf_drain_timeout_sec (se_config env))"
    and "5 < rounds"
  shows "\<exists>sv t. server_main env done_at rounds now fs evs over = Some (1, sv, t) \<and> now \<le> t \<and>
    t \<le> now + 1000000 * (1000 * sint (cf_drain_timeout_sec (se_config env)) + 500) \<and>
    (\<forall>s. sv = Some s \<longrightarrow> at_rest s \<and> (\<not> isl (HttpServer_regs (se_config env) fs) \<or>
       t = now + 1000000 * (1000 * sint (cf_drain_timeout_sec (se_config env)) + 500) \<and>
       (\<forall>w \<in> set (tp_workers (sv_pool s)). wk_pc w = Not_Started \<and> wk_abandoned w)))"
proof -
  consider (no_file) "HttpServer_new env = Inl e"
    | (no_route) sv0 where "HttpServer_new env = Inr sv0" "HttpServer_setup now env fs sv0 = Some (Inl e)"
    | (no_address) sv0 sv where "HttpServer_new env = Inr sv0" "HttpServer_setup now env fs sv0 = Some (Inr sv)"
        "startAcceptorLoop now env sv = Inl e"
    using assms(1) by (auto simp: HttpServer_start_def split: sum.splits option.splits)
  then show ?thesis
  proof cases
    case no_file
    then show ?thesis using assms(2) by (simp add: server_main_def)
  next
    case no_route
    obtain sv where begun: "HttpServer_setup_begun now env sv0 = Some sv" and regs: "isl (HttpServer_regs (se_config env) fs)"
      using no_route(2) by (auto simp: setup_begun split: option.splits sum.splits)
    obtain sv' where "HttpServer_destroy env done_at rounds now sv =
        Some (sv', now + 1000000 * (1000 * sint (cf_drain_timeout_sec (se_config env)) + 500))" "at_rest sv'"
      "\<forall>w \<in> set (tp_workers (sv_pool sv')). wk_pc w = Not_Started \<and> wk_abandoned w"
      by (rule destroyed_unstarted [OF no_route(1) begun assms(2,3)])
    then show ?thesis
      using no_route begun assms(2) by (simp add: server_main_def HttpServer_run_def new_server(1))
  next
    case no_address
    have regs: "\<not> isl (HttpServer_regs (se_config env) fs)"
      using no_address(2) by (auto simp: setup_begun split: option.splits sum.splits)
    obtain sv' t where "HttpServer_destroy env done_at rounds now sv = Some (sv', t)" "at_rest sv'" "now \<le> t"
      "t \<le> now + 1000000 * (1000 * sint (cf_drain_timeout_sec (se_config env)) + 500)"
      by (rule destroyed_unbound [OF no_address(1,2) assms(2,3)])
    then show ?thesis
      using no_address regs by (simp add: server_main_def HttpServer_run_def new_server(1))
  qed
qed

section \<open>Runs that end\<close>

definition drained_events :: "(ticks \<times> (string \<times> string) list server_event) list" where
  "drained_events = map (Pair 7) drain_events"

definition started_example :: "(string \<times> string) list server result option" where
  "started_example = HttpServer_start 0 (example_server_env example_config) example_fs"

lemma drained_example:
  "(case started_example of
      Some (Inr sv) \<Rightarrow> map_option (\<lambda>sv. (sv_stopped sv, sv_accepting sv, sv_checks sv, mq_queue (al_queue (sv_logger sv))))
        (server_timed (example_server_env example_config) drained_events sv)
    | _ \<Rightarrow> None) = Some (True, 0, 0, [])"
  by code_simp

lemma example_timeout: "sint (cf_drain_timeout_sec (se_config (example_server_env example_config))) = 5"
  by (simp add: example_server_env_def example_config_def Config_default_def)

lemma server_main_returns_witness:
  "\<exists>sv t. server_main (example_server_env example_config) (\<lambda>_. None) 5 0 example_fs drained_events 8 = Some (0, Some sv, t) \<and>
    t \<le> 5500000008 \<and> at_rest sv"
proof -
  obtain sv sv1 where start: "HttpServer_start 0 (example_server_env example_config) example_fs = Some (Inr sv)"
    and run: "server_timed (example_server_env example_config) drained_events sv = Some sv1"
    and sv1: "sv_stopped sv1" "sv_accepting sv1 = 0" "sv_checks sv1 = 0" "mq_queue (al_queue (sv_logger sv1)) = []"
    using drained_example unfolding started_example_def by (auto split: option.splits sum.splits)
  have "length (mq_queue (al_queue (sv_logger sv1))) + 4 < 5" using sv1(4) by simp
  then show ?thesis
    using server_main_returns [OF start run sv1(1-3), of 5 "\<lambda>_. None" 8] by (auto simp: example_timeout)
qed

text \<open>A static root that is a link to itself.\<close>

definition looping_fs :: filesystem where
  "looping_fs = \<lparr>fs_node_at = map_of [([], Dir), ([''www''], Symlink False [''www''])], fs_cwd = [],
     fs_irregular = (\<lambda>d. None)\<rparr>"

lemma looping_start:
  "map_option isl (HttpServer_start 0 (example_server_env example_config) looping_fs) = Some True"
  "isl (HttpServer_regs (se_config (example_server_env example_config)) looping_fs)"
  "case HttpServer_new (example_server_env example_config) of Inl e \<Rightarrow> False | Inr sv \<Rightarrow> True"
  by code_simp+

lemma server_main_failed_start_witness:
  "\<exists>sv. server_main (example_server_env example_config) (\<lambda>_. Some 0) 6 0 looping_fs [] 0 = Some (1, Some sv, 5500000000) \<and>
    (\<forall>w \<in> set (tp_workers (sv_pool sv)). wk_abandoned w)"
proof -
  obtain e where start: "HttpServer_start 0 (example_server_env example_config) looping_fs = Some (Inl e)"
    using looping_start(1) by (auto simp: isl_def)
  from server_main_failed_start [OF start, of 6 "\<lambda>_. Some 0" "[]" 0, unfolded example_timeout] looping_start(2)
  obtain sv t where main: "server_main (example_server_env example_config) (\<lambda>_. Some 0) 6 0 looping_fs [] 0 = Some (1, sv, t)"
    and sv: "\<forall>s. sv = Some s \<longrightarrow> t = 5500000000 \<and> (\<forall>w \<in> set (tp_workers (sv_pool s)). wk_abandoned w)"
    by fastforce
  moreover have "sv \<noteq> None"
    using main looping_start(3) by (auto simp: server_main_def bind_eq_Some_conv split: sum.splits)
  ultimately show ?thesis by auto
qed

end
