(* ===== verification/Program.thy ===== *)
theory Program
  imports Server_Life
begin

text \<open>
  The whole program, from its arguments and the files to its exit code: \<open>main\<close> of src/main.cpp with
  the configuration it loads and the server that runs under it.
\<close>

section \<open>From the arguments to the exit code\<close>

text \<open>
  \<open>main\<close>: \<open>server_env\<close> gives the surroundings of a server with a configuration. The result has the
  configuration files, the exit code, and, if a server was made, the server when it has gone and
  the time; \<^const>\<open>None\<close> is a program that does not end.
\<close>

definition program :: "(string \<Rightarrow> string) \<Rightarrow> json_lib \<Rightarrow> uint \<Rightarrow> (config \<Rightarrow> 'f server_env) \<Rightarrow> (nat \<Rightarrow> ticks option) \<Rightarrow>
    nat \<Rightarrow> ticks \<Rightarrow> filesystem \<Rightarrow> (ticks \<times> 'f server_event) list \<Rightarrow> ticks \<Rightarrow> string list \<Rightarrow> config_env \<Rightarrow>
    (config_env \<times> nat \<times> ('f server option \<times> ticks) option) option" where
  "program to_upper J hardware_concurrency env done_at rounds now fs evs over args cenv =
     (if hasHelpFLag args then Some (cenv, 0, None)
      else let (cenv', r) = loadConfig to_upper J hardware_concurrency args cenv in
        case r of
          Inl e \<Rightarrow> Some (cenv', 1, None)
        | Inr config \<Rightarrow> map_option (\<lambda>(code, final). (cenv', code, Some final))
            (server_main (env config) done_at rounds now fs evs over))"

text \<open>The exit code and the files are those of \<^const>\<open>main\<close> around the run of the server.\<close>

lemma program_main:
  assumes "program to_upper J hc env done_at rounds now fs evs over args cenv = Some (cenv', code, final)"
    and "\<And>config. run config = None \<longleftrightarrow>
      (\<exists>sv t. server_main (env config) done_at rounds now fs evs over = Some (0, sv, t))"
  shows "fst (main to_upper J hc run args cenv) = cenv'" and "(snd (main to_upper J hc run args cenv) = 0) = (code = 0)"
proof -
  have "fst (main to_upper J hc run args cenv) = cenv' \<and> (snd (main to_upper J hc run args cenv) = 0) = (code = 0)"
  proof (cases "hasHelpFLag args")
    case True
    then show ?thesis using assms(1) by (simp add: program_def main_def)
  next
    case False
    obtain c r where load: "loadConfig to_upper J hc args cenv = (c, r)" by force
    show ?thesis
    proof (cases r)
      case (Inl e)
      then show ?thesis using assms(1) False load by (simp add: program_def main_def)
    next
      case (Inr config)
      then obtain sv t where "server_main (env config) done_at rounds now fs evs over = Some (code, sv, t)" "cenv' = c"
        using assms(1) False load by (auto simp: program_def)
      then show ?thesis
        using assms(2) [of config] False load Inr by (cases "run config") (auto simp: main_def)
    qed
  qed
  then show "fst (main to_upper J hc run args cenv) = cenv'" "(snd (main to_upper J hc run args cenv) = 0) = (code = 0)"
    by blast+
qed

section \<open>The arguments win\<close>

text \<open>
  \<open>-h\<close> and \<open>-c\<close> are looked for anywhere on the command line, also where the value of an option stands.
\<close>

definition plain_args :: "string list \<Rightarrow> bool" where
  "plain_args args \<longleftrightarrow> list_all (\<lambda>arg. arg \<notin> {''-h'', ''--help'', ''-c'', ''--config''}) args"

lemma plain_config_path: "plain_args args \<Longrightarrow> config_path args = ''config.json''"
  by (induction args rule: config_path.induct) (simp_all add: plain_args_def)

lemma plain_no_help: "plain_args args \<Longrightarrow> \<not> hasHelpFLag args"
  by (induction args) (simp_all add: plain_args_def hasHelpFLag_def)

text \<open>Arguments that mean the same from every starting point are obeyed whatever the file holds.\<close>

lemma write_default_total:
  assumes "json_laws J"
  shows "snd (write_default J (Config_default hc) path env) = None"
proof (cases "ce_writable env path")
  case True
  from fresh_start [OF assms this] obtain s where "jl_dump_pretty J (Config_toJson (Config_default hc)) = Some s"
    by metis
  then show ?thesis by (simp add: write_default_def)
qed (simp add: write_default_def)

lemma loadConfig_obeys:
  assumes "json_laws J" and "\<not> ce_exists_fails env (config_path args)" and "\<And>c0. Config_fromArgs to_upper c0 args = Inr c"
  shows "snd (loadConfig to_upper J hc args env) = Inr c"
proof -
  have "snd (start_fresh to_upper J (Config_default hc) path args env') = Inr c" for path env'
    using write_default_total [OF assms(1), of hc path env'] assms(3)
    by (cases "write_default J (Config_default hc) path env'") (simp add: start_fresh_def)
  then show ?thesis
    using assms(2,3) by (simp add: loadConfig_def Let_def split: option.split json_read.split)
qed

text \<open>
  C20. The whole program, from the command line to the exit code: given the options for a configuration,
  it runs a server with exactly that configuration, whether \<open>config.json\<close> is missing, broken,
  mistyped or says something else; and if that server starts and its context is stopped,
  it exits with 0, within the (positive) drain timeout and half a second, with no thread left and every
  line of the log that was written or queued, and those of the shutdown, in the sink.
\<close>

theorem program_obeys_arguments:
  assumes "json_laws J" and "to_upper_spec to_upper" and "cf_threads c \<noteq> 0" and "plain_args (config_args c)"
    and "\<not> ce_exists_fails cenv ''config.json''" and "se_config (env c) = c"
    and "HttpServer_start now (env c) fs = Some (Inr sv)" and "server_timed (env c) evs sv = Some sv1"
    and "sv_stopped sv1" and "sv_accepting sv1 = 0" and "sv_checks sv1 = 0" and "0 < sint (cf_drain_timeout_sec c)"
    and "length (mq_queue (al_queue (sv_logger sv1))) + 4 < rounds"
  shows "\<exists>cenv' sv' t.
    program to_upper J hc env done_at rounds now fs evs over (config_args c) cenv = Some (cenv', 0, Some (Some sv', t)) \<and>
    over \<le> t \<and> t \<le> over + 1000000 * (1000 * sint (cf_drain_timeout_sec c) + 500) \<and> at_rest sv' \<and>
    log_complete (se_localtime (env c)) over t (sv_logger sv1) sv'"
proof -
  have path: "config_path (config_args c) = ''config.json''" by (rule plain_config_path [OF assms(4)])
  obtain cenv' where "loadConfig to_upper J hc (config_args c) cenv = (cenv', Inr c)"
    using loadConfig_obeys [OF assms(1) _ fromArgs_config_args [OF assms(2,3)], of cenv] assms(5) path
    by (metis prod.collapse)
  moreover obtain sv' t where "server_main (env c) done_at rounds now fs evs over = Some (0, Some sv', t)"
    "over \<le> t" "t \<le> over + 1000000 * (1000 * sint (cf_drain_timeout_sec c) + 500)" "at_rest sv'"
    "log_complete (se_localtime (env c)) over t (sv_logger sv1) sv'"
    using main_exits [OF assms(7-11) _ assms(13)] assms(6,12) by metis
  ultimately show ?thesis using plain_no_help [OF assms(4)] by (simp add: program_def)
qed

lemma program_obeys_arguments_witness:
  "\<exists>cenv' sv t. program (map ascii_upper) example_json 2 example_server_env (\<lambda>_. None) 5 0 example_fs drained_events 8
      (config_args example_config) (example_env [''config.json'' \<mapsto> ''{'']) = Some (cenv', 0, Some (Some sv, t)) \<and>
    t \<le> 5500000008 \<and> at_rest sv"
proof -
  obtain sv sv1 where start: "HttpServer_start 0 (example_server_env example_config) example_fs = Some (Inr sv)"
    and run: "server_timed (example_server_env example_config) drained_events sv = Some sv1"
    and sv1: "sv_stopped sv1" "sv_accepting sv1 = 0" "sv_checks sv1 = 0" "mq_queue (al_queue (sv_logger sv1)) = []"
    using drained_example unfolding started_example_def by (auto split: option.splits sum.splits)
  have "plain_args (config_args example_config)" by code_simp
  moreover have timeout: "sint (cf_drain_timeout_sec example_config) = 5" "cf_threads example_config \<noteq> 0"
    by (simp_all add: example_config_def Config_default_def)
  moreover have "\<not> ce_exists_fails (example_env [''config.json'' \<mapsto> ''{'']) ''config.json''" by (simp add: example_env_def)
  moreover have "se_config (example_server_env example_config) = example_config" by (simp add: example_server_env_def)
  moreover have "length (mq_queue (al_queue (sv_logger sv1))) + 4 < 5" using sv1(4) by simp
  ultimately show ?thesis
    using program_obeys_arguments [where env = example_server_env and c = example_config and rounds = 5 and hc = 2 and over = 8
        and done_at = "\<lambda>_. None" and cenv = "example_env [''config.json'' \<mapsto> ''{'']", OF example_json_laws example_upper _ _ _ _ start run sv1(1-3)] by auto
qed

end
