(* ===== verification/Server_Corner_Cases.thy ===== *)
theory Server_Corner_Cases
  imports Server_Sessions
begin

text \<open>
  Behaviour of the server at the edges: the keep-alive timeout, HEAD requests for static files, and
  a sample rate of zero.
\<close>

section \<open>The timeout\<close>

text \<open>
  C38. A timeout ends the session but closes nothing: the session leaves \<open>m_sessions\<close> and is no longer
  counted, while its socket stays open and its read goes on, so that a later request on the
  connection is still served.
\<close>

theorem HttpServer_timeout_keeps_socket:
  assumes "server_reach env sv" and "\<not> sv_stopped sv" and "i < length (sv_conns sv)"
    and "0 < cn_waits (sv_conns sv ! i)" and "\<not> ss_ended (cn_session (sv_conns sv ! i))"
  shows "\<exists>sv'. server_next env now (Sv_timer i False) sv = Some sv' \<and>
    sv_sessions sv' = removeAll i (sv_sessions sv) \<and> i \<in> set (sv_sessions sv) \<and>
    sv_activeSessions sv' = sv_activeSessions sv - 1 \<and>
    cn_session (sv_conns sv' ! i) = (cn_session (sv_conns sv ! i))\<lparr>ss_ended := True\<rparr> \<and>
    cn_open (sv_conns sv' ! i) = cn_open (sv_conns sv ! i) \<and>
    cn_reading (sv_conns sv' ! i) = cn_reading (sv_conns sv ! i)"
proof -
  let ?s = "(cn_session (sv_conns sv ! i))\<lparr>ss_ended := True\<rparr>"
  let ?sv = "update_conn i (\<lambda>c. c\<lparr>cn_session := ?s\<rparr>) (update_conn i (\<lambda>c. c\<lparr>cn_waits := cn_waits c - 1\<rparr>) sv)"
  let ?after = "HttpServer_endSession now i (server_log now ''Read timeout, closing session'' INFO ?sv)"
  have "server_next env now (Sv_timer i False) sv = Some ?after"
    using assms(2-5) by (simp add: conn_event_def io_event_def run_handler_def Session_onTimeout_def Session_endSession_def)
  moreover have "i \<in> set (sv_sessions sv)"
    using sessions.holds [OF assms(1)] assms(3,5) by (auto simp: sessions_counted_def)
  ultimately show ?thesis using assms(3) by simp
qed

definition timeout_request :: "(string \<times> string) list request" where
  "timeout_request = \<lparr>rq_method = Verb_get, rq_target = ''/'', rq_fields = [], rq_body = []\<rparr>"

definition waiting_events :: "(string \<times> string) list server_event list" where
  "waiting_events = [Sv_accept Accept_done, Sv_insert, Sv_start 0]"

lemma waiting_example:
  "map_option (\<lambda>sv. (sv_stopped sv, map (\<lambda>c. (cn_waits c, ss_ended (cn_session c), cn_open c, cn_reading c \<noteq> None)) (sv_conns sv)))
     (example_run example_config waiting_events) = Some (False, [(1, False, True, True)])"
  by code_simp

lemma served_after_timeout:
  "map_option (\<lambda>sv. (sv_sessions sv, map (\<lambda>c. (ss_ended (cn_session c), map_option rs_result (cn_writing c))) (sv_conns sv)))
     (example_run example_config (waiting_events @ [Sv_timer 0 False, Sv_read 0 (Read_request timeout_request) (still example_fs)])) =
    Some ([], [(True, Some Not_found)])"
  by code_simp

lemma HttpServer_timeout_keeps_socket_witness:
  "\<exists>sv sv'. example_run example_config waiting_events = Some sv \<and>
    server_next (example_server_env example_config) 30 (Sv_timer 0 False) sv = Some sv' \<and>
    0 \<notin> set (sv_sessions sv') \<and> cn_open (sv_conns sv' ! 0) \<and> cn_reading (sv_conns sv' ! 0) \<noteq> None"
proof -
  obtain sv c where run: "example_run example_config waiting_events = Some sv"
    and sv: "\<not> sv_stopped sv" "sv_conns sv = [c]" "cn_waits c = 1" "\<not> ss_ended (cn_session c)" "cn_open c"
      "cn_reading c \<noteq> None"
    using waiting_example by (auto simp: map_eq_Cons_conv)
  then show ?thesis
    using HttpServer_timeout_keeps_socket [OF example_run_reach [OF run], of 0 30] run by fastforce
qed

section \<open>HEAD\<close>

text \<open>
  The response to a HEAD request for a static file does not describe the file: \<open>process\<close> computes
  Content-Length again after the handler has emptied the body, so it is 0, while for GET it is
  the size of the file.
\<close>

theorem HEAD_content_length:
  assumes "beast_laws (se_beast env)"
    and "Router_find (se_beast env) (rq_method req) (rq_target req) routes = Some (StaticFileHandler sh)"
    and "static_file fs sh req = Some (d, bytes, True)" and "length bytes \<le> unat (sh_maxFileSize sh)"
    and "rq_method req = Verb_get \<or> rq_method req = Verb_head"
  shows "\<exists>res. RequestProcessor_process (se_beast env) (se_json env) (HttpServer_handle env (still fs) pool) routes now req
      priority i pool = Some (pool, [], [\<lparr>dl_session = i, dl_response = res, dl_request = Some req\<rparr>]) \<and>
    rs_result res = Ok \<and>
    response_field (se_beast env) ''Content-Length'' res =
      Some (nat_to_string (if rq_method req = Verb_head then 0 else length bytes))"
proof -
  have "\<not> is_compute req" using assms(5) by (auto simp: is_compute_def)
  then show ?thesis
    using assms(2-4) prepare_payload_fields(1) [OF assms(1)]
    by (simp add: RequestProcessor_process_def Router_route_def HttpServer_handle_def StaticFileHandler_outcome Let_def)
qed

definition head_request :: "(string \<times> string) list request" where
  "head_request = \<lparr>rq_method = Verb_head, rq_target = ''/static/a.txt'', rq_fields = [], rq_body = []\<rparr>"

lemma HEAD_content_length_witness:
  "\<exists>res. RequestProcessor_process example_beast example_json
      (HttpServer_handle (example_server_env example_config) (still example_fs) (ThreadPool_new 1 1 :: (string \<times> string) list http_task thread_pool))
      (build_routes example_beast [(Verb_head, ''/static/'', StaticFileHandler example_static)]) 0 head_request 0 7
      (ThreadPool_new 1 1) =
      Some (ThreadPool_new 1 1, [], [\<lparr>dl_session = 7, dl_response = res, dl_request = Some head_request\<rparr>]) \<and>
    response_field example_beast ''Content-Length'' res = Some ''0''"
proof -
  let ?env = "example_server_env example_config"
  have env: "se_beast ?env = example_beast" "se_json ?env = example_json" by (simp_all add: example_server_env_def)
  let ?routes = "build_routes example_beast [(Verb_head, ''/static/'', StaticFileHandler example_static)]"
  have "Router_find example_beast Verb_head ''/static/a.txt'' ?routes = Some (StaticFileHandler example_static)"
    by code_simp
  then have route: "Router_find example_beast (rq_method head_request) (rq_target head_request) ?routes =
      Some (StaticFileHandler example_static)"
    by (simp add: head_request_def)
  have served: "static_file example_fs example_static head_request = Some ([''srv'', ''www'', ''a.txt''], ''hello'', True)"
    by code_simp
  have small: "length ''hello'' \<le> unat (sh_maxFileSize example_static)" by (simp add: example_static_def)
  have head: "rq_method head_request = Verb_head" by (simp add: head_request_def)
  have "nat_to_string 0 = ''0''" by code_simp
  then show ?thesis
    using HEAD_content_length [of ?env head_request ?routes example_static example_fs, unfolded env,
        OF example_beast_laws route served small disjI2 [OF head], of "ThreadPool_new 1 1" 0 0 7]
    unfolding head by auto
qed

section \<open>A sample rate of zero\<close>

text \<open>
  C40. \<open>sample_rate\<close> is never checked: with the value 0, which the command line accepts, a request
  with a priority other than 0 makes \<open>onRead\<close> divide by zero; no other request, and no other
  sample rate, does.
\<close>

theorem onRead_division_by_zero:
  "Config_fromArgs to_upper cfg [''--sample-rate'', ''0''] = Inr (fix_threads (cfg\<lparr>cf_sample_rate := 0\<rparr>)) \<and>
   (Session_onRead B cfg (Read_request req) n s = None \<longleftrightarrow>
      cf_sample_rate cfg = 0 \<and> (\<exists>v p. bst_find B ''X-Priority'' (rq_fields req) = Some v \<and> stoi v = Inr p \<and> p \<noteq> 0))"
proof
  have "nat_to_string 0 = ''0''" by code_simp
  moreover have "stoul (nat_to_string 0) = Inr 0" by (simp add: stoul_nat_to_string)
  ultimately have "stoul ''0'' = Inr 0" by simp
  then show "Config_fromArgs to_upper cfg [''--sample-rate'', ''0''] = Inr (fix_threads (cfg\<lparr>cf_sample_rate := 0\<rparr>))"
    by (simp add: Config_fromArgs_def option_action_def from_stoul_def)
  show "Session_onRead B cfg (Read_request req) n s = None \<longleftrightarrow>
      cf_sample_rate cfg = 0 \<and> (\<exists>v p. bst_find B ''X-Priority'' (rq_fields req) = Some v \<and> stoi v = Inr p \<and> p \<noteq> 0)"
    by (auto simp: Session_onRead_def request_priority_def sample_priority_def Let_def split: option.splits sum.splits)
qed

end
