(* ===== verification/Config_Help.thy ===== *)
theory Config_Help
  imports Config
begin

text \<open>
  \<open>printHelp\<close> of src/config.cpp, and that the text it prints names exactly the options the
  program accepts.
\<close>

definition help_lines :: "string list" where
  "help_lines =
     [''Usage: prserver [OPTIONS]'',
      [],
      ''Options:'',
      ''  -c, --config <file>         Path to config file (default: config.json)'',
      ''  -p, --port <port>           Port to listen on (default: 8080)'',
      ''  -b, --bind-address <addr>   IP address to bind to (default: 0.0.0.0)'',
      ''  -t, --threads <num>         Number of worker threads (default: CPU cores)'',
      ''  -i, --io-threads <num>      Number of I/O threads (default: 4)'',
      ''  -s, --static-root <dir>     Static files root directory (default: static)'',
      ''  -l, --log-level <level>     Log level (DEBUG, INFO, WARNING, ERROR) (default: INFO)'',
      ''      --log-file <path>       Log file path (empty = console) (default: empty)'',
      ''      --body-limit <mb>       Max POST body size in MB (default: 10)'',
      ''      --max-queue-size <num>  Max task queue size (default: 1000)'',
      ''      --max-connections <num> Max simultaneous connections (default: 10000)'',
      ''      --server-name <name>    Server header value (default: PriorityHttpServer/2.0)'',
      ''      --sample-rate <num>     Log every N-th priority request (default: 100)'',
      ''      --enable-keepalive <bool>  Enable Keep-Alive globally (true/false) (default: true)'',
      ''      --keepalive-timeout <sec>  Keep-Alive timeout in seconds (default: 30)'',
      ''      --max-keepalive-requests <num> Max requests per Keep-Alive connection (default: 500)'',
      ''      --drain-timeout <sec>   Timeout for draining connections on shutdown (default: 5)'',
      ''      --static-max-file-size <mb> Max static file size in MB (default: 10)'',
      ''      --cors-allow-origin <origin> CORS header value (default: *)'',
      ''  -h, --help                  Show this help message and exit'']"

definition printHelp :: string where
  "printHelp = concat (map (\<lambda>l. l @ [CHR 0x0A]) help_lines)"

text \<open>The words of a text that begin with a dash.\<close>

fun words :: "string \<Rightarrow> string list" where
  "words [] = [[]]"
| "words (c # cs) = (if c = CHR '' '' \<or> c = CHR '','' \<or> c = CHR 0x0A then [] # words cs
     else case words cs of [] \<Rightarrow> [[c]] | w # ws \<Rightarrow> (c # w) # ws)"

definition options_in :: "string \<Rightarrow> string list" where
  "options_in text = filter (\<lambda>w. w \<noteq> [] \<and> hd w = CHR ''-'') (words text)"

text \<open>The options the program acts on: of \<open>fromArgs\<close>, of \<open>loadConfig\<close> and of \<open>hasHelpFLag\<close>.\<close>

definition accepted :: "(string \<Rightarrow> string) \<Rightarrow> string \<Rightarrow> bool" where
  "accepted to_upper arg \<longleftrightarrow> option_action to_upper arg \<noteq> None \<or>
     config_path [arg, ''x''] = ''x'' \<or> hasHelpFLag [arg]"

definition option_names :: "string list" where
  "option_names =
     [''-c'', ''--config'', ''-p'', ''--port'', ''-b'', ''--bind-address'', ''-t'', ''--threads'',
      ''-i'', ''--io-threads'', ''-s'', ''--static-root'', ''-l'', ''--log-level'', ''--log-file'',
      ''--body-limit'', ''--max-queue-size'', ''--max-connections'', ''--server-name'',
      ''--sample-rate'', ''--enable-keepalive'', ''--keepalive-timeout'', ''--max-keepalive-requests'',
      ''--drain-timeout'', ''--static-max-file-size'', ''--cors-allow-origin'', ''-h'', ''--help'']"

lemma words_nonempty: "words s \<noteq> []"
  by (cases s) (auto split: list.splits)

lemma words_line: "words (l @ CHR 0x0A # s) = words l @ words s"
proof (induction l)
  case (Cons c l)
  then show ?case using words_nonempty [of l] by (auto split: list.splits)
qed simp

lemma options_in_lines: "options_in (concat (map (\<lambda>l. l @ [CHR 0x0A]) ls)) = concat (map options_in ls)"
proof (induction ls)
  case (Cons l ls)
  then show ?case by (simp add: options_in_def words_line)
qed (simp add: options_in_def)

lemma options_in_help: "options_in printHelp = option_names"
  unfolding printHelp_def options_in_lines by code_simp

lemma names_accepted: "list_all (\<lambda>arg. accepted to_upper arg) option_names"
  by (simp add: option_names_def accepted_def option_action_def hasHelpFLag_def)

lemma accepted_named:
  assumes "accepted to_upper arg"
  shows "arg \<in> set option_names"
proof -
  from assms consider "option_action to_upper arg \<noteq> None" | "config_path [arg, ''x''] = ''x''" | "hasHelpFLag [arg]"
    unfolding accepted_def by blast
  then show ?thesis
  proof cases
    case 1
    then obtain act where "option_action to_upper arg = Some act" by blast
    then show ?thesis
      unfolding option_action_def option_names_def by (elim if_SomeE; (elim disjE)?; simp)
  qed (auto simp: option_names_def hasHelpFLag_def split: if_splits)
qed

text \<open>
  The help is complete and current: a word of the text that begins with a dash is an option the
  program acts on, and every option it acts on is in the text.
\<close>

theorem printHelp_documents_options:
  "accepted to_upper arg \<longleftrightarrow> arg \<in> set (options_in printHelp)"
  using names_accepted [of to_upper] accepted_named [of to_upper arg]
  by (auto simp: options_in_help list_all_iff)

end
