(* ===== verification/Condition_Variable.thy ===== *)
theory Condition_Variable
  imports Prelude
begin

text \<open>
  Threads that call the operations of an object guarded by a mutex and a condition variable, as
  \<open>TaskQueue\<close> (src/thread_pool.cpp) and \<open>MessageQueue\<close> (src/logger.cpp) are: an operation locks the
  mutex, works on the members, unlocks, and may notify; \<open>pop\<close> first waits until its predicate
  holds. Here the lock, the work, the sleep and the notification are separate steps of a thread;
  the other theories take an operation as one step, which the lemmas of this theory justify.
\<close>

section \<open>Threads\<close>

text \<open>
  \<open>notify_one\<close> and \<open>notify_all\<close> follow the unlock. A thread is idle, wants the mutex for its
  operation (also when it has been woken), holds it with the members as it has read them, sleeps on
  the condition variable, or has unlocked the mutex and is about to notify.
\<close>

datatype notification = No_notify | Notify_one | Notify_all

datatype ('op, 'out, 'q) thread_pc = Idle | Locking 'op | Holding 'op 'q | Asleep 'op | Leaving notification 'out

record ('op, 'out, 'q) monitor =
  mn_object :: 'q
  mn_locked :: bool
  mn_threads :: "('op, 'out, 'q) thread_pc list"

definition monitor_new :: "'q \<Rightarrow> nat \<Rightarrow> ('op, 'out, 'q) monitor" where
  "monitor_new q n = \<lparr>mn_object = q, mn_locked = False, mn_threads = replicate n Idle\<rparr>"

datatype ('t, 'op) monitor_event =
    Ev_call nat 'op | Ev_lock nat
  | Ev_run nat 't \<comment> \<open>with the time it reads\<close>
  | Ev_notify nat nat \<comment> \<open>and the thread the system wakes\<close>
  | Ev_spurious nat

fun is_asleep :: "('op, 'out, 'q) thread_pc \<Rightarrow> bool" where
  "is_asleep (Asleep op) = True"
| "is_asleep _ = False"

fun wake :: "('op, 'out, 'q) thread_pc \<Rightarrow> ('op, 'out, 'q) thread_pc" where
  "wake (Asleep op) = Locking op"
| "wake pc = pc"

definition set_pc :: "nat \<Rightarrow> ('op, 'out, 'q) thread_pc \<Rightarrow> ('op, 'out, 'q) monitor \<Rightarrow> ('op, 'out, 'q) monitor" where
  "set_pc i pc m = m\<lparr>mn_threads := (mn_threads m)[i := pc]\<rparr>"

text \<open>
  One step of a thread, with the operation it has completed, if any. \<open>work\<close> is the body of an
  operation, \<^const>\<open>None\<close> while its wait predicate is false; \<open>notif\<close> is what it notifies.
\<close>

fun monitor_next ::
  "('t \<Rightarrow> 'op \<Rightarrow> 'q \<Rightarrow> ('out \<times> 'q) option) \<Rightarrow> ('op \<Rightarrow> 'out \<Rightarrow> notification) \<Rightarrow> ('t, 'op) monitor_event \<Rightarrow>
    ('op, 'out, 'q) monitor \<Rightarrow> (('op, 'out, 'q) monitor \<times> ('t \<times> 'op \<times> 'out) list) option" where
  "monitor_next work notif (Ev_call i op) m =
     (if i < length (mn_threads m) then
        (case mn_threads m ! i of Idle \<Rightarrow> Some (set_pc i (Locking op) m, []) | _ \<Rightarrow> None)
      else None)"
| "monitor_next work notif (Ev_lock i) m =
     (if i < length (mn_threads m) \<and> \<not> mn_locked m then
        (case mn_threads m ! i of
           Locking op \<Rightarrow> Some ((set_pc i (Holding op (mn_object m)) m)\<lparr>mn_locked := True\<rparr>, [])
         | _ \<Rightarrow> None)
      else None)"
| "monitor_next work notif (Ev_run i now) m =
     (if i < length (mn_threads m) then
        (case mn_threads m ! i of
           Holding op q \<Rightarrow> (case work now op q of
               None \<Rightarrow> Some ((set_pc i (Asleep op) m)\<lparr>mn_locked := False\<rparr>, [])
             | Some (out, q') \<Rightarrow> Some ((set_pc i (Leaving (notif op out) out) m)
                   \<lparr>mn_object := q', mn_locked := False\<rparr>, [(now, op, out)]))
         | _ \<Rightarrow> None)
      else None)"
| "monitor_next work notif (Ev_notify i j) m =
     (if i < length (mn_threads m) then
        (case mn_threads m ! i of
           Leaving No_notify out \<Rightarrow> Some (set_pc i Idle m, [])
         | Leaving Notify_one out \<Rightarrow>
             (if list_ex is_asleep (mn_threads m) then
                (if j < length (mn_threads m) \<and> is_asleep (mn_threads m ! j)
                 then Some (set_pc i Idle (set_pc j (wake (mn_threads m ! j)) m), []) else None)
              else Some (set_pc i Idle m, []))
         | Leaving Notify_all out \<Rightarrow> Some (set_pc i Idle (m\<lparr>mn_threads := map wake (mn_threads m)\<rparr>), [])
         | _ \<Rightarrow> None)
      else None)"
| "monitor_next work notif (Ev_spurious i) m =
     (if i < length (mn_threads m) \<and> is_asleep (mn_threads m ! i)
      then Some (set_pc i (wake (mn_threads m ! i)) m, []) else None)"

inductive monitor_run ::
  "('t \<Rightarrow> 'op \<Rightarrow> 'q \<Rightarrow> ('out \<times> 'q) option) \<Rightarrow> ('op \<Rightarrow> 'out \<Rightarrow> notification) \<Rightarrow> ('op, 'out, 'q) monitor \<Rightarrow>
    ('t \<times> 'op \<times> 'out) list \<Rightarrow> ('op, 'out, 'q) monitor \<Rightarrow> bool"
  for work :: "'t \<Rightarrow> 'op \<Rightarrow> 'q \<Rightarrow> ('out \<times> 'q) option" and notif :: "'op \<Rightarrow> 'out \<Rightarrow> notification"
    and m0 :: "('op, 'out, 'q) monitor" where
  init: "monitor_run work notif m0 [] m0"
| step: "monitor_run work notif m0 h m \<Longrightarrow> monitor_next work notif ev m = Some (m', h') \<Longrightarrow>
    monitor_run work notif m0 (h @ h') m'"

fun monitor_trace ::
  "('t \<Rightarrow> 'op \<Rightarrow> 'q \<Rightarrow> ('out \<times> 'q) option) \<Rightarrow> ('op \<Rightarrow> 'out \<Rightarrow> notification) \<Rightarrow> ('t, 'op) monitor_event list \<Rightarrow>
    ('op, 'out, 'q) monitor \<Rightarrow> ('op, 'out, 'q) monitor option" where
  "monitor_trace work notif [] m = Some m"
| "monitor_trace work notif (ev # evs) m =
     (case monitor_next work notif ev m of None \<Rightarrow> None | Some (m', h) \<Rightarrow> monitor_trace work notif evs m')"

lemma monitor_trace_run:
  "monitor_run work notif m0 h m \<Longrightarrow> monitor_trace work notif evs m = Some m' \<Longrightarrow>
    \<exists>h'. monitor_run work notif m0 h' m'"
proof (induction evs arbitrary: h m)
  case (Cons ev evs)
  then obtain m1 h1 where "monitor_next work notif ev m = Some (m1, h1)" "monitor_trace work notif evs m1 = Some m'"
    by (auto split: option.splits)
  then show ?case using Cons.IH monitor_run.step [OF Cons.prems(1)] by blast
qed auto

section \<open>The operations one at a time\<close>

text \<open>The same operations, with the results they gave, on the object with no threads around it.\<close>

fun replay :: "('t \<Rightarrow> 'op \<Rightarrow> 'q \<Rightarrow> ('out \<times> 'q) option) \<Rightarrow> ('t \<times> 'op \<times> 'out) list \<Rightarrow> 'q \<Rightarrow> 'q option" where
  "replay work [] q = Some q"
| "replay work ((now, op, out) # h) q =
     (case work now op q of None \<Rightarrow> None
      | Some (out', q') \<Rightarrow> if out' = out then replay work h q' else None)"

lemma replay_append: "replay work (h @ h') q = Option.bind (replay work h q) (replay work h')"
  by (induction work h q rule: replay.induct) (auto split: option.splits)

fun holds_lock :: "('op, 'out, 'q) thread_pc \<Rightarrow> bool" where
  "holds_lock (Holding op q) = True"
| "holds_lock _ = False"

text \<open>Mutual exclusion, and what the holder has read is what the members are.\<close>

definition exclusive :: "('op, 'out, 'q) monitor \<Rightarrow> bool" where
  "exclusive m \<longleftrightarrow> (let ts = mn_threads m in
     (mn_locked m \<longleftrightarrow> (\<exists>i < length ts. holds_lock (ts ! i))) \<and>
     (\<forall>i < length ts. \<forall>j < length ts. holds_lock (ts ! i) \<and> holds_lock (ts ! j) \<longrightarrow> i = j) \<and>
     (\<forall>i < length ts. \<forall>op q. ts ! i = Holding op q \<longrightarrow> q = mn_object m))"

lemma set_pc_simps [simp]:
  "mn_object (set_pc i pc m) = mn_object m" "mn_locked (set_pc i pc m) = mn_locked m"
  "mn_threads (set_pc i pc m) = (mn_threads m)[i := pc]"
  by (simp_all add: set_pc_def)

lemma wake_simps [simp]:
  "holds_lock (wake pc) = holds_lock pc" "\<not> is_asleep (wake pc)"
  by (cases pc; simp)+

lemma wake_Holding [simp]: "wake pc = Holding op q \<longleftrightarrow> pc = Holding op q"
  by (cases pc) simp_all

lemma wake_holder: "holds_lock pc \<Longrightarrow> wake pc = pc"
  by (cases pc) simp_all

lemma is_asleep_holds: "is_asleep pc \<Longrightarrow> \<not> holds_lock pc"
  by (cases pc) simp_all

text \<open>A step by which no thread gets or releases the mutex.\<close>

lemma exclusive_same:
  assumes "exclusive m" and "mn_object m' = mn_object m" and "mn_locked m' = mn_locked m"
    and "length (mn_threads m') = length (mn_threads m)"
    and "\<And>i. i < length (mn_threads m) \<Longrightarrow> mn_threads m' ! i = mn_threads m ! i \<or>
      \<not> holds_lock (mn_threads m ! i) \<and> \<not> holds_lock (mn_threads m' ! i)"
  shows "exclusive m'"
proof -
  have holds: "holds_lock (mn_threads m' ! i) = holds_lock (mn_threads m ! i)" if "i < length (mn_threads m)" for i
    using assms(5) [OF that] by auto
  have "mn_threads m' ! i = Holding op q \<longleftrightarrow> mn_threads m ! i = Holding op q" if "i < length (mn_threads m)" for i op q
    using assms(5) [OF that] by (auto dest: arg_cong [of _ _ holds_lock])
  then show ?thesis using assms(1-4) holds by (simp add: exclusive_def Let_def cong: conj_cong)
qed

lemma exclusive_lock:
  assumes "exclusive m" and "i < length (mn_threads m)" and "\<not> mn_locked m"
  shows "exclusive ((set_pc i (Holding op (mn_object m)) m)\<lparr>mn_locked := True\<rparr>)"
  using assms by (auto simp: exclusive_def Let_def nth_list_update)

lemma exclusive_unlock:
  assumes "exclusive m" and "i < length (mn_threads m)" and "mn_threads m ! i = Holding op q" and "\<not> holds_lock pc"
  shows "exclusive ((set_pc i pc m)\<lparr>mn_object := q', mn_locked := False\<rparr>)"
proof -
  have "\<not> holds_lock (mn_threads m ! j)" if "j < length (mn_threads m)" "j \<noteq> i" for j
    using assms(1-3) that by (auto simp: exclusive_def Let_def)
  then show ?thesis using assms(2,4) by (fastforce simp: exclusive_def Let_def nth_list_update)
qed

lemma exclusive_step:
  assumes "exclusive m" and "monitor_next work notif ev m = Some (m', h)"
  shows "exclusive m' \<and> replay work h (mn_object m) = Some (mn_object m')"
proof (cases ev)
  case (Ev_call i op)
  then show ?thesis
    using assms by (auto intro!: exclusive_same [OF assms(1)] simp: nth_list_update split: if_splits thread_pc.splits)
next
  case (Ev_lock i)
  then show ?thesis
    using assms by (auto intro!: exclusive_lock split: if_splits thread_pc.splits)
next
  case (Ev_run i now)
  then obtain op q where op: "i < length (mn_threads m)" "mn_threads m ! i = Holding op q"
    using assms(2) by (auto split: if_splits thread_pc.splits)
  then have q: "q = mn_object m" using assms(1) by (simp add: exclusive_def Let_def)
  show ?thesis
  proof (cases "work now op q")
    case None
    have "exclusive ((set_pc i (Asleep op) m)\<lparr>mn_object := mn_object m, mn_locked := False\<rparr>)"
      by (rule exclusive_unlock [OF assms(1) op]) simp
    then have "exclusive ((set_pc i (Asleep op) m)\<lparr>mn_locked := False\<rparr>)" by (simp add: exclusive_def)
    then show ?thesis using assms(2) None Ev_run op q by auto
  next
    case (Some r)
    then show ?thesis
      using assms Ev_run op q by (auto intro!: exclusive_unlock [OF assms(1) op] split: prod.splits)
  qed
next
  case (Ev_notify i j)
  then show ?thesis
    using assms by (auto intro!: exclusive_same [OF assms(1)] simp: nth_list_update is_asleep_holds
        dest: wake_holder split: if_splits thread_pc.splits notification.splits)
next
  case (Ev_spurious i)
  then show ?thesis
    using assms by (auto intro!: exclusive_same [OF assms(1)] simp: nth_list_update is_asleep_holds split: if_splits)
qed

text \<open>Every run is a run of the operations one at a time, in the order in which they unlocked the mutex.\<close>

lemma exclusive_new: "exclusive (monitor_new q n)"
  by (simp add: exclusive_def monitor_new_def)

lemma monitor_linearizes:
  assumes "monitor_run work notif (monitor_new q n) h m"
  shows "exclusive m \<and> replay work h q = Some (mn_object m)"
  using assms
proof (induction rule: monitor_run.induct)
  case init
  then show ?case by (simp add: exclusive_new) (simp add: monitor_new_def)
next
  case (step h m ev m' h')
  then show ?case using exclusive_step [of m work notif ev m' h'] by (simp add: replay_append)
qed

section \<open>No wake-up is lost\<close>

lemma filter_update:
  "i < length xs \<Longrightarrow> length (filter P (xs[i := y])) + of_bool (P (xs ! i)) = length (filter P xs) + of_bool (P y)"
proof (induction xs arbitrary: i)
  case (Cons x xs)
  then show ?case by (cases i) auto
qed simp

text \<open>
  The contract that \<open>notify_one\<close> relies on: only operations that take an item wait, they wait only
  while there is none and the queue has not been stopped, whatever makes an item notifies one
  thread, and whatever stops the queue notifies all of them.
\<close>

locale notifying_queue =
  fixes work :: "'t \<Rightarrow> 'op \<Rightarrow> 'q \<Rightarrow> ('out \<times> 'q) option"
    and notif :: "'op \<Rightarrow> 'out \<Rightarrow> notification"
    and items :: "'q \<Rightarrow> nat"
    and stopped :: "'q \<Rightarrow> bool"
    and takes :: "'op \<Rightarrow> bool"
  assumes waits: "work now op q = None \<longleftrightarrow> takes op \<and> items q = 0 \<and> \<not> stopped q"
    and take: "takes op \<Longrightarrow> work now op q = Some (out, q') \<Longrightarrow>
      stopped q' = stopped q \<and> (\<not> stopped q \<longrightarrow> items q' < items q)"
    and give: "\<not> takes op \<Longrightarrow> work now op q = Some (out, q') \<Longrightarrow> notif op out \<noteq> Notify_all \<Longrightarrow>
      stopped q' = stopped q \<and> items q' \<le> items q + of_bool (notif op out = Notify_one)"
begin

text \<open>Threads that will look at the queue, or wake a thread that does.\<close>

fun awake :: "('op, 'out, 'q) thread_pc \<Rightarrow> bool" where
  "awake (Locking op) = takes op"
| "awake (Holding op q) = takes op"
| "awake (Leaving n out) = (n = Notify_one)"
| "awake _ = False"

fun wakes_all :: "('op, 'out, 'q) thread_pc \<Rightarrow> bool" where
  "wakes_all (Leaving n out) = (n = Notify_all)"
| "wakes_all _ = False"

fun sleeper_ok :: "('op, 'out, 'q) thread_pc \<Rightarrow> bool" where
  "sleeper_ok (Asleep op) = takes op"
| "sleeper_ok _ = True"

definition wakeful :: "('op, 'out, 'q) monitor \<Rightarrow> bool" where
  "wakeful m \<longleftrightarrow> list_all sleeper_ok (mn_threads m) \<and>
     (list_ex is_asleep (mn_threads m) \<longrightarrow> list_ex wakes_all (mn_threads m) \<or>
        \<not> stopped (mn_object m) \<and> items (mn_object m) \<le> length (filter awake (mn_threads m)))"

lemma sleepers_update: "list_all sleeper_ok ts \<Longrightarrow> sleeper_ok pc \<Longrightarrow> list_all sleeper_ok (ts[i := pc])"
  by (auto simp: list_all_iff dest: set_update_subset_insert [THEN subsetD])

text \<open>One thread moves on.\<close>

lemma wakeful_update:
  assumes "wakeful m" and "i < length (mn_threads m)" and "mn_threads m' = (mn_threads m)[i := pc]"
    and "sleeper_ok pc" and "\<not> wakes_all (mn_threads m ! i)"
    and "is_asleep pc \<Longrightarrow> \<not> stopped (mn_object m') \<and> items (mn_object m') = 0"
    and "\<not> is_asleep pc \<Longrightarrow> wakes_all pc \<or> stopped (mn_object m') = stopped (mn_object m) \<and>
      (\<not> stopped (mn_object m) \<longrightarrow>
        items (mn_object m') + of_bool (awake (mn_threads m ! i)) \<le> items (mn_object m) + of_bool (awake pc))"
  shows "wakeful m'"
proof (cases "is_asleep pc")
  case True
  then show ?thesis using assms(1-4,6) by (simp add: wakeful_def sleepers_update)
next
  case False
  have count: "length (filter awake ((mn_threads m)[i := pc])) + of_bool (awake (mn_threads m ! i)) =
      length (filter awake (mn_threads m)) + of_bool (awake pc)"
    by (rule filter_update [OF assms(2)])
  have "list_ex wakes_all (mn_threads m')" if "wakes_all pc \<or> list_ex wakes_all (mn_threads m)"
    using that assms(2,3,5) by (fastforce simp: list_ex_length nth_list_update)
  moreover have "list_ex is_asleep (mn_threads m)" if "list_ex is_asleep (mn_threads m')"
    using that assms(2,3) False by (auto simp: list_ex_length nth_list_update split: if_splits)
  ultimately show ?thesis
    using assms(1,3,4) assms(7) [OF False] count by (auto simp: wakeful_def sleepers_update)
qed

lemma wakeful_notify_all:
  assumes "wakeful m"
  shows "wakeful (set_pc i Idle (m\<lparr>mn_threads := map wake (mn_threads m)\<rparr>))"
proof -
  have "sleeper_ok (wake pc)" for pc :: "('op, 'out, 'q) thread_pc" by (cases pc) simp_all
  then have "list_all sleeper_ok ((map wake (mn_threads m))[i := Idle])"
    by (intro sleepers_update) (simp_all add: list_all_iff)
  moreover have "\<not> list_ex is_asleep ((map wake (mn_threads m))[i := Idle])"
    by (auto simp: list_ex_iff dest!: set_update_subset_insert [THEN subsetD])
  ultimately show ?thesis by (simp add: wakeful_def)
qed

lemma wakeful_wake:
  assumes "wakeful m" and "j < length (mn_threads m)" and "is_asleep (mn_threads m ! j)"
  shows "wakeful (set_pc j (wake (mn_threads m ! j)) m)"
proof -
  obtain op where op: "mn_threads m ! j = Asleep op" using assms(3) by (cases "mn_threads m ! j") auto
  then show ?thesis using assms(1,2) by (intro wakeful_update [OF assms(1,2), of _ "Locking op"]) simp_all
qed

lemma wakeful_notify_one:
  assumes "wakeful m" and "i < length (mn_threads m)" and "mn_threads m ! i = Leaving Notify_one out"
    and "j < length (mn_threads m)" and "is_asleep (mn_threads m ! j)"
  shows "wakeful (set_pc i Idle (set_pc j (wake (mn_threads m ! j)) m))"
proof -
  obtain op where op: "mn_threads m ! j = Asleep op" using assms(5) by (cases "mn_threads m ! j") auto
  let ?ts = "(mn_threads m)[j := Locking op]" and ?m = "set_pc i Idle (set_pc j (wake (mn_threads m ! j)) m)"
  have ij: "i \<noteq> j" using assms(3) op by auto
  have takes: "takes op" using assms(1,4) op by (auto simp: wakeful_def list_all_length)
  have "length (filter awake ?ts) = length (filter awake (mn_threads m)) + 1"
    using filter_update [OF assms(4), of awake "Locking op"] op takes by simp
  moreover have "length (filter awake (?ts[i := Idle])) + 1 = length (filter awake ?ts)"
    using filter_update [of i ?ts awake Idle] assms(2,3) ij by simp
  ultimately have count: "length (filter awake (mn_threads ?m)) = length (filter awake (mn_threads m))"
    using op by simp
  have "list_ex wakes_all (mn_threads ?m)" if "list_ex wakes_all (mn_threads m)"
  proof -
    from that obtain k where "k < length (mn_threads m)" "wakes_all (mn_threads m ! k)" by (auto simp: list_ex_length)
    moreover from this have "k \<noteq> i" "k \<noteq> j" using assms(3) op by auto
    ultimately show ?thesis by (auto simp: list_ex_length intro!: exI [of _ k])
  qed
  moreover have "list_ex is_asleep (mn_threads m)" using assms(4,5) by (auto simp: list_ex_length)
  moreover have "list_all sleeper_ok (mn_threads ?m)"
    using assms(1) op by (auto simp: wakeful_def intro!: sleepers_update)
  ultimately show ?thesis using assms(1) count by (auto simp: wakeful_def)
qed

lemma wakeful_step:
  assumes "wakeful m" and "exclusive m" and "monitor_next work notif ev m = Some (m', h)"
  shows "wakeful m'"
proof (cases ev)
  case (Ev_call i op)
  then show ?thesis
    using assms by (auto intro: wakeful_update split: if_splits thread_pc.splits)
next
  case (Ev_lock i)
  then show ?thesis
    using assms by (auto intro: wakeful_update split: if_splits thread_pc.splits)
next
  case (Ev_run i now)
  then obtain op where op: "i < length (mn_threads m)" "mn_threads m ! i = Holding op (mn_object m)"
    using assms(2,3) by (auto simp: exclusive_def Let_def split: if_splits thread_pc.splits)
  show ?thesis
  proof (cases "work now op (mn_object m)")
    case None
    then show ?thesis
      using assms(3) Ev_run op waits [of now op "mn_object m"]
      by (auto intro!: wakeful_update [OF assms(1) op(1), of _ "Asleep op"])
  next
    case (Some r)
    obtain out q where r: "r = (out, q)" by force
    show ?thesis
      using assms(3) Ev_run op Some r take [of op now "mn_object m" out q] give [of op now "mn_object m" out q]
      by (cases "takes op") (auto intro!: wakeful_update [OF assms(1) op(1), of _ "Leaving (notif op out) out"])
  qed
next
  case (Ev_notify i j)
  then obtain n out where n: "i < length (mn_threads m)" "mn_threads m ! i = Leaving n out"
    using assms(3) by (auto split: if_splits thread_pc.splits)
  show ?thesis
  proof (cases n)
    case No_notify
    then show ?thesis
      using assms(3) Ev_notify n by (auto intro: wakeful_update [OF assms(1) n(1), of _ Idle])
  next
    case Notify_one
    show ?thesis
    proof (cases "list_ex is_asleep (mn_threads m)")
      case True
      then show ?thesis
        using assms(3) Ev_notify n Notify_one wakeful_notify_one [OF assms(1) n(1)] by (auto split: if_splits)
    next
      case False
      then have "\<not> list_ex is_asleep ((mn_threads m)[i := Idle])"
        using n(1) by (auto simp: list_ex_length nth_list_update split: if_splits)
      moreover have "list_all sleeper_ok ((mn_threads m)[i := Idle])"
        using assms(1) by (auto simp: wakeful_def intro: sleepers_update)
      ultimately show ?thesis using assms(3) Ev_notify n Notify_one False by (auto simp: wakeful_def)
    qed
  next
    case Notify_all
    then show ?thesis
      using assms(3) Ev_notify n wakeful_notify_all [OF assms(1)] by auto
  qed
next
  case (Ev_spurious i)
  then show ?thesis using assms wakeful_wake by (auto split: if_splits)
qed

lemma wakeful_new: "wakeful (monitor_new q n)"
  by (auto simp: wakeful_def monitor_new_def list_all_iff list_ex_iff)

lemma wakeful_run: "monitor_run work notif (monitor_new q n) h m \<Longrightarrow> wakeful m"
proof (induction rule: monitor_run.induct)
  case init
  show ?case by (rule wakeful_new)
next
  case (step h m ev m' h')
  then show ?case using wakeful_step [OF step.IH _ step.hyps(2)] monitor_linearizes [OF step.hyps(1)] by simp
qed

text \<open>When a sleeping thread could go on, there is a thread that will find that out.\<close>

lemma someone_awake:
  assumes "monitor_run work notif (monitor_new q n) h m"
    and "Asleep op \<in> set (mn_threads m)" and "work now op (mn_object m) \<noteq> None"
  shows "\<exists>j < length (mn_threads m). awake (mn_threads m ! j) \<or> wakes_all (mn_threads m ! j)"
proof -
  have inv: "wakeful m" by (rule wakeful_run [OF assms(1)])
  then have "takes op" using assms(2) by (auto simp: wakeful_def list_all_iff)
  then have ready: "stopped (mn_object m) \<or> items (mn_object m) \<noteq> 0" using assms(3) waits [of now op "mn_object m"] by auto
  have "list_ex is_asleep (mn_threads m)" using assms(2) by (auto simp: list_ex_iff intro: bexI [of _ "Asleep op"])
  then have "list_ex wakes_all (mn_threads m) \<or> filter awake (mn_threads m) \<noteq> []"
    using inv ready by (auto simp: wakeful_def)
  then show ?thesis by (auto simp: list_ex_length filter_empty_conv in_set_conv_nth)
qed

end

text \<open>The steps by which threads finish their calls; a thread that has one to do is never blocked for good.\<close>

fun is_internal :: "('t, 'op) monitor_event \<Rightarrow> bool" where
  "is_internal (Ev_call i op) = False"
| "is_internal (Ev_spurious i) = False"
| "is_internal _ = True"

fun is_busy :: "('op, 'out, 'q) thread_pc \<Rightarrow> bool" where
  "is_busy Idle = False"
| "is_busy (Asleep op) = False"
| "is_busy _ = True"

lemma busy_can_step:
  fixes work :: "'t \<Rightarrow> 'op \<Rightarrow> 'q \<Rightarrow> ('out \<times> 'q) option"
  assumes "exclusive m" and "j < length (mn_threads m)" and "is_busy (mn_threads m ! j)"
  shows "\<exists>ev. is_internal ev \<and> monitor_next work notif ev m \<noteq> None"
proof (cases "mn_locked m")
  case True
  then obtain k op q where "k < length (mn_threads m)" "mn_threads m ! k = Holding op q"
    using assms(1) unfolding exclusive_def Let_def by (metis holds_lock.elims(2))
  moreover obtain now :: 't where "now = now" by simp
  ultimately have "is_internal (Ev_run k now) \<and> monitor_next work notif (Ev_run k now) m \<noteq> None"
    by (auto split: option.splits)
  then show ?thesis by blast
next
  case False
  show ?thesis
  proof (cases "mn_threads m ! j")
    case (Locking op)
    then have "is_internal (Ev_lock j) \<and> monitor_next work notif (Ev_lock j) m \<noteq> None" using assms(2) False by simp
    then show ?thesis by blast
  next
    case (Holding op q)
    then show ?thesis using assms(1,2) False by (auto simp: exclusive_def Let_def)
  next
    case (Leaving n out)
    obtain k where "list_ex is_asleep (mn_threads m) \<Longrightarrow> k < length (mn_threads m) \<and> is_asleep (mn_threads m ! k)"
      by (auto simp: list_ex_length)
    then have "is_internal (Ev_notify j k) \<and> monitor_next work notif (Ev_notify j k) m \<noteq> None"
      using assms(2) Leaving by (cases n) auto
    then show ?thesis by blast
  qed (use assms(3) in simp_all)
qed

end
