(* ===== verification/Queue_Threads.thy ===== *)
theory Queue_Threads
  imports Condition_Variable Task_Queue Logger
begin

text \<open>
  Both queues of the program as threads use them: every interleaving of their calls gives the
  results of the calls one at a time, and no thread sleeps in \<open>pop\<close> while there is something for it.
\<close>

section \<open>TaskQueue\<close>

datatype 'a tq_call = Call_push 'a cint | Call_pop | Call_shutdown | Call_size | Call_abort

datatype 'a tq_answer = Pushed bool | Popped "'a option" | Sized nat | Unit

fun TaskQueue_call :: "ticks \<Rightarrow> 'a tq_call \<Rightarrow> 'a task_queue \<Rightarrow> ('a tq_answer \<times> 'a task_queue) option" where
  "TaskQueue_call now (Call_push task priority) q = Some (map_prod Pushed id (TaskQueue_push now task priority q))"
| "TaskQueue_call now Call_pop q = map_option (map_prod Popped id) (TaskQueue_pop now q)"
| "TaskQueue_call now Call_shutdown q = Some (Unit, TaskQueue_shutdown q)"
| "TaskQueue_call now Call_size q = Some (Sized (TaskQueue_size q), q)"
| "TaskQueue_call now Call_abort q = Some (Unit, TaskQueue_abort q)"

fun TaskQueue_notify :: "'a tq_call \<Rightarrow> 'a tq_answer \<Rightarrow> notification" where
  "TaskQueue_notify (Call_push task priority) answer = (if answer = Pushed True then Notify_one else No_notify)"
| "TaskQueue_notify Call_shutdown answer = Notify_all"
| "TaskQueue_notify Call_abort answer = Notify_all"
| "TaskQueue_notify _ answer = No_notify"

abbreviation TaskQueue_threads where
  "TaskQueue_threads maxQueueSize n \<equiv> monitor_run TaskQueue_call TaskQueue_notify
     (monitor_new (TaskQueue_new maxQueueSize) n)"

lemma length_TaskQueue_push:
  "TaskQueue_push now x p q = (ok, q') \<Longrightarrow> length (tq_queue q') = length (tq_queue q) + of_bool ok \<and>
    tq_done q' = tq_done q \<and> tq_abort q' = tq_abort q"
  by (auto simp: TaskQueue_push_def heap.length_push split: if_splits)

lemma length_TaskQueue_pop:
  assumes "TaskQueue_pop now q = Some (r, q')"
  shows "tq_done q' = tq_done q \<and> tq_abort q' = tq_abort q \<and>
    (\<not> tq_done q \<and> \<not> tq_abort q \<longrightarrow> length (tq_queue q') < length (tq_queue q))"
  using assms
proof (cases rule: pop_rest)
  case no_task
  then show ?thesis using assms by (auto simp: TaskQueue_pop_cases split: if_splits)
next
  case task
  then show ?thesis by (simp add: length_tq_rest)
qed

interpretation tasks: notifying_queue TaskQueue_call TaskQueue_notify "\<lambda>q. length (tq_queue q)"
    "\<lambda>q. tq_done q \<or> tq_abort q" "\<lambda>c. c = Call_pop"
proof
  fix now c and q q' :: "'a task_queue" and out
  show "TaskQueue_call now c q = None \<longleftrightarrow> c = Call_pop \<and> length (tq_queue q) = 0 \<and> \<not> (tq_done q \<or> tq_abort q)"
    by (cases c) (auto simp: TaskQueue_pop_cases)
  show "c = Call_pop \<Longrightarrow> TaskQueue_call now c q = Some (out, q') \<Longrightarrow>
      (tq_done q' \<or> tq_abort q') = (tq_done q \<or> tq_abort q) \<and>
      (\<not> (tq_done q \<or> tq_abort q) \<longrightarrow> length (tq_queue q') < length (tq_queue q))"
    using length_TaskQueue_pop by fastforce
  show "c \<noteq> Call_pop \<Longrightarrow> TaskQueue_call now c q = Some (out, q') \<Longrightarrow> TaskQueue_notify c out \<noteq> Notify_all \<Longrightarrow>
      (tq_done q' \<or> tq_abort q') = (tq_done q \<or> tq_abort q) \<and>
      length (tq_queue q') \<le> length (tq_queue q) + of_bool (TaskQueue_notify c out = Notify_one)"
    by (cases c) (auto simp: map_prod_def dest!: length_TaskQueue_push split: prod.splits if_splits)
qed

text \<open>
  C11. The mutex makes the calls of any number of threads on a \<open>TaskQueue\<close> atomic: however their
  locking, waiting, work and notifications interleave, with spurious wake-ups too, the answers are
  those of the calls one at a time, in the order in which they unlocked the mutex, and the queue is
  the one they lead to, a heap within its limit.
\<close>

theorem TaskQueue_linearizable:
  assumes "monitor_run TaskQueue_call TaskQueue_notify (monitor_new (TaskQueue_new maxQueueSize) n) h m"
  shows "replay TaskQueue_call h (TaskQueue_new maxQueueSize) = Some (mn_object m) \<and> tq_inv (mn_object m)"
proof -
  have "tq_inv q'" if "replay TaskQueue_call h q = Some q'" "tq_inv q"
    for h :: "(ticks \<times> 'a tq_call \<times> 'a tq_answer) list" and q q'
    using that
  proof (induction h arbitrary: q)
    case (Cons x h)
    obtain now call out where x: "x = (now, call, out)" by (cases x)
    then obtain p where call: "TaskQueue_call now call q = Some (out, p)" and rest: "replay TaskQueue_call h p = Some q'"
      using Cons.prems(1) by (auto split: option.splits if_splits)
    have "tq_inv p"
      using call Cons.prems(2)
      by (cases call) (auto simp: map_prod_def intro: tq_inv_push tq_inv_pop split: prod.splits)
    then show ?case using Cons.IH rest by blast
  qed simp
  then show ?thesis using monitor_linearizes [OF assms] tq_inv_new(1) by blast
qed

text \<open>Two workers sleep; two tasks are pushed, and a notification goes to each of them.\<close>

definition two_sleepers :: "(ticks, string tq_call) monitor_event list" where
  "two_sleepers = [Ev_call 0 Call_pop, Ev_lock 0, Ev_run 0 1, Ev_call 1 Call_pop, Ev_lock 1, Ev_run 1 2,
     Ev_call 2 (Call_push ''task'' 7), Ev_lock 2, Ev_run 2 3]"

definition sleepers :: "(string tq_call, string tq_answer, string task_queue) monitor option" where
  "sleepers = monitor_trace TaskQueue_call TaskQueue_notify two_sleepers (monitor_new (TaskQueue_new 2) 3)"

lemma sleepers_state:
  "map_option (\<lambda>m. (mn_threads m, TaskQueue_size (mn_object m))) sleepers =
     Some ([Asleep Call_pop, Asleep Call_pop, Leaving Notify_one (Pushed True)], 1)"
  by code_simp

lemma sleepers_run:
  obtains h m where "sleepers = Some m" "TaskQueue_threads 2 3 h m"
    "mn_threads m = [Asleep Call_pop, Asleep Call_pop, Leaving Notify_one (Pushed True)]"
    "TaskQueue_size (mn_object m) = 1"
proof -
  from sleepers_state obtain m where m: "sleepers = Some m"
    "mn_threads m = [Asleep Call_pop, Asleep Call_pop, Leaving Notify_one (Pushed True)]"
    "TaskQueue_size (mn_object m) = 1"
    by auto
  then show thesis
    using monitor_trace_run [OF monitor_run.init] that unfolding sleepers_def by blast
qed

lemma TaskQueue_linearizable_witness:
  "\<exists>m h. sleepers = Some m \<and> replay TaskQueue_call h (TaskQueue_new 2) = Some (mn_object m) \<and> tq_inv (mn_object m) \<and>
     TaskQueue_size (mn_object m) = 1"
proof (rule sleepers_run)
  fix h m assume "sleepers = Some m" "TaskQueue_threads 2 3 h m" "TaskQueue_size (mn_object m) = 1"
  then show ?thesis using TaskQueue_linearizable by blast
qed

text \<open>
  C12. No wake-up of a worker is lost: whenever a thread sleeps in \<open>pop\<close> although its wait predicate
  holds (there is a task, or the queue is shut down or aborted), some thread will see to it: it is
  on its way into \<open>pop\<close> itself, or about to notify. And the program can make a step without a new
  call: it is not deadlocked.
\<close>

theorem TaskQueue_no_lost_wakeup:
  assumes "monitor_run TaskQueue_call TaskQueue_notify (monitor_new (TaskQueue_new maxQueueSize) n) h m"
    and "Asleep Call_pop \<in> set (mn_threads m)" and "TaskQueue_pop now (mn_object m) \<noteq> None"
  shows "(\<exists>pc \<in> set (mn_threads m). case pc of
      Locking call \<Rightarrow> call = Call_pop | Holding call q \<Rightarrow> call = Call_pop
    | Leaving notification answer \<Rightarrow> notification \<noteq> No_notify | _ \<Rightarrow> False) \<and>
    (\<exists>ev. is_internal ev \<and> monitor_next TaskQueue_call TaskQueue_notify ev m \<noteq> None)"
proof -
  have "TaskQueue_call now Call_pop (mn_object m) \<noteq> None" using assms(3) by simp
  from tasks.someone_awake [OF assms(1,2) this]
  obtain j where j: "j < length (mn_threads m)" "tasks.awake (mn_threads m ! j) \<or> tasks.wakes_all (mn_threads m ! j)"
    by blast
  then have "is_busy (mn_threads m ! j)" by (cases "mn_threads m ! j") simp_all
  then have "\<exists>ev. is_internal ev \<and> monitor_next TaskQueue_call TaskQueue_notify ev m \<noteq> None"
    using busy_can_step monitor_linearizes [OF assms(1)] j(1) by blast
  moreover have "case mn_threads m ! j of Locking call \<Rightarrow> call = Call_pop | Holding call q \<Rightarrow> call = Call_pop
    | Leaving notification answer \<Rightarrow> notification \<noteq> No_notify | _ \<Rightarrow> False"
    using j(2) by (cases "mn_threads m ! j") auto
  ultimately show ?thesis using nth_mem [OF j(1)] by blast
qed

lemma TaskQueue_no_lost_wakeup_witness:
  "\<exists>m. sleepers = Some m \<and> Asleep Call_pop \<in> set (mn_threads m) \<and>
    (\<exists>ev. is_internal ev \<and> monitor_next TaskQueue_call TaskQueue_notify ev m \<noteq> None)"
proof (rule sleepers_run)
  fix h m assume m: "sleepers = Some m" "TaskQueue_threads 2 3 h m" "TaskQueue_size (mn_object m) = 1"
    "mn_threads m = [Asleep Call_pop, Asleep Call_pop, Leaving Notify_one (Pushed True)]"
  have "tq_queue (mn_object m) \<noteq> []" using m(3) by (auto simp: TaskQueue_size_def)
  then have "TaskQueue_pop 4 (mn_object m) \<noteq> None" by (simp add: TaskQueue_pop_cases)
  then show ?thesis using TaskQueue_no_lost_wakeup [OF m(2), of 4] m(1,4) by (intro exI [of _ m]) simp
qed

section \<open>MessageQueue\<close>

datatype mq_call = Mq_push log_message | Mq_pop | Mq_shutdown | Mq_size

datatype mq_answer = Mq_popped "log_message option" | Mq_sized nat | Mq_unit

fun MessageQueue_call :: "ticks \<Rightarrow> mq_call \<Rightarrow> message_queue \<Rightarrow> (mq_answer \<times> message_queue) option" where
  "MessageQueue_call now (Mq_push msg) q = Some (Mq_unit, MessageQueue_push msg q)"
| "MessageQueue_call now Mq_pop q = map_option (map_prod Mq_popped id) (MessageQueue_pop q)"
| "MessageQueue_call now Mq_shutdown q = Some (Mq_unit, MessageQueue_shutdown q)"
| "MessageQueue_call now Mq_size q = Some (Mq_sized (MessageQueue_size q), q)"

fun MessageQueue_notify :: "mq_call \<Rightarrow> mq_answer \<Rightarrow> notification" where
  "MessageQueue_notify (Mq_push msg) answer = Notify_one"
| "MessageQueue_notify Mq_shutdown answer = Notify_all"
| "MessageQueue_notify _ answer = No_notify"

interpretation messages: notifying_queue MessageQueue_call MessageQueue_notify "\<lambda>q. length (mq_queue q)"
    mq_done "\<lambda>c. c = Mq_pop"
proof
  fix now c and q q' :: message_queue and out
  show "MessageQueue_call now c q = None \<longleftrightarrow> c = Mq_pop \<and> length (mq_queue q) = 0 \<and> \<not> mq_done q"
    by (cases c; cases "mq_queue q") (auto simp: MessageQueue_pop_Cons MessageQueue_pop_Nil)
  show "c = Mq_pop \<Longrightarrow> MessageQueue_call now c q = Some (out, q') \<Longrightarrow>
      mq_done q' = mq_done q \<and> (\<not> mq_done q \<longrightarrow> length (mq_queue q') < length (mq_queue q))"
    by (cases "mq_queue q") (auto simp: MessageQueue_pop_Cons MessageQueue_pop_Nil split: if_splits)
  show "c \<noteq> Mq_pop \<Longrightarrow> MessageQueue_call now c q = Some (out, q') \<Longrightarrow> MessageQueue_notify c out \<noteq> Notify_all \<Longrightarrow>
      mq_done q' = mq_done q \<and> length (mq_queue q') \<le> length (mq_queue q) + of_bool (MessageQueue_notify c out = Notify_one)"
    by (cases c) (auto simp: MessageQueue_push_def)
qed

text \<open>
  The same holds of the logger's queue: a consumer does not sleep on a message, or on the
  shutdown of the logger, unless a notification is on its way or a thread is about to look.
\<close>

theorem MessageQueue_no_lost_wakeup:
  assumes "monitor_run MessageQueue_call MessageQueue_notify (monitor_new \<lparr>mq_queue = [], mq_done = False\<rparr> n) h m"
    and "Asleep Mq_pop \<in> set (mn_threads m)" and "MessageQueue_pop (mn_object m) \<noteq> None"
  shows "(\<exists>pc \<in> set (mn_threads m). case pc of
      Locking call \<Rightarrow> call = Mq_pop | Holding call q \<Rightarrow> call = Mq_pop
    | Leaving notification answer \<Rightarrow> notification \<noteq> No_notify | _ \<Rightarrow> False) \<and>
    (\<exists>ev. is_internal ev \<and> monitor_next MessageQueue_call MessageQueue_notify ev m \<noteq> None)"
proof -
  have "MessageQueue_call 0 Mq_pop (mn_object m) \<noteq> None" using assms(3) by simp
  from messages.someone_awake [OF assms(1,2) this]
  obtain j where j: "j < length (mn_threads m)"
    "messages.awake (mn_threads m ! j) \<or> messages.wakes_all (mn_threads m ! j)"
    by blast
  then have "is_busy (mn_threads m ! j)" by (cases "mn_threads m ! j") simp_all
  then have "\<exists>ev. is_internal ev \<and> monitor_next MessageQueue_call MessageQueue_notify ev m \<noteq> None"
    using busy_can_step monitor_linearizes [OF assms(1)] j(1) by blast
  moreover have "case mn_threads m ! j of Locking call \<Rightarrow> call = Mq_pop | Holding call q \<Rightarrow> call = Mq_pop
    | Leaving notification answer \<Rightarrow> notification \<noteq> No_notify | _ \<Rightarrow> False"
    using j(2) by (cases "mn_threads m ! j") auto
  ultimately show ?thesis using nth_mem [OF j(1)] by blast
qed

definition sleeping_consumer :: "(mq_call, mq_answer, message_queue) monitor option" where
  "sleeping_consumer = monitor_trace MessageQueue_call MessageQueue_notify
     [Ev_call 0 Mq_pop, Ev_lock 0, Ev_run 0 1, Ev_call 1 Mq_shutdown, Ev_lock 1, Ev_run 1 2]
     (monitor_new \<lparr>mq_queue = [], mq_done = False\<rparr> 2)"

lemma sleeping_consumer_state:
  "map_option (\<lambda>m. (mn_threads m, mn_object m)) sleeping_consumer =
     Some ([Asleep Mq_pop, Leaving Notify_all Mq_unit], \<lparr>mq_queue = [], mq_done = True\<rparr>)"
  by code_simp

lemma MessageQueue_no_lost_wakeup_witness:
  "\<exists>m. sleeping_consumer = Some m \<and> Asleep Mq_pop \<in> set (mn_threads m) \<and>
    (\<exists>ev. is_internal ev \<and> monitor_next MessageQueue_call MessageQueue_notify ev m \<noteq> None)"
proof -
  obtain m where m: "sleeping_consumer = Some m" "mn_threads m = [Asleep Mq_pop, Leaving Notify_all Mq_unit]"
    "mn_object m = \<lparr>mq_queue = [], mq_done = True\<rparr>"
    using sleeping_consumer_state by auto
  then obtain h where "monitor_run MessageQueue_call MessageQueue_notify (monitor_new \<lparr>mq_queue = [], mq_done = False\<rparr> 2) h m"
    using monitor_trace_run [OF monitor_run.init] unfolding sleeping_consumer_def by blast
  moreover have "MessageQueue_pop (mn_object m) \<noteq> None" using m(3) by (simp add: MessageQueue_pop_def)
  ultimately show ?thesis using MessageQueue_no_lost_wakeup [of 2 h m] m(1,2) by (intro exI [of _ m]) simp
qed

end
