(* ===== verification/Task_Order.thy ===== *)
theory Task_Order
  imports Task_Queue
begin

text \<open>
  Whole runs of \<open>TaskQueue\<close>: from its constructor on it gives the answers of the scheduling rule, and
  filled and emptied within the ageing threshold it is a stable sort by priority.
\<close>

section \<open>Runs of the scheduler\<close>

fun op_time :: "ticks \<Rightarrow> 'a tq_op \<Rightarrow> ticks" where
  "op_time T (Op_push now x p) = now"
| "op_time T (Op_pop now) = now"
| "op_time T _ = T"

fun clock_steady :: "ticks \<Rightarrow> 'a tq_op list \<Rightarrow> bool" where
  "clock_steady T [] = True"
| "clock_steady T (op # ops) \<longleftrightarrow> op_after T op \<and> clock_steady (op_time T op) ops"

text \<open>A caller for whom the scheduler has no step sleeps; its operation gives no answer.\<close>

inductive sched_run :: "'a sched \<Rightarrow> 'a tq_op list \<Rightarrow> 'a tq_out list \<Rightarrow> 'a sched \<Rightarrow> bool" where
  over: "sched_run s [] [] s"
| answer: "sched_step s op out s1 \<Longrightarrow> sched_run s1 ops outs s' \<Longrightarrow> sched_run s (op # ops) (out # outs) s'"
| sleep: "\<not> (\<exists>out s1. sched_step s op out s1) \<Longrightarrow> sched_run s ops outs s' \<Longrightarrow> sched_run s (op # ops) outs s'"

lemma tq_clocked_mono: "tq_clocked T q \<Longrightarrow> T \<le> T' \<Longrightarrow> tq_clocked T' q"
  by (auto simp: tq_clocked_def dest: is_aged_mono)

lemma op_after_time: "op_after T op \<Longrightarrow> T \<le> op_time T op"
  by (cases op) auto

lemma tq_clocked_push:
  assumes "tq_clocked T q" and "TaskQueue_push now x p q = (ok, q')"
  shows "tq_clocked T q'"
  using assms(2)
proof (cases rule: push_cases)
  case accepted
  then show ?thesis using assms(1) set_push [OF accepted(2)] by (auto simp: tq_clocked_def)
qed (use assms(1) in simp)

lemma tq_clocked_step:
  assumes "tq_clocked T q" and "op_after T op" and "TaskQueue_step op q = Some (out, q')"
  shows "tq_clocked (op_time T op) q'"
proof (cases op)
  case (Op_push now x p)
  then show ?thesis
    using assms tq_clocked_mono [of T q now] by (auto split: prod.splits intro: tq_clocked_push)
next
  case (Op_pop now)
  then obtain r where pop: "TaskQueue_pop now q = Some (r, q')" using assms(3) by auto
  then show ?thesis
    using assms(1,2) Op_pop tq_clocked_rest [of T q now] tq_clocked_mono [of T q now] by (auto elim!: pop_rest)
qed (use assms in \<open>auto simp: tq_clocked_def TaskQueue_shutdown_def TaskQueue_abort_def\<close>)

text \<open>
  C1. From its constructor on, through any operations in any order on a clock that does not run back,
  the heap with its in-place ageing gives exactly the answers of the scheduling rule on the bag of
  submitted tasks: a task is accepted while the queue is open and below its limit, the one served
  has the highest priority (the maximum once it has waited too long) and among equals came first,
  and a caller sleeps exactly when the rule has nothing to offer.
\<close>

theorem TaskQueue_runs_refine:
  assumes "clock_steady T ops"
  shows "sched_run (tq_abs (TaskQueue_new m)) ops (fst (TaskQueue_run ops (TaskQueue_new m)))
    (tq_abs (snd (TaskQueue_run ops (TaskQueue_new m))))"
proof -
  have "sched_run (tq_abs q) ops (fst (TaskQueue_run ops q)) (tq_abs (snd (TaskQueue_run ops q)))"
    if "tq_inv q" "tq_clocked T q" for q :: "'a task_queue"
    using that assms
  proof (induction ops arbitrary: q T)
    case Nil
    then show ?case by (simp add: sched_run.over)
  next
    case (Cons op ops)
    have after: "op_after T op" "clock_steady (op_time T op) ops" using Cons.prems(3) by simp_all
    note refines = TaskQueue_refines_scheduler [OF Cons.prems(1,2) after(1)]
    show ?case
    proof (cases "TaskQueue_step op q")
      case None
      have "tq_clocked (op_time T op) q" using tq_clocked_mono [OF Cons.prems(2) op_after_time [OF after(1)]] .
      from Cons.IH [OF Cons.prems(1) this after(2)] show ?thesis
        using refines None by (auto intro: sched_run.sleep)
    next
      case (Some r)
      obtain out q' where r: "r = (out, q')" by (cases r)
      have "tq_inv q'" "tq_clocked (op_time T op) q'"
        using tq_inv_step [OF Cons.prems(1)] tq_clocked_step [OF Cons.prems(2) after(1)] Some r by auto
      from Cons.IH [OF this after(2)] show ?thesis
        using refines Some r by (auto split: prod.splits intro: sched_run.answer)
    qed
  qed
  then show ?thesis using tq_inv_new by blast
qed

lemma TaskQueue_runs_refine_witness:
  "\<exists>s. sched_run (tq_abs (TaskQueue_new 2))
    [Op_push 0 ''old'' 0, Op_push 7 ''new'' 5, Op_push 8 ''late'' 9, Op_pop 1000000001, Op_pop 1000000001, Op_pop 1000000002]
    [Out_push True, Out_push True, Out_push False, Out_pop (Some ''old''), Out_pop (Some ''new'')] s"
proof -
  let ?ops = "[Op_push 0 ''old'' 0, Op_push 7 ''new'' 5, Op_push 8 ''late'' 9, Op_pop 1000000001, Op_pop 1000000001,
    Op_pop 1000000002]"
  have "fst (TaskQueue_run ?ops (TaskQueue_new 2)) =
      [Out_push True, Out_push True, Out_push False, Out_pop (Some ''old''), Out_pop (Some ''new'')]"
    by code_simp
  then show ?thesis using TaskQueue_runs_refine [of 0 ?ops 2] by auto
qed

section \<open>The queue as a sort\<close>

text \<open>What is in the queue after submitting a list: the entries with their numbers.\<close>

definition entry :: "nat \<Rightarrow> ticks \<times> 'a \<times> cint \<Rightarrow> 'a prioritized_task" where
  "entry k x = (case x of (now, task, p) \<Rightarrow>
     \<lparr>pt_priority = p, pt_order = of_nat k, pt_task = task, pt_added = now, pt_eff = p\<rparr>)"

definition entries :: "nat \<Rightarrow> (ticks \<times> 'a \<times> cint) list \<Rightarrow> 'a prioritized_task list" where
  "entries k xs = map2 entry [k..<k + length xs] xs"

definition submit_all :: "(ticks \<times> 'a \<times> cint) list \<Rightarrow> 'a tq_op list" where
  "submit_all xs = map (\<lambda>(now, task, p). Op_push now task p) xs"

lemma entries_Cons: "entries k (x # xs) = entry k x # entries (Suc k) xs"
  by (simp add: entries_def upt_rec)

lemma length_entries [simp]: "length (entries k xs) = length xs"
  by (simp add: entries_def)

lemma run_append:
  "TaskQueue_run (ops @ ops') q =
    (fst (TaskQueue_run ops q) @ fst (TaskQueue_run ops' (snd (TaskQueue_run ops q))),
     snd (TaskQueue_run ops' (snd (TaskQueue_run ops q))))"
  by (induction ops arbitrary: q) (auto split: option.splits prod.splits)

lemma run_submit_all:
  assumes "tq_inv q" and "\<not> tq_done q" and "\<not> tq_abort q" and "tq_order q = of_nat k"
    and "length (tq_queue q) + length xs \<le> unat (tq_max q)"
  shows "\<exists>q'. TaskQueue_run (submit_all xs) q = (replicate (length xs) (Out_push True), q') \<and> tq_inv q' \<and>
    \<not> tq_abort q' \<and> mset (tq_queue q') = mset (tq_queue q) + mset (entries k xs)"
  using assms
proof (induction xs arbitrary: q k)
  case (Cons x xs)
  obtain now task p where x: "x = (now, task, p)" by (cases x)
  obtain q1 where push: "TaskQueue_push now task p q = (True, q1)"
    using Cons.prems(2,5) by (auto simp: TaskQueue_push_def)
  have q1: "tq_inv q1" "mset (tq_queue q1) = add_mset (entry k x) (mset (tq_queue q))"
    using tq_inv_push [OF Cons.prems(1) push] mset_push [OF push] Cons.prems(4) by (simp_all add: entry_def x)
  have fields: "\<not> tq_done q1" "\<not> tq_abort q1" "tq_order q1 = of_nat (Suc k)" "tq_max q1 = tq_max q"
    using push Cons.prems(2-4) by (auto simp: TaskQueue_push_def split: if_splits)
  have "length (tq_queue q1) + length xs \<le> unat (tq_max q1)"
    using arg_cong [OF q1(2), of size] Cons.prems(5) fields(4) by simp
  from Cons.IH [OF q1(1) fields(1-3) this] show ?case
    using push q1(2) by (auto simp: submit_all_def x entries_Cons)
qed (simp add: submit_all_def entries_def)

text \<open>The order in which entries of different numbers leave.\<close>

definition leaves_before :: "'a prioritized_task \<Rightarrow> 'a prioritized_task \<Rightarrow> bool" where
  "leaves_before x y \<longleftrightarrow> Compare y x"

lemma run_pops:
  assumes "tq_inv q" and "\<not> tq_abort q" and "mset (tq_queue q) = mset es" and "sorted_wrt leaves_before es"
    and "\<forall>e \<in> set es. \<forall>now \<in> set nows. \<not> is_aged now e" and "length nows \<le> length es"
  shows "fst (TaskQueue_run (map Op_pop nows) q) = map (\<lambda>e. Out_pop (Some (pt_task e))) (take (length nows) es)"
  using assms
proof (induction nows arbitrary: q es)
  case (Cons now nows)
  then obtain e es' where es: "es = e # es'" by (cases es) auto
  have members: "set (tq_queue q) = set es" using Cons.prems(3) by (metis set_mset_mset)
  have young: "age_item now y = y" if "y \<in> set es" for y
    using Cons.prems(5) that by (simp add: age_item_def)
  have ne: "tq_queue q \<noteq> []" using Cons.prems(3) es by auto
  obtain x where x: "x \<in> set es" "tq_top now q = x" using tq_top_in [OF ne, of now] members young by auto
  have "\<not> Compare x e" using tq_top_greatest [OF Cons.prems(1), of e now] members young x es by simp
  then have top: "tq_top now q = e" using x Cons.prems(4) by (auto simp: es leaves_before_def)
  have "map (age_item now) es = es" using young by (simp add: map_idI)
  then have "image_mset (age_item now) (mset (tq_queue q)) = mset es"
    using Cons.prems(3) by (metis mset_map)
  then have "mset (tq_queue (tq_rest now q)) = mset es'"
    using mset_tq_split [OF ne, of now] top es by simp
  then have "fst (TaskQueue_run (map Op_pop nows) (tq_rest now q)) =
      map (\<lambda>e. Out_pop (Some (pt_task e))) (take (length nows) es')"
    using Cons.prems es by (intro Cons.IH) (auto intro: tq_inv_rest)
  then show ?case using ne Cons.prems(2) top es by (auto simp: TaskQueue_pop_cases split: prod.splits)
qed simp

text \<open>A stable sort of numbered entries.\<close>

lemma insort_leaves:
  assumes "sorted_wrt leaves_before ys" and "\<forall>y \<in> set ys. pt_order x < pt_order y"
    and "\<forall>y \<in> insert x (set ys). pt_eff y = pt_priority y"
  shows "sorted_wrt leaves_before (insort_key (\<lambda>e. - sint (pt_priority e)) x ys)"
  using assms
proof (induction ys)
  case (Cons y ys)
  have before: "leaves_before a b \<longleftrightarrow> sint (pt_priority b) < sint (pt_priority a) \<or>
      sint (pt_priority a) = sint (pt_priority b) \<and> pt_order a < pt_order b"
    if "pt_eff a = pt_priority a" "pt_eff b = pt_priority b" for a b :: "'a prioritized_task"
    using that by (auto simp: leaves_before_def Compare_def sint_eq_iff)
  show ?case
  proof (cases "sint (pt_priority y) \<le> sint (pt_priority x)")
    case True
    have "leaves_before x z" if "z \<in> set (y # ys)" for z
    proof -
      have "sint (pt_priority z) \<le> sint (pt_priority y)"
        using that Cons.prems(1,3) by (auto simp: before)
      then show ?thesis using that Cons.prems(2,3) True by (auto simp: before)
    qed
    then show ?thesis using True Cons.prems(1) by simp
  next
    case False
    then have "leaves_before y x" using Cons.prems(3) by (simp add: before)
    then show ?thesis using False Cons by (simp add: set_insort_key)
  qed
qed simp

lemma entry_simps [simp]:
  "pt_order (entry k x) = of_nat k" "pt_priority (entry k x) = snd (snd x)" "pt_eff (entry k x) = snd (snd x)"
  "pt_task (entry k x) = fst (snd x)" "pt_added (entry k x) = fst x"
  by (simp_all add: entry_def split: prod.splits)

lemma in_entries:
  assumes "e \<in> set (entries k xs)"
  obtains i x where "k \<le> i" "i < k + length xs" "x \<in> set xs" "e = entry i x"
proof -
  obtain j where "j < length xs" "e = entry (k + j) (xs ! j)"
    using assms by (auto simp: entries_def in_set_conv_nth)
  then show thesis using that [of "k + j" "xs ! j"] by simp
qed

lemma sorted_entries:
  "k + length xs < 2 ^ 64 \<Longrightarrow>
    sorted_wrt leaves_before (sort_key (\<lambda>e. - sint (pt_priority e)) (entries k xs))"
proof (induction xs arbitrary: k)
  case (Cons x xs)
  have "sorted_wrt leaves_before (sort_key (\<lambda>e. - sint (pt_priority e)) (entries (Suc k) xs))"
    using Cons by simp
  moreover have "pt_order (entry k x) < pt_order e" if e: "e \<in> set (entries (Suc k) xs)" for e
  proof -
    obtain i y where "Suc k \<le> i" "i < Suc k + length xs" "e = entry i y" using e by (rule in_entries)
    then show ?thesis using Cons.prems by (simp add: word_less_nat_alt unat_of_nat)
  qed
  moreover have "pt_eff e = pt_priority e" if "e \<in> set (entries (Suc k) xs)" for e
    using that by (auto elim: in_entries)
  ultimately show ?case
    by (simp add: entries_Cons insort_leaves)
qed (simp add: entries_def)

lemma sort_key_image: "map f (sort_key (\<lambda>x. g (f x)) xs) = sort_key g (map f xs)"
proof (induction xs)
  case (Cons x xs)
  have "map f (insort_key (\<lambda>x. g (f x)) x ys) = insort_key g (f x) (map f ys)" for ys
    by (induction ys) auto
  then show ?case using Cons by simp
qed simp

text \<open>
  C23. Filled with a list of tasks and emptied before any of them has waited too long, the queue is a
  stable sort: its tasks come out by falling priority, those of the same priority in the order in
  which they were submitted, as the library's \<open>sort_key\<close> gives them.
\<close>

theorem TaskQueue_sorts:
  assumes "length xs \<le> unat m" and "length nows \<le> length xs"
    and "\<forall>x \<in> set xs. \<forall>now \<in> set nows. now - fst x \<le> AGING_THRESHOLD"
  shows "fst (TaskQueue_run (submit_all xs @ map Op_pop nows) (TaskQueue_new m)) =
    replicate (length xs) (Out_push True) @
    map (\<lambda>(added, task, p). Out_pop (Some task)) (take (length nows) (sort_key (\<lambda>(added, task, p). - sint p) xs))"
proof -
  let ?es = "sort_key (\<lambda>e. - sint (pt_priority e)) (entries 0 xs)"
  obtain q where q: "TaskQueue_run (submit_all xs) (TaskQueue_new m) = (replicate (length xs) (Out_push True), q)"
    "tq_inv q" "\<not> tq_abort q" "mset (tq_queue q) = mset (entries 0 xs)"
    using run_submit_all [of "TaskQueue_new m" 0 xs] tq_inv_new(1) [of m] assms(1) by (auto simp: TaskQueue_new_def)
  have "unat m < 2 ^ 64" by (rule order.strict_trans2 [OF unsigned_less]) simp
  then have "length xs < 2 ^ 64" using assms(1) by simp
  then have "sorted_wrt leaves_before ?es" using sorted_entries [of 0 xs] by simp
  moreover have "\<forall>e \<in> set ?es. \<forall>now \<in> set nows. \<not> is_aged now e"
    using assms(3) by (fastforce simp: is_aged_def elim!: in_entries)
  ultimately have pops: "fst (TaskQueue_run (map Op_pop nows) q) =
      map (\<lambda>e. Out_pop (Some (pt_task e))) (take (length nows) ?es)"
    using q(2-4) assms(2) by (intro run_pops) simp_all
  let ?f = "\<lambda>e. (pt_added e, pt_task e, pt_priority e)"
  have "map ?f (entries 0 xs) = xs"
    by (rule nth_equalityI) (simp_all add: entries_def)
  then have sorted: "map ?f ?es = sort_key (\<lambda>(added, task, p). - sint p) xs"
    using sort_key_image [of ?f "\<lambda>(added, task, p). - sint p" "entries 0 xs"] by simp
  have "map (\<lambda>e. Out_pop (Some (pt_task e))) (take (length nows) ?es) =
      map (\<lambda>(added, task, p). Out_pop (Some task)) (take (length nows) (sort_key (\<lambda>(added, task, p). - sint p) xs))"
    unfolding sorted [symmetric] by (simp add: take_map o_def)
  then show ?thesis using pops q(1) by (simp add: run_append)
qed

lemma TaskQueue_sorts_witness:
  "fst (TaskQueue_run (submit_all [(0, ''a'', 1), (1, ''b'', 5), (2, ''c'', 1), (3, ''d'', 5)] @ map Op_pop [4, 5, 6, 7])
      (TaskQueue_new 4)) =
    [Out_push True, Out_push True, Out_push True, Out_push True,
     Out_pop (Some ''b''), Out_pop (Some ''d''), Out_pop (Some ''a''), Out_pop (Some ''c'')]"
  by (subst TaskQueue_sorts) (simp_all add: AGING_THRESHOLD_def)

end
