(* ===== verification/Spec2Isabelle.thy ===== *)
theory Spec2Isabelle
  imports Server_Automaton Server_Files Server_Robust Server_Serving Program Server_Corner_Cases Config_Help Queue_Threads Task_Order
begin

text \<open>
  A model of the priority HTTP server, and the theorems that make it correct.

  \<^bold>\<open>The program.\<close> \<open>main\<close> reads a configuration (src/config.cpp) and runs an \<open>HttpServer\<close>
  (src/server.cpp) on a Boost.Asio context served by the main thread and the I/O threads. The
  server accepts connections; each is a \<open>Session\<close> (src/session.cpp) whose handlers run on a strand.
  A request goes to the \<open>RequestProcessor\<close> (src/request_processor.cpp): \<open>POST /compute\<close> becomes an
  \<open>HttpTask\<close> (src/http_task.cpp) in the \<open>ThreadPool\<close> (src/thread_pool.cpp), whose workers take tasks
  from a priority queue with ageing and post the response back; every other request is answered at
  once by the handler the \<open>Router\<close> (src/router.cpp) finds, which is the status page
  (src/status_handler.cpp) or a static file (src/static_file_handler.cpp). All of them write to an
  \<open>AsyncLogger\<close> (src/logger.cpp) with a queue and a consumer thread of its own. A signal starts a
  drain: no more accepts, sessions end after their response, and the context stops with the last of
  them, or the drain timer closes those that are left; then \<open>shutdown\<close> joins everything.

  \<^bold>\<open>The theories\<close>, in the order of their imports:
  \<^item> \<open>Prelude\<close>: widths of integers, decimal numerals, \<open>std::stoi\<close> and \<open>std::stoul\<close>, exceptions as values.
  \<^item> \<open>Std_Heap\<close>: \<open>std::push_heap\<close>, \<open>std::pop_heap\<close> and \<open>std::make_heap\<close> on a list, for any strict
    weak order (a locale), with their contract: a permutation, a heap, the greatest element last.
  \<^item> \<open>Queue_Interface\<close>: the locale of a queue that can be closed, with the loop of a consuming thread;
    both queues of the program interpret it.
  \<^item> \<open>Task_Queue\<close>: \<open>TaskQueue\<close>; the state is the vector, the flags and the order counter. Its
    specification is a scheduler on the bag of submitted tasks, which every operation refines.
    \<open>Task_Order\<close>: so does every run of them, and without ageing the queue is a stable sort.
  \<^item> \<open>Thread_Pool\<close>: \<open>WorkerThread\<close> and \<open>ThreadPool\<close>. A step relation interleaves workers and callers;
    the two shutdown procedures are functions of the times at which the loops of the workers end.
  \<^item> \<open>Logger\<close>: levels, format, sinks, \<open>MessageQueue\<close>, consumer and \<open>AsyncLogger\<close>, as a step relation.
  \<^item> \<open>Condition_Variable\<close>, \<open>Queue_Threads\<close>: threads around an object with a mutex and a condition
    variable, where locking, working, sleeping and notifying are steps of their own. Both queues are
    such objects: their calls are linearizable, and no wake-up is lost (the locale
    \<open>notifying_queue\<close>), which is why the other theories may take a call as one step.
  \<^item> \<open>Http\<close>, \<open>Json_Text\<close>: messages and JSON values, include/utils.hpp, and concrete libraries that
    satisfy the laws assumed of Boost.Beast and nlohmann::json.
  \<^item> \<open>Router\<close>, \<open>Request_Processor\<close>: the routing table, \<open>process\<close>, the compute task, the status page.
  \<^item> \<open>File_System\<close>, \<open>Static_File\<close>: \<open>std::filesystem\<close> paths, links and resolution, and the handler.
  \<^item> \<open>Config\<close>, \<open>Config_Help\<close>: the options through JSON, the command line and the file, \<open>main\<close>, the help.
  \<^item> \<open>Session\<close>: the handlers of a session as functions to the session and its effects, in order. The
    locales \<open>session_handler\<close>, \<open>relay\<close> and \<open>bystander\<close> are what the server relies on; every
    handler interprets one of them.
  \<^item> \<open>Server\<close>: the state of \<open>HttpServer\<close> (all sessions made so far with their outstanding operations,
    the pool, the posted deliveries, the logger), one definition per operation and handler, and
    the step function \<^term>\<open>server_next\<close> over them; \<open>server_invariant\<close> is the locale of
    invariants of its reachable states. \<open>Server_Example\<close> has a concrete server and its runs.
  \<^item> \<open>Server_Sessions\<close>: the count of sessions, the connection limit, the end of a drain.
  \<^item> \<open>Server_Protocol\<close>, \<open>Server_Keepalive\<close>: one outstanding operation per session, and the limit on
    the requests read from a connection, counted in the events of a run. \<open>Server_Responses\<close>: the headers of every response.
    \<open>Server_Automaton\<close>: a session as an automaton, which the steps of the whole server refine.
  \<^item> \<open>Server_Shutdown\<close>: the forced end of a drain, and \<open>HttpServer::shutdown\<close>, which composes the pool
    and the logger. \<open>Server_Life\<close>: the server object in \<open>main\<close>, from its constructor through \<open>run\<close>
    and its failures to the destructors and the exit code. \<open>Program\<close>: all of \<open>main\<close>, from the arguments
    and the configuration file on.
  \<^item> \<open>Server_Progress\<close>: no session is ever stuck, and a drain comes to its end, by a measure on what can
    still happen. \<open>Server_Serving\<close>: what the pool has accepted gets its response to the socket.
    \<open>Server_Answers\<close>: what is written to a connection answers the request last read from it, with the
    compute request followed from socket to socket. \<open>Server_Files\<close>: the same for static files, from the
    request to the bytes of the file. \<open>Server_Robust\<close>: no handler throws, whatever comes in.
    \<open>Server_Corner_Cases\<close>: timeouts, HEAD, a sample rate of zero.

  \<^bold>\<open>Reading the model.\<close> \<open>size_t\<close>, \<open>int\<close>, \<open>unsigned\<close> and \<open>unsigned short\<close> are words of 64, 32, 32 and
  16 bits, read by \<open>unat\<close> and \<open>sint\<close>; strings are lists of bytes; an exception is a value of a sum or
  option; a call that blocks, and an event that is not possible, is \<^const>\<open>None\<close>. Times are
  nanoseconds, as integers, and an argument of what reads a clock. What a mutex or a strand makes atomic
  is one step (for the queues \<open>TaskQueue_linearizable\<close> says so); the handlers of an accept and of
  the signal, which are not, are two. An asynchronous operation completes when the environment
  chooses, with any outcome the code tells apart; a cancelled timer may still fire, as one that has
  already expired does. The file system may change between the calls that one request makes
  (\<open>files\<close>); each call finds it in one state. What an opened stream reads of a directory or a special
  file is up to the file system (\<open>fs_irregular\<close>); opening one that blocks is not modelled.
  Reading JSON from a stream gives a value, a parse error or another exception, which \<open>loadConfig\<close>
  treats differently.

  \<^bold>\<open>Parameters.\<close> Code that is not in the repository is an argument of the definitions: Boost.Beast and
  nlohmann::json as records of functions with \<open>beast_laws\<close> and \<open>json_laws\<close>, \<open>localtime_r\<close>,
  \<open>to_upper\<close> and \<open>to_lower\<close>, opening files, binding the acceptor. The laws are proved for the concrete
  libraries, at which every witness is evaluated.

  \<^bold>\<open>Bounds and fuel.\<close> The consumer loops run as many rounds as they are given; one round per queued item
  and one more are proved to be enough, which is where \<open>shutdown\<close> of the logger gets its number of
  rounds. That a drain terminates needs no bound: it is a lexicographic measure of the signals and
  timers, the operations and the log lines that are left. Path resolution follows
  40 links, as Linux does. Sifting in the heap has a measure. The connection limit needs the sum of \<open>max_connections\<close> and the threads to be below \<open>2 ^ 64\<close>, and the
  bound on \<open>shutdown\<close> is for a positive \<open>drain_timeout_sec\<close> (with 0 the code waits as long as the
  tasks take, \<open>ThreadPool_drain_untimed\<close>). The arithmetic of \<open>std::chrono\<close> is that of the integers: for
  timeouts of more than \<open>2 ^ 63\<close> nanoseconds the code overflows.
  What \<open>shutdown\<close> leaves in the log is stated as \<^term>\<open>log_complete\<close>: the lines written before, the
  messages that were queued, and the messages of the shutdown itself.

  \<^bold>\<open>Not modelled.\<close> The bytes on the wire, the parser and TCP, beyond the ways in which a read or write can
  end. Messages on the standard streams, but for the help. Failures to allocate memory or to start a
  thread. What abandoned tasks do after the server object is gone. The tests, the build files and the
  README. The log line of a new session reads the counter in the same step that inserts it.
\<close>

end
